(* ===== verification/Prelude.thy ===== *)
theory Prelude
  imports Complex_Main "HOL-Library.AList" "HOL-Library.Multiset" "HOL-Library.Char_ord"
    "HOL-Library.List_Lexorder" "HOL-Library.Word"
begin

text \<open>
  What the components share: Go's \<^verbatim>\<open>time.Time\<close> and \<^verbatim>\<open>time.Duration\<close>, \<^verbatim>\<open>float64\<close>, maps,
  \<^verbatim>\<open>sort.Slice\<close> and little-endian byte encodings as the sources use them, the locale of a
  comparison function, the locale of a state machine with an invariant, and the list and map lemmas
  the component proofs rest on.
\<close>

unbundle bit_operations_syntax

named_theorems gomap \<open>lookups in and updates of a Go map\<close>
named_theorems go_units \<open>durations written out in nanoseconds\<close>

section \<open>Time\<close>

text \<open>
  An instant is a number of nanoseconds since Go's zero time (1 January of year 1), so the zero
  value of \<^verbatim>\<open>time.Time\<close> is \<open>0\<close>; a duration is a number of nanoseconds. \<^verbatim>\<open>Time.Sub\<close> saturates at
  the bounds of \<^verbatim>\<open>int64\<close>, which is what makes the age of a zero time a very long one.
\<close>

type_synonym time = int
type_synonym duration = int

definition max_duration :: duration where
  "max_duration = 9223372036854775807"

definition min_duration :: duration where
  "min_duration = -9223372036854775808"

definition time_sub :: "time \<Rightarrow> time \<Rightarrow> duration" where
  "time_sub t u = max min_duration (min max_duration (t - u))"

definition is_zero :: "time \<Rightarrow> bool" where
  "is_zero t \<longleftrightarrow> t = 0"

definition microsecond :: duration where [go_units]: "microsecond = 1000"
definition second :: duration where [go_units]: "second = 1000000000"
definition minute :: duration where [go_units]: "minute = 60000000000"
definition hour :: duration where [go_units]: "hour = 3600000000000"

text \<open>\<^verbatim>\<open>int64\<close> arithmetic wraps around.\<close>

definition wrap64 :: "int \<Rightarrow> int" where
  "wrap64 x = (x + 9223372036854775808) mod 18446744073709551616 - 9223372036854775808"

lemma wrap64_id [simp]: "min_duration \<le> x \<Longrightarrow> x \<le> max_duration \<Longrightarrow> wrap64 x = x"
  by (simp add: wrap64_def min_duration_def max_duration_def mod_pos_pos_trivial)

lemma wrap64_range: "min_duration \<le> wrap64 x \<and> wrap64 x \<le> max_duration"
  by (simp add: wrap64_def min_duration_def max_duration_def)

lemma time_sub_self [simp]: "time_sub t t = 0"
  by (simp add: time_sub_def min_duration_def max_duration_def)

lemma time_sub_ge_iff: "min_duration < d \<Longrightarrow> d \<le> max_duration \<Longrightarrow> d \<le> time_sub t u \<longleftrightarrow> d \<le> t - u"
  by (auto simp: time_sub_def)

lemma time_sub_gt_iff: "min_duration \<le> d \<Longrightarrow> d < max_duration \<Longrightarrow> d < time_sub t u \<longleftrightarrow> d < t - u"
  by (auto simp: time_sub_def)

lemma time_sub_mono: "t \<le> t' \<Longrightarrow> time_sub t u \<le> time_sub t' u"
  by (auto simp: time_sub_def)

section \<open>Floating point\<close>

text \<open>
  A \<^verbatim>\<open>float64\<close> is a real number or one of the IEEE special values. Comparisons and arithmetic
  follow IEEE on the special values (every comparison with a NaN but \<open>\<noteq>\<close> is false); results of
  finite operations are exact, the rounding of the last bit is not modelled.
\<close>

datatype f64 = Fin real | PInf | NInf | NaN

fun f_lt :: "f64 \<Rightarrow> f64 \<Rightarrow> bool" where
  "f_lt (Fin x) (Fin y) = (x < y)"
| "f_lt (Fin _) PInf = True"
| "f_lt NInf (Fin _) = True"
| "f_lt NInf PInf = True"
| "f_lt _ _ = False"

fun f_eq :: "f64 \<Rightarrow> f64 \<Rightarrow> bool" where
  "f_eq (Fin x) (Fin y) = (x = y)"
| "f_eq PInf PInf = True"
| "f_eq NInf NInf = True"
| "f_eq _ _ = False"

definition f_le :: "f64 \<Rightarrow> f64 \<Rightarrow> bool" where
  "f_le x y \<longleftrightarrow> f_lt x y \<or> f_eq x y"

fun f_sub :: "f64 \<Rightarrow> f64 \<Rightarrow> f64" where
  "f_sub (Fin x) (Fin y) = Fin (x - y)"
| "f_sub (Fin _) PInf = NInf"
| "f_sub (Fin _) NInf = PInf"
| "f_sub PInf (Fin _) = PInf"
| "f_sub PInf NInf = PInf"
| "f_sub NInf (Fin _) = NInf"
| "f_sub NInf PInf = NInf"
| "f_sub _ _ = NaN"

text \<open>Division by a positive finite number, the only divisor the sources use.\<close>

fun f_div_pos :: "f64 \<Rightarrow> real \<Rightarrow> f64" where
  "f_div_pos (Fin x) d = Fin (x / d)"
| "f_div_pos PInf d = PInf"
| "f_div_pos NInf d = NInf"
| "f_div_pos NaN d = NaN"

lemma f_lt_irrefl [simp]: "\<not> f_lt x x"
  by (cases x) auto

lemma f_lt_asym: "f_lt x y \<Longrightarrow> \<not> f_lt y x"
  by (cases x; cases y) auto

lemma f_lt_trans: "f_lt x y \<Longrightarrow> f_lt y z \<Longrightarrow> f_lt x z"
  by (cases x; cases y; cases z) auto

lemma f_eq_iff: "f_eq x y \<longleftrightarrow> x = y \<and> x \<noteq> NaN"
  by (cases x; cases y) auto

lemma f_lt_total: "x \<noteq> NaN \<Longrightarrow> y \<noteq> NaN \<Longrightarrow> x \<noteq> y \<Longrightarrow> f_lt x y \<or> f_lt y x"
  by (cases x; cases y) auto

section \<open>Maps\<close>

text \<open>
  A Go map is an association list with distinct keys: \<open>map_of m k\<close> is the lookup with its
  \<^verbatim>\<open>ok\<close>, \<open>AList.update\<close> the assignment, \<open>AList.delete\<close> the \<^verbatim>\<open>delete\<close>, and a \<^verbatim>\<open>range\<close> loop visits the
  entries in list order. Go leaves that order open; the theorems quantify over every list, so they
  hold for every order.
\<close>

type_synonym ('k, 'v) gomap = "('k \<times> 'v) list"

definition wf_map :: "('k, 'v) gomap \<Rightarrow> bool" where
  "wf_map m \<longleftrightarrow> distinct (map fst m)"

lemma wf_map_Nil [simp]: "wf_map []"
  by (simp add: wf_map_def)

lemma wf_map_Cons [simp]: "wf_map ((k, v) # m) \<longleftrightarrow> map_of m k = None \<and> wf_map m"
  by (simp add: wf_map_def map_of_eq_None_iff)

definition get_or :: "'v \<Rightarrow> ('k, 'v) gomap \<Rightarrow> 'k \<Rightarrow> 'v" where
  "get_or d m k = (case map_of m k of None \<Rightarrow> d | Some v \<Rightarrow> v)"

lemma map_of_update_conv [gomap]: "map_of (AList.update k v m) = (map_of m)(k \<mapsto> v)"
  by (rule update_conv')

lemma map_of_delete_conv [gomap]: "map_of (AList.delete k m) = (map_of m)(k := None)"
  by (rule delete_conv')

lemma wf_map_update [gomap]: "wf_map m \<Longrightarrow> wf_map (AList.update k v m)"
  unfolding wf_map_def by (rule distinct_update)

lemma wf_map_delete [gomap]: "wf_map m \<Longrightarrow> wf_map (AList.delete k m)"
  unfolding wf_map_def by (rule distinct_delete)

text \<open>Adding to a counter that is zero when missing.\<close>

lemma sum_list_add_count:
  "wf_map m \<Longrightarrow> sum_list (map snd (AList.update k (get_or 0 m k + n) m)) = sum_list (map snd m) + (n :: int)"
  by (induction m) (auto simp: get_or_def split: option.splits)

lemma map_of_filter_wf:
  assumes "wf_map m"
  shows "map_of (filter P m) k = (case map_of m k of None \<Rightarrow> None | Some v \<Rightarrow> if P (k, v) then Some v else None)"
  using assms
proof (induction m)
  case Nil
  show ?case by simp
next
  case (Cons e m)
  obtain k' v' where e: "e = (k', v')" by (cases e)
  with Cons.prems have "map_of m k' = None" by simp
  with Cons e show ?case by auto
qed

lemma wf_map_filter: "wf_map m \<Longrightarrow> wf_map (filter P m)"
  by (simp add: wf_map_def distinct_map_filter)

lemma wf_map_foldl_update [gomap]: "wf_map m \<Longrightarrow> wf_map (foldl (\<lambda>m x. AList.update (f x) (g x) m) m xs)"
  by (induction xs arbitrary: m) (auto simp: wf_map_update)

text \<open>A loop that assigns one value to the keys of a slice, and one that assigns each element to its key.\<close>

lemma map_of_foldl_const [gomap]:
  "map_of (foldl (\<lambda>m x. AList.update (f x) c m) m xs) k = (if k \<in> f ` set xs then Some c else map_of m k)"
  by (induction xs arbitrary: m) (auto simp: map_of_update_conv)

lemma map_of_foldl_update:
  "distinct (map f xs) \<Longrightarrow> x \<in> set xs \<Longrightarrow>
   map_of (foldl (\<lambda>m x. AList.update (f x) (g x) m) m xs) (f x) = Some (g x)"
proof (induction xs rule: rev_induct)
  case (snoc y ys)
  show ?case
  proof (cases "x = y")
    case False
    with snoc.prems have "x \<in> set ys" by simp
    moreover have "f y \<notin> f ` set ys" using snoc.prems(1) by simp
    ultimately have "x \<in> set ys" "f x \<noteq> f y" by (metis, metis imageI)
    with snoc show ?thesis by (simp add: map_of_update_conv)
  qed (simp add: map_of_update_conv)
qed simp

lemma in_set_map_of: "wf_map m \<Longrightarrow> (k, v) \<in> set m \<longleftrightarrow> map_of m k = Some v"
  by (simp add: wf_map_def)

lemma length_delete_present:
  "wf_map m \<Longrightarrow> map_of m k = Some v \<Longrightarrow> length m = Suc (length (AList.delete k m))"
proof (induction m)
  case (Cons e m)
  show ?case
  proof (cases "fst e = k")
    case True
    with Cons.prems have "k \<notin> fst ` set m" by (auto simp: wf_map_def)
    then have "AList.delete k m = m" by (simp add: delete_idem)
    with True show ?thesis by (auto simp: AList.delete_eq)
  next
    case False
    with Cons show ?thesis by (cases e) (auto simp: AList.delete_eq)
  qed
qed simp

section \<open>Sorting\<close>

text \<open>
  \<^verbatim>\<open>sort.Slice\<close> with a comparison function. Go does not say which permutation it returns for
  elements that compare equal; \<open>sort_slice\<close> is the stable one. For a comparison that is a total
  order on the elements every sorted permutation is this one (\<open>sort_unique\<close> below), so nothing
  depends on the algorithm.
\<close>

fun insert_slice :: "('a \<Rightarrow> 'a \<Rightarrow> bool) \<Rightarrow> 'a \<Rightarrow> 'a list \<Rightarrow> 'a list" where
  "insert_slice lt x [] = [x]"
| "insert_slice lt x (y # ys) = (if lt y x then y # insert_slice lt x ys else x # y # ys)"

fun sort_slice :: "('a \<Rightarrow> 'a \<Rightarrow> bool) \<Rightarrow> 'a list \<Rightarrow> 'a list" where
  "sort_slice lt [] = []"
| "sort_slice lt (x # xs) = insert_slice lt x (sort_slice lt xs)"

lemma mset_insert_slice [simp]: "mset (insert_slice lt x xs) = add_mset x (mset xs)"
  by (induction xs) auto

lemma mset_sort_slice [simp]: "mset (sort_slice lt xs) = mset xs"
  by (induction xs) auto

lemma set_sort_slice [simp]: "set (sort_slice lt xs) = set xs"
  by (metis mset_sort_slice set_mset_mset)

lemma length_sort_slice [simp]: "length (sort_slice lt xs) = length xs"
  by (metis mset_sort_slice size_mset)

lemma distinct_sort_slice [simp]: "distinct (sort_slice lt xs) = distinct xs"
  by (metis mset_sort_slice mset_eq_imp_distinct_iff)

lemma set_insert_slice [simp]: "set (insert_slice lt x xs) = insert x (set xs)"
  by (metis mset_insert_slice set_mset_add_mset_insert set_mset_mset)

text \<open>The contract of a comparison function on the elements it is used for.\<close>

locale slice_order =
  fixes lt :: "'a \<Rightarrow> 'a \<Rightarrow> bool" and ok :: "'a \<Rightarrow> bool"
  assumes less_asym: "ok x \<Longrightarrow> ok y \<Longrightarrow> lt x y \<Longrightarrow> \<not> lt y x"
    and not_less_trans: "ok x \<Longrightarrow> ok y \<Longrightarrow> ok z \<Longrightarrow> \<not> lt y x \<Longrightarrow> \<not> lt z y \<Longrightarrow> \<not> lt z x"
begin

abbreviation in_order :: "'a list \<Rightarrow> bool" where
  "in_order \<equiv> sorted_wrt (\<lambda>x y. \<not> lt y x)"

lemma insert_in_order:
  "ok x \<Longrightarrow> \<forall>y \<in> set ys. ok y \<Longrightarrow> in_order ys \<Longrightarrow> in_order (insert_slice lt x ys)"
proof (induction ys)
  case (Cons y ys)
  show ?case
  proof (cases "lt y x")
    case True
    with Cons.prems have "\<not> lt x y" using less_asym by simp
    with True Cons show ?thesis by simp
  next
    case False
    have "\<not> lt z x" if "z \<in> set ys" for z
      using that False Cons.prems not_less_trans [of x y z] by simp
    with False Cons.prems show ?thesis by simp
  qed
qed simp

lemma sort_in_order: "\<forall>x \<in> set xs. ok x \<Longrightarrow> in_order (sort_slice lt xs)"
  by (induction xs) (auto intro: insert_in_order)

text \<open>A prefix of a sorted list ranks at or before everything after it.\<close>

lemma take_ranks_first:
  assumes "\<forall>x \<in> set xs. ok x"
    and "x \<in> set (take n (sort_slice lt xs))" and "y \<in> set (drop n (sort_slice lt xs))"
  shows "\<not> lt y x"
proof -
  let ?s = "sort_slice lt xs"
  have "in_order (take n ?s @ drop n ?s)"
    using sort_in_order [OF assms(1)] by simp
  with assms(2,3) show ?thesis unfolding sorted_wrt_append by blast
qed

end

locale slice_total = slice_order +
  assumes less_total: "ok x \<Longrightarrow> ok y \<Longrightarrow> x \<noteq> y \<Longrightarrow> lt x y \<or> lt y x"
begin

lemma in_order_unique:
  "\<forall>x \<in> set xs. ok x \<Longrightarrow> in_order xs \<Longrightarrow> in_order ys \<Longrightarrow> mset xs = mset ys \<Longrightarrow> xs = ys"
proof (induction xs arbitrary: ys)
  case (Cons x xs)
  from Cons.prems(4) obtain y ys' where ys: "ys = y # ys'"
    by (cases ys) auto
  have sets: "insert x (set xs) = insert y (set ys')"
    using Cons.prems(4) unfolding ys by (metis list.simps(15) mset_eq_setD)
  have "x = y"
  proof (rule ccontr)
    assume ne: "x \<noteq> y"
    with sets have "y \<in> set xs" "x \<in> set ys'" by auto
    with Cons.prems ys have "\<not> lt y x" "\<not> lt x y" by auto
    moreover have "ok x" "ok y" using Cons.prems(1) \<open>y \<in> set xs\<close> by auto
    ultimately show False using less_total [of x y] ne by auto
  qed
  moreover have "xs = ys'"
    using Cons.prems ys \<open>x = y\<close> by (intro Cons.IH) auto
  ultimately show ?case using ys by simp
qed simp

lemma sort_unique:
  "\<forall>x \<in> set xs. ok x \<Longrightarrow> in_order ys \<Longrightarrow> mset ys = mset xs \<Longrightarrow> ys = sort_slice lt xs"
  using in_order_unique [of "sort_slice lt xs" ys] sort_in_order by simp

text \<open>The order of the input does not matter, as for the entries of a map.\<close>

lemma sort_input_order: "\<forall>x \<in> set xs. ok x \<Longrightarrow> mset ys = mset xs \<Longrightarrow> sort_slice lt ys = sort_slice lt xs"
  by (metis mset_eq_setD mset_sort_slice sort_in_order sort_unique)

lemma sort_strict: "\<forall>x \<in> set xs. ok x \<Longrightarrow> distinct xs \<Longrightarrow> sorted_wrt lt (sort_slice lt xs)"
proof -
  have "distinct ys \<Longrightarrow> \<forall>x \<in> set ys. ok x \<Longrightarrow> in_order ys \<Longrightarrow> sorted_wrt lt ys" for ys
    by (induction ys) (use less_total in auto)
  then show "\<forall>x \<in> set xs. ok x \<Longrightarrow> distinct xs \<Longrightarrow> sorted_wrt lt (sort_slice lt xs)"
    using sort_in_order by simp
qed

text \<open>The elements ahead of the \<open>i\<close>th are exactly the ones that compare less than it.\<close>

lemma ahead_in_order:
  assumes "\<forall>x \<in> set s. ok x" and "in_order s" and "distinct s" and "i < length s"
  shows "filter (\<lambda>y. lt y (s ! i)) s = take i s"
proof -
  have split: "s = take i s @ s ! i # drop (Suc i) s" using assms(4) by (rule id_take_nth_drop)
  have ord: "in_order (take i s @ s ! i # drop (Suc i) s)" and dis: "distinct (take i s @ s ! i # drop (Suc i) s)"
    using assms(2,3) split by simp_all
  have "lt y (s ! i)" if y: "y \<in> set (take i s)" for y
  proof -
    have "\<not> lt (s ! i) y" using ord y unfolding sorted_wrt_append by simp
    moreover have "y \<noteq> s ! i" using dis y by auto
    moreover have "ok y" "ok (s ! i)" using assms(1,4) y by (auto dest: in_set_takeD)
    ultimately show ?thesis using less_total by blast
  qed
  moreover have "\<not> lt y (s ! i)" if "y \<in> set (drop (Suc i) s)" for y
    using ord that unfolding sorted_wrt_append by simp
  moreover have "\<not> lt (s ! i) (s ! i)" using less_asym assms(1,4) nth_mem by blast
  ultimately have "filter (\<lambda>y. lt y (s ! i)) (take i s @ s ! i # drop (Suc i) s) = take i s"
    by (simp add: filter_empty_conv)
  with split show ?thesis by simp
qed

lemma take_sort_iff:
  assumes "\<forall>x \<in> set xs. ok x" and "distinct xs"
  shows "x \<in> set (take n (sort_slice lt xs)) \<longleftrightarrow> x \<in> set xs \<and> length (filter (\<lambda>y. lt y x) xs) < n"
proof (cases "x \<in> set xs")
  case True
  let ?s = "sort_slice lt xs"
  from True obtain i where i: "i < length ?s" "?s ! i = x" by (metis in_set_conv_nth set_sort_slice)
  have "mset (filter (\<lambda>y. lt y x) xs) = mset (filter (\<lambda>y. lt y x) ?s)" by simp
  then have "length (filter (\<lambda>y. lt y x) xs) = length (filter (\<lambda>y. lt y x) ?s)" by (metis size_mset)
  also have "filter (\<lambda>y. lt y x) ?s = take i ?s"
    using ahead_in_order [of ?s i] sort_in_order [OF assms(1)] assms i by simp
  also have "length (take i ?s) = i" using i by simp
  finally have "length (filter (\<lambda>y. lt y x) xs) = i" .
  moreover have "x \<in> set (take n ?s) \<longleftrightarrow> i < n"
    using i assms(2) by (auto simp: in_set_conv_nth nth_eq_iff_index_eq)
  ultimately show ?thesis using True by simp
qed (auto dest: in_set_takeD)

end

section \<open>State machines\<close>

text \<open>
  A component whose operations run one at a time under its mutex is a step function over its
  calls. The locale gives what every such component needs once each call keeps the invariant.
\<close>

locale machine =
  fixes step :: "'s \<Rightarrow> 'e \<Rightarrow> 's" and inv :: "'s \<Rightarrow> bool"
  assumes step_inv: "inv s \<Longrightarrow> inv (step s e)"
begin

lemma run_inv: "inv s \<Longrightarrow> inv (foldl step s es)"
  by (induction es arbitrary: s) (auto intro: step_inv)

lemma run_prefix_inv: "inv s \<Longrightarrow> inv (foldl step s (take n es))"
  by (rule run_inv)

end

section \<open>Bytes\<close>

type_synonym byte = "8 word"
type_synonym bytes = "8 word list"

text \<open>\<^verbatim>\<open>binary.LittleEndian\<close>: \<^verbatim>\<open>PutUint32\<close>, \<^verbatim>\<open>Uint32\<close>, \<^verbatim>\<open>PutUint64\<close> and \<^verbatim>\<open>Uint64\<close>.\<close>

definition put_u32 :: "32 word \<Rightarrow> bytes" where
  "put_u32 w = [ucast w, ucast (drop_bit 8 w), ucast (drop_bit 16 w), ucast (drop_bit 24 w)]"

fun get_u32 :: "bytes \<Rightarrow> 32 word" where
  "get_u32 (a # b # c # d # _) =
     ucast a OR push_bit 8 (ucast b) OR push_bit 16 (ucast c) OR push_bit 24 (ucast d)"
| "get_u32 _ = 0"

definition put_u64 :: "64 word \<Rightarrow> bytes" where
  "put_u64 w = put_u32 (ucast w) @ put_u32 (ucast (drop_bit 32 w))"

definition get_u64 :: "bytes \<Rightarrow> 64 word" where
  "get_u64 bs = ucast (get_u32 bs) OR push_bit 32 (ucast (get_u32 (drop 4 bs)))"

lemma length_put_u32 [simp]: "length (put_u32 w) = 4"
  by (simp add: put_u32_def)

lemma length_put_u64 [simp]: "length (put_u64 w) = 8"
  by (simp add: put_u64_def)

lemma get_put_u32 [simp]: "get_u32 (put_u32 w @ rest) = w"
proof -
  have "bit (get_u32 (put_u32 w @ rest)) n = bit w n" if n: "n < 32" for n
  proof -
    have "n < 8 \<or> 8 \<le> n \<and> n < 16 \<or> 16 \<le> n \<and> n < 24 \<or> 24 \<le> n \<and> n < 32" using n by arith
    then show ?thesis by (auto simp: put_u32_def bit_simps)
  qed
  then show ?thesis by (intro bit_word_eqI) simp
qed

lemma get_put_u64 [simp]: "get_u64 (put_u64 w @ rest) = w"
proof -
  have "get_u64 (put_u64 w @ rest) = ucast (ucast w :: 32 word) OR push_bit 32 (ucast (ucast (drop_bit 32 w) :: 32 word))"
    by (simp add: get_u64_def put_u64_def)
  also have "\<dots> = w"
  proof (rule bit_word_eqI)
    fix n assume "n < LENGTH(64)"
    then show "bit (ucast (ucast w :: 32 word) OR push_bit 32 (ucast (ucast (drop_bit 32 w) :: 32 word)) :: 64 word) n = bit w n"
      by (cases "n < 32") (auto simp: bit_simps)
  qed
  finally show ?thesis .
qed

end
