(* ===== verification/Pgtype.thy ===== *)
theory Pgtype
  imports Prelude
begin

text \<open>
  The core value types (\<^verbatim>\<open>internal/pgtype\<close>): label sets and their canonical text, cluster
  identifiers, replication roles, permission tiers and server versions.
\<close>

section \<open>Labels\<close>

abbreviation esc_byte :: char where "esc_byte \<equiv> CHR 0x1E"
abbreviation sep_byte :: char where "sep_byte \<equiv> CHR 0x1F"
abbreviation eq_byte :: char where "eq_byte \<equiv> CHR ''=''"

type_synonym labels = "(string, string) gomap"

text \<open>
  \<^verbatim>\<open>labelValueEscaper\<close> and \<^verbatim>\<open>labelKeyEscaper\<close> replace single bytes, one after the other;
  \<^verbatim>\<open>labelUnescaper\<close> replaces two-byte strings and reads from left to right, so the byte after
  a matched pair starts the next comparison.
\<close>

definition value_escape :: "char \<Rightarrow> string" where
  "value_escape c =
     (if c = esc_byte then [esc_byte, CHR ''0'']
      else if c = sep_byte then [esc_byte, CHR ''1''] else [c])"

definition key_escape :: "char \<Rightarrow> string" where
  "key_escape c =
     (if c = esc_byte then [esc_byte, CHR ''0'']
      else if c = sep_byte then [esc_byte, CHR ''1'']
      else if c = eq_byte then [esc_byte, CHR ''2''] else [c])"

definition labelValueEscaper :: "string \<Rightarrow> string" where
  "labelValueEscaper s = concat (map value_escape s)"

definition labelKeyEscaper :: "string \<Rightarrow> string" where
  "labelKeyEscaper s = concat (map key_escape s)"

fun unescapeLabel :: "string \<Rightarrow> string" where
  "unescapeLabel [] = []"
| "unescapeLabel [c] = [c]"
| "unescapeLabel (c # d # s) =
     (if c = esc_byte \<and> d = CHR ''0'' then esc_byte # unescapeLabel s
      else if c = esc_byte \<and> d = CHR ''1'' then sep_byte # unescapeLabel s
      else if c = esc_byte \<and> d = CHR ''2'' then eq_byte # unescapeLabel s
      else c # unescapeLabel (d # s))"

text \<open>The text of one label, and the loop that joins them with the separator.\<close>

definition label_text :: "labels \<Rightarrow> string \<Rightarrow> string" where
  "label_text l k = labelKeyEscaper k @ [eq_byte] @ labelValueEscaper (get_or [] l k)"

fun join_sep :: "string list \<Rightarrow> string" where
  "join_sep [] = []"
| "join_sep [p] = p"
| "join_sep (p # q # ps) = p @ [sep_byte] @ join_sep (q # ps)"

definition canonicalLabels :: "labels \<Rightarrow> string" where
  "canonicalLabels l = (if l = [] then [] else join_sep (map (label_text l) (sort (map fst l))))"

record seriesKey =
  sk_metric :: string
  sk_instance :: string
  sk_database :: string
  sk_labels :: string

section \<open>Cluster identifiers\<close>

type_synonym clusterID = "64 word"

text \<open>\<^verbatim>\<open>strconv.FormatUint\<close> and \<^verbatim>\<open>strconv.ParseUint\<close> in base 10; a value above \<^verbatim>\<open>MaxUint64\<close> is a range error.\<close>

function format_nat :: "nat \<Rightarrow> string" where
  "format_nat n = (if n < 10 then [char_of (48 + n)] else format_nat (n div 10) @ [char_of (48 + n mod 10)])"
  by pat_completeness auto
termination
  by (relation "measure id") auto

declare format_nat.simps [simp del]

definition digit_value :: "char \<Rightarrow> nat option" where
  "digit_value c = (let v = (of_char c :: nat) in if 48 \<le> v \<and> v \<le> 57 then Some (v - 48) else None)"

definition max_uint64 :: nat where
  "max_uint64 = 18446744073709551615"

fun parse_digits :: "nat \<Rightarrow> string \<Rightarrow> nat option" where
  "parse_digits n [] = Some n"
| "parse_digits n (c # s) =
     (case digit_value c of
        None \<Rightarrow> None
      | Some d \<Rightarrow> if max_uint64 < n * 10 + d then None else parse_digits (n * 10 + d) s)"

definition clusterID_string :: "clusterID \<Rightarrow> string" where
  "clusterID_string c = format_nat (unat c)"

definition parseClusterID :: "string \<Rightarrow> clusterID option" where
  "parseClusterID s = (if s = [] then None else map_option word_of_nat (parse_digits 0 s))"

text \<open>FNV-1a with 64 bits: the offset basis, then for each byte an exclusive or and a product.\<close>

definition manualClusterID :: "string \<Rightarrow> clusterID" where
  "manualClusterID name =
     foldl (\<lambda>h c. (h XOR of_char c) * 1099511628211) 14695981039346656037 name"

section \<open>Roles, tiers and versions\<close>

text \<open>A role is a string type in the code: any text can stand in it, three are named.\<close>

type_synonym role = string

definition rolePrimary :: role where "rolePrimary = ''primary''"
definition roleStandby :: role where "roleStandby = ''standby''"
definition roleUnknown :: role where "roleUnknown = ''unknown''"

definition roleFromRecovery :: "bool \<Rightarrow> role" where
  "roleFromRecovery inRecovery = (if inRecovery then roleStandby else rolePrimary)"

type_synonym permTier = int

definition tierReadOnly :: permTier where "tierReadOnly = 0"
definition tierExplain :: permTier where "tierExplain = 1"
definition tierSignal :: permTier where "tierSignal = 2"
definition tierExtension :: permTier where "tierExtension = 3"

definition format_int :: "int \<Rightarrow> string" where
  "format_int i = (if i < 0 then ''-'' @ format_nat (nat (- i)) else format_nat (nat i))"

definition permTier_string :: "permTier \<Rightarrow> string" where
  "permTier_string t =
     (if t = tierReadOnly then ''T0''
      else if t = tierExplain then ''T1''
      else if t = tierSignal then ''T2''
      else if t = tierExtension then ''T3''
      else ''Tier'' @ format_int t)"

definition parsePermTier :: "string \<Rightarrow> permTier option" where
  "parsePermTier s =
     (if s = ''T0'' then Some tierReadOnly
      else if s = ''T1'' then Some tierExplain
      else if s = ''T2'' then Some tierSignal
      else if s = ''T3'' then Some tierExtension
      else None)"

type_synonym pgVersion = int

text \<open>Go's integer division truncates towards zero.\<close>

definition quot_trunc :: "int \<Rightarrow> int \<Rightarrow> int" where
  "quot_trunc a b = sgn a * sgn b * (\<bar>a\<bar> div \<bar>b\<bar>)"

definition rem_trunc :: "int \<Rightarrow> int \<Rightarrow> int" where
  "rem_trunc a b = a - b * quot_trunc a b"

definition version_major :: "pgVersion \<Rightarrow> int" where
  "version_major v = quot_trunc v 10000"

definition version_minor :: "pgVersion \<Rightarrow> int" where
  "version_minor v = rem_trunc v 100"

definition version_string :: "pgVersion \<Rightarrow> string" where
  "version_string v = format_int (version_major v) @ ''.'' @ format_int (version_minor v)"

definition version_supported :: "pgVersion \<Rightarrow> bool" where
  "version_supported v \<longleftrightarrow> (let major = version_major v in 15 \<le> major \<and> major < 20)"

section \<open>Labels: escaping and its inverse\<close>

lemma unescape_plain: "c \<noteq> esc_byte \<Longrightarrow> unescapeLabel (c # s) = c # unescapeLabel s"
  by (cases s) auto

lemma labelKeyEscaper_simps [simp]:
  "labelKeyEscaper [] = []"
  "labelKeyEscaper (c # s) = key_escape c @ labelKeyEscaper s"
  by (simp_all add: labelKeyEscaper_def)

lemma labelValueEscaper_simps [simp]:
  "labelValueEscaper [] = []"
  "labelValueEscaper (c # s) = value_escape c @ labelValueEscaper s"
  by (simp_all add: labelValueEscaper_def)

lemma unescape_key [simp]: "unescapeLabel (labelKeyEscaper s) = s"
  by (induction s) (auto simp: key_escape_def unescape_plain)

lemma unescape_value [simp]: "unescapeLabel (labelValueEscaper s) = s"
  by (induction s) (auto simp: value_escape_def unescape_plain)

lemma sep_notin_key: "sep_byte \<notin> set (labelKeyEscaper s)"
  by (induction s) (auto simp: key_escape_def)

lemma eq_notin_key: "eq_byte \<notin> set (labelKeyEscaper s)"
  by (induction s) (auto simp: key_escape_def)

lemma sep_notin_value: "sep_byte \<notin> set (labelValueEscaper s)"
  by (induction s) (auto simp: value_escape_def)

lemma split_at_unique:
  "x \<notin> set p \<Longrightarrow> x \<notin> set p' \<Longrightarrow> p @ x # q = p' @ x # q' \<longleftrightarrow> p = p' \<and> q = q'"
proof (induction p arbitrary: p')
  case Nil
  then show ?case by (cases p') auto
next
  case (Cons a p)
  then show ?case by (cases p') auto
qed

lemma label_text_inj:
  "label_text l k = label_text l' k' \<longleftrightarrow> k = k' \<and> get_or [] l k = get_or [] l' k'"
  using split_at_unique [OF eq_notin_key eq_notin_key, of k "labelValueEscaper (get_or [] l k)" k' "labelValueEscaper (get_or [] l' k')"]
  by (auto simp: label_text_def) (metis unescape_key, metis unescape_value)+

lemma label_text_piece: "label_text l k \<noteq> [] \<and> sep_byte \<notin> set (label_text l k)"
  by (simp add: label_text_def sep_notin_key sep_notin_value)

lemma join_sep_inj:
  assumes "\<forall>p \<in> set ps. p \<noteq> [] \<and> sep_byte \<notin> set p" "\<forall>q \<in> set qs. q \<noteq> [] \<and> sep_byte \<notin> set q"
    and "join_sep ps = join_sep qs"
  shows "ps = qs"
  using assms
proof (induction ps arbitrary: qs rule: join_sep.induct)
  case 1
  then show ?case by (cases qs rule: join_sep.cases) auto
next
  case (2 p)
  then show ?case by (cases qs rule: join_sep.cases) auto
next
  case (3 p p' ps)
  show ?case
  proof (cases qs rule: join_sep.cases)
    case (3 q q' qs')
    with "3.prems" have "p = q \<and> join_sep (p' # ps) = join_sep (q' # qs')"
      by (simp add: split_at_unique)
    with "3.IH" [of "q' # qs'"] "3.prems" 3 show ?thesis by simp
  qed (use "3.prems" in auto)
qed

lemma map_of_get_or: "k \<in> fst ` set l \<Longrightarrow> map_of l k = Some (get_or d l k)"
  by (auto simp: get_or_def split: option.splits simp: map_of_eq_None_iff)

lemma sort_keys_eq:
  assumes "wf_map l" "wf_map l'" "map_of l = map_of l'"
  shows "sort (map fst l) = sort (map fst l')"
proof (rule sorted_distinct_set_unique)
  show "set (sort (map fst l)) = set (sort (map fst l'))"
    using arg_cong [OF assms(3), of dom] by (simp add: dom_map_of_conv_image_fst)
qed (use assms in \<open>auto simp: wf_map_def\<close>)

lemma canonical_keys_eq:
  assumes "map (label_text l) ks = map (label_text l') ks'"
  shows "ks = ks' \<and> (\<forall>k \<in> set ks. get_or [] l k = get_or [] l' k)"
  using assms
proof (induction ks arbitrary: ks')
  case (Cons k ks)
  then show ?case by (cases ks') (auto simp: label_text_inj)
qed simp

text \<open>
  C11. The canonical text identifies a label set: two label maps have the same text exactly when
  they hold the same labels, whatever bytes (the separator and the escape byte included) occur in
  their keys and values, and whatever order the map is iterated in.
\<close>

theorem canonicalLabels_identifies:
  assumes "wf_map l" "wf_map l'"
  shows "canonicalLabels l = canonicalLabels l' \<longleftrightarrow> map_of l = map_of l'"
proof
  assume eq: "canonicalLabels l = canonicalLabels l'"
  let ?ks = "sort (map fst l)" and ?ks' = "sort (map fst l')"
  have join: "canonicalLabels m = join_sep (map (label_text m) (sort (map fst m)))" for m
    by (cases m) (simp_all add: canonicalLabels_def)
  have "map (label_text l) ?ks = map (label_text l') ?ks'"
    using eq unfolding join by (rule join_sep_inj [rotated 2]) (auto simp: label_text_piece)
  note both = canonical_keys_eq [OF this]
  have keys: "?ks = ?ks'" using both by (rule conjunct1)
  have vals: "\<forall>k \<in> set ?ks. get_or [] l k = get_or [] l' k" using both by (rule conjunct2)
  have dom: "fst ` set l = fst ` set l'" using arg_cong [OF keys, of set] by simp
  show "map_of l = map_of l'"
  proof
    fix k
    show "map_of l k = map_of l' k"
    proof (cases "k \<in> fst ` set l")
      case True
      with vals have "get_or [] l k = get_or [] l' k" by auto
      moreover from True dom have "k \<in> fst ` set l'" by simp
      ultimately show ?thesis using True by (simp add: map_of_get_or [where d = "[]"])
    next
      case False
      with dom show ?thesis by (simp add: map_of_eq_None_iff [THEN iffD2])
    qed
  qed
next
  assume eq: "map_of l = map_of l'"
  have "label_text l = label_text l'" using eq by (auto simp: label_text_def get_or_def)
  moreover have "l = [] \<longleftrightarrow> l' = []" using eq by (metis map_of_eq_empty_iff)
  ultimately show "canonicalLabels l = canonicalLabels l'"
    using sort_keys_eq [OF assms eq] by (simp add: canonicalLabels_def)
qed

theorem canonicalLabels_identifies_witness:
  "canonicalLabels [(''a'', ''x'' @ [sep_byte] @ ''b=y'')] \<noteq> canonicalLabels [(''a'', ''x''), (''b'', ''y'')]"
  using canonicalLabels_identifies [of "[(''a'', ''x'' @ [sep_byte] @ ''b=y'')]" "[(''a'', ''x''), (''b'', ''y'')]"]
  by (auto simp: fun_eq_iff)

section \<open>Cluster identifiers: printing and parsing\<close>

lemma digit_value_char [simp]: "n < 10 \<Longrightarrow> digit_value (char_of (48 + n)) = Some n"
  by (simp add: digit_value_def Let_def)

lemma parse_digits_append:
  "parse_digits n (s @ t) = (case parse_digits n s of None \<Rightarrow> None | Some m \<Rightarrow> parse_digits m t)"
  by (induction s arbitrary: n) (auto split: option.splits)

lemma format_nat_nonempty [simp]: "format_nat n \<noteq> []"
  by (subst format_nat.simps) simp

lemma parse_format_nat: "n \<le> max_uint64 \<Longrightarrow> parse_digits 0 (format_nat n) = Some n"
proof (induction n rule: format_nat.induct)
  case (1 n)
  show ?case
  proof (cases "n < 10")
    case True
    with "1.prems" show ?thesis by (subst format_nat.simps) simp
  next
    case False
    have "parse_digits 0 (format_nat (n div 10)) = Some (n div 10)"
      using "1.IH" [OF False] "1.prems" by simp
    with False "1.prems" show ?thesis
      by (subst format_nat.simps) (simp add: parse_digits_append)
  qed
qed

lemma unat_le_max_uint64: "unat (w :: 64 word) \<le> max_uint64"
proof -
  have "unat w < 2 ^ LENGTH(64)" by (rule unsigned_less)
  then show ?thesis by (simp add: max_uint64_def)
qed

text \<open>
  A cluster identifier survives its decimal text: every 64-bit identifier is read back from the
  text it is printed as.
\<close>

theorem clusterID_roundtrip: "parseClusterID (clusterID_string c) = Some c"
  by (simp add: parseClusterID_def clusterID_string_def parse_format_nat unat_le_max_uint64)

text \<open>Roles and tiers.\<close>

lemma parsePermTier_string: "0 \<le> t \<Longrightarrow> t \<le> 3 \<Longrightarrow> parsePermTier (permTier_string t) = Some t"
  by (auto simp: parsePermTier_def permTier_string_def tierReadOnly_def tierExplain_def tierSignal_def tierExtension_def)

lemma roles_distinct [simp]:
  "rolePrimary \<noteq> roleStandby" "rolePrimary \<noteq> roleUnknown" "roleStandby \<noteq> roleUnknown"
  "roleStandby \<noteq> rolePrimary" "roleUnknown \<noteq> rolePrimary" "roleUnknown \<noteq> roleStandby"
  "rolePrimary \<noteq> []" "roleStandby \<noteq> []" "roleUnknown \<noteq> []"
  by (simp_all add: rolePrimary_def roleStandby_def roleUnknown_def)

end
