(* ===== verification/Breaker.thy ===== *)
theory Breaker
  imports Prelude
begin

text \<open>
  The circuit breaker of a scheduled entry (\<^verbatim>\<open>internal/agent/breaker.go\<close>). The clock the breaker
  reads is the argument \<open>now\<close> of the operations that read it.
\<close>

section \<open>The breaker\<close>

record breaker =
  failures :: int
  br_state :: int
  openedAt :: time
  backoffAttempts :: int

definition new_breaker :: breaker where
  "new_breaker = \<lparr>failures = 0, br_state = 0, openedAt = 0, backoffAttempts = 0\<rparr>"

text \<open>The doubling loop of \<^verbatim>\<open>calculateBackoff\<close>, on \<^verbatim>\<open>int64\<close> nanoseconds.\<close>

function backoff_loop :: "duration \<Rightarrow> int \<Rightarrow> int \<Rightarrow> duration \<Rightarrow> duration" where
  "backoff_loop mx attempt i backoff =
     (if i < attempt \<and> backoff < mx then backoff_loop mx attempt (i + 1) (wrap64 (backoff * 2))
      else backoff)"
  by pat_completeness auto
termination
  by (relation "measure (\<lambda>(mx, attempt, i, backoff). nat (attempt - i))") auto

declare backoff_loop.simps [simp del]

definition calculate_backoff :: "int \<Rightarrow> duration" where
  "calculate_backoff attempt =
     (let mx = 15 * minute;
          backoff = backoff_loop mx attempt 0 minute
      in if mx < backoff then mx else backoff)"

definition allow :: "breaker \<Rightarrow> time \<Rightarrow> bool" where
  "allow b now =
     (if br_state b = 0 then True
      else calculate_backoff (backoffAttempts b) \<le> time_sub now (openedAt b))"

definition record_success :: "breaker \<Rightarrow> breaker" where
  "record_success b =
     (let b = b\<lparr>failures := 0\<rparr>
      in if br_state b = 1 then b\<lparr>br_state := 0, backoffAttempts := 0\<rparr> else b)"

definition record_failure :: "breaker \<Rightarrow> time \<Rightarrow> breaker" where
  "record_failure b now =
     (let b = b\<lparr>failures := failures b + 1\<rparr>
      in if br_state b = 1 then b\<lparr>openedAt := now, backoffAttempts := backoffAttempts b + 1\<rparr>
         else if 3 \<le> failures b then b\<lparr>br_state := 1, openedAt := now, backoffAttempts := 0\<rparr>
         else b)"

definition is_open :: "breaker \<Rightarrow> bool" where
  "is_open b \<longleftrightarrow> br_state b = 1"

section \<open>The backoff ladder\<close>

lemma wrap64_double: "0 \<le> d \<Longrightarrow> d < 15 * minute \<Longrightarrow> wrap64 (d * 2) = d * 2"
  by (intro wrap64_id) (simp_all add: go_units min_duration_def max_duration_def)

text \<open>After \<open>k\<close> more rounds the loop has doubled \<open>k\<close> times or passed the cap.\<close>

lemma backoff_loop_min:
  assumes "0 < d" and "d < 2 * (15 * minute)"
  shows "min (15 * minute) (backoff_loop (15 * minute) (i + int k) i d) = min (15 * minute) (d * 2 ^ k)"
  using assms
proof (induction k arbitrary: i d)
  case 0
  show ?case by (simp add: backoff_loop.simps)
next
  case (Suc k)
  show ?case
  proof (cases "d < 15 * minute")
    case True
    have "i + int (Suc k) = (i + 1) + int k" by simp
    with True Suc.prems
    have "backoff_loop (15 * minute) (i + int (Suc k)) i d = backoff_loop (15 * minute) ((i + 1) + int k) (i + 1) (d * 2)"
      by (subst backoff_loop.simps) (simp add: wrap64_double add.assoc)
    with Suc.IH [of "d * 2" "i + 1"] True Suc.prems show ?thesis by (simp add: mult.assoc)
  next
    case False
    have "(1 :: int) \<le> 2 ^ Suc k" by (rule one_le_power) simp
    then have "d * 1 \<le> d * 2 ^ Suc k" using Suc.prems by (intro mult_left_mono) auto
    with False show ?thesis by (simp add: backoff_loop.simps)
  qed
qed

lemma calculate_backoff_ladder: "calculate_backoff (int n) = min (15 * minute) (minute * 2 ^ n)"
proof -
  have "min (15 * minute) (backoff_loop (15 * minute) (0 + int n) 0 minute) = min (15 * minute) (minute * 2 ^ n)"
    by (rule backoff_loop_min) (simp_all add: go_units)
  moreover have "calculate_backoff (int n) = min (15 * minute) (backoff_loop (15 * minute) (int n) 0 minute)"
    by (auto simp: calculate_backoff_def Let_def)
  ultimately show ?thesis by simp
qed

section \<open>The breaker is the list of failures since the last success\<close>

datatype breaker_event = Scrape_ok | Scrape_failed time

fun breaker_step :: "breaker \<Rightarrow> breaker_event \<Rightarrow> breaker" where
  "breaker_step b Scrape_ok = record_success b"
| "breaker_step b (Scrape_failed now) = record_failure b now"

text \<open>The specification: the times of the failures since the last success, newest first.\<close>

fun failures_step :: "time list \<Rightarrow> breaker_event \<Rightarrow> time list" where
  "failures_step fs Scrape_ok = []"
| "failures_step fs (Scrape_failed now) = now # fs"

definition breaker_rel :: "time list \<Rightarrow> breaker \<Rightarrow> bool" where
  "breaker_rel fs b \<longleftrightarrow>
     failures b = int (length fs) \<and>
     (if length fs < 3 then br_state b = 0 \<and> backoffAttempts b = 0
      else br_state b = 1 \<and> openedAt b = hd fs \<and> backoffAttempts b = int (length fs - 3))"

lemma breaker_step_rel: "breaker_rel fs b \<Longrightarrow> breaker_rel (failures_step fs e) (breaker_step b e)"
  by (cases e) (auto simp: breaker_rel_def record_success_def record_failure_def Let_def split: if_splits)

lemma breaker_run_rel: "breaker_rel fs b \<Longrightarrow> breaker_rel (foldl failures_step fs es) (foldl breaker_step b es)"
  by (induction es arbitrary: fs b) (auto intro: breaker_step_rel)

lemma breaker_rel_new: "breaker_rel [] new_breaker"
  by (simp add: breaker_rel_def new_breaker_def)

text \<open>
  C10. Whatever scrapes an entry has seen, the breaker lets the next one run exactly when fewer
  than three scrapes failed since the last success, or when the newest of \<open>n \<ge> 3\<close> such failures is
  at least \<open>min 15m (1m * 2^(n-3))\<close> old: three failures open it, each failed trial doubles the wait
  up to the cap, for any number of failures, and one success closes it.
\<close>

theorem breaker_throttles:
  "allow (foldl breaker_step new_breaker es) now \<longleftrightarrow>
     (let fs = foldl failures_step [] es
      in length fs < 3 \<or> min (15 * minute) (minute * 2 ^ (length fs - 3)) \<le> time_sub now (hd fs))"
proof -
  let ?fs = "foldl failures_step [] es" and ?b = "foldl breaker_step new_breaker es"
  have rel: "breaker_rel ?fs ?b" by (rule breaker_run_rel) (rule breaker_rel_new)
  show ?thesis
  proof (cases "length ?fs < 3")
    case True
    with rel show ?thesis by (simp add: breaker_rel_def allow_def Let_def)
  next
    case False
    with rel have "br_state ?b = 1" "openedAt ?b = hd ?fs" "backoffAttempts ?b = int (length ?fs - 3)"
      by (simp_all add: breaker_rel_def del: of_nat_diff)
    with False show ?thesis by (simp add: allow_def Let_def calculate_backoff_ladder del: of_nat_diff)
  qed
qed

end
