(* ===== verification/Delta.thy ===== *)
theory Delta
  imports Pgtype
begin

text \<open>
  The delta engine (\<^verbatim>\<open>internal/delta/engine.go\<close>): cumulative counters become rates, with the
  baselines of one envelope staged in a batch until its transaction commits.

  A pointer to a time (\<^verbatim>\<open>statsReset\<close>) is an address and the time it points to: \<open>Commit\<close> compares
  two states with \<open>\<noteq>\<close>, which compares the addresses. \<open>alloc\<close> is the next free address.
\<close>

section \<open>The engine\<close>

type_synonym time_ptr = "(nat \<times> time) option"

record observation =
  o_key :: seriesKey
  o_ts :: time
  o_value :: f64
  o_statsReset :: "time option"

record point =
  p_key :: seriesKey
  p_ts :: time
  p_rate :: f64
  p_seconds :: real

datatype resetReason = ResetStatsChanged | ResetCounterWentBackwards

record resetEvent =
  r_key :: seriesKey
  r_ts :: time
  r_reason :: resetReason

record base_state =
  st_ts :: time
  st_value :: f64
  st_statsReset :: time_ptr

type_synonym baselines = "(seriesKey, base_state) gomap"

record delta_engine =
  prev :: baselines
  maxGap :: duration
  alloc :: nat

definition new_delta_engine :: "duration \<Rightarrow> delta_engine" where
  "new_delta_engine gap = \<lparr>prev = [], maxGap = (if gap = 0 then 10 * minute else gap), alloc = 0\<rparr>"

fun copyStatsReset :: "nat \<Rightarrow> time option \<Rightarrow> nat \<times> time_ptr" where
  "copyStatsReset al None = (al, None)"
| "copyStatsReset al (Some t) = (Suc al, Some (al, t))"

text \<open>\<^verbatim>\<open>baselines[o.Key] = state{...}\<close>: the observation becomes the baseline.\<close>

definition rebase :: "nat \<Rightarrow> baselines \<Rightarrow> observation \<Rightarrow> nat \<times> baselines" where
  "rebase al bl ob =
     (case copyStatsReset al (o_statsReset ob) of (al', cp) \<Rightarrow>
        (al', AList.update (o_key ob) \<lparr>st_ts = o_ts ob, st_value = o_value ob, st_statsReset = cp\<rparr> bl))"

definition stats_changed :: "observation \<Rightarrow> base_state \<Rightarrow> bool" where
  "stats_changed ob p =
     (case (o_statsReset ob, st_statsReset p) of
        (Some t, Some (_, u)) \<Rightarrow> t \<noteq> u
      | _ \<Rightarrow> False)"

definition seconds_of :: "duration \<Rightarrow> real" where
  "seconds_of d = real_of_int d / 1000000000"

type_synonym outcome = "point option \<times> resetEvent option"

definition observe :: "nat \<Rightarrow> baselines \<Rightarrow> duration \<Rightarrow> observation \<Rightarrow> nat \<times> baselines \<times> outcome" where
  "observe al bl gap ob =
     (let moved = (\<lambda>out. case rebase al bl ob of (al', bl') \<Rightarrow> (al', bl', out)) in
      case map_of bl (o_key ob) of
        None \<Rightarrow> moved (None, None)
      | Some p \<Rightarrow>
          if \<not> st_ts p < o_ts ob then
            (if gap < time_sub (st_ts p) (o_ts ob) then moved (None, None) else (al, bl, None, None))
          else if stats_changed ob p then
            moved (None, Some \<lparr>r_key = o_key ob, r_ts = o_ts ob, r_reason = ResetStatsChanged\<rparr>)
          else if f_lt (o_value ob) (st_value p) then
            moved (None, Some \<lparr>r_key = o_key ob, r_ts = o_ts ob, r_reason = ResetCounterWentBackwards\<rparr>)
          else if gap < time_sub (o_ts ob) (st_ts p) then moved (None, None)
          else
            (let dt = seconds_of (time_sub (o_ts ob) (st_ts p));
                 rate = f_div_pos (f_sub (o_value ob) (st_value p)) dt
             in moved (Some \<lparr>p_key = o_key ob, p_ts = o_ts ob, p_rate = rate, p_seconds = dt\<rparr>, None)))"

definition engine_observe :: "delta_engine \<Rightarrow> observation \<Rightarrow> delta_engine \<times> outcome" where
  "engine_observe e ob =
     (case observe (alloc e) (prev e) (maxGap e) ob of (al, bl, out) \<Rightarrow> (e\<lparr>prev := bl, alloc := al\<rparr>, out))"

section \<open>Batches\<close>

text \<open>\<^verbatim>\<open>readBaseline\<close> is the state with its \<^verbatim>\<open>ok\<close>: an option.\<close>

record batch =
  staged :: baselines
  read_base :: "(seriesKey, base_state option) gomap"

definition begin_batch :: batch where
  "begin_batch = \<lparr>staged = [], read_base = []\<rparr>"

definition batch_read :: "delta_engine \<Rightarrow> batch \<Rightarrow> seriesKey \<Rightarrow> batch" where
  "batch_read e b k =
     (if map_of (read_base b) k \<noteq> None then b
      else
        (let s = map_of (prev e) k;
             b' = b\<lparr>read_base := AList.update k s (read_base b)\<rparr>
         in case s of None \<Rightarrow> b' | Some st \<Rightarrow> b'\<lparr>staged := AList.update k st (staged b')\<rparr>))"

definition batch_observe :: "delta_engine \<Rightarrow> batch \<Rightarrow> observation \<Rightarrow> delta_engine \<times> batch \<times> outcome" where
  "batch_observe e b ob =
     (let b' = batch_read e b (o_key ob) in
      case observe (alloc e) (staged b') (maxGap e) ob of (al, bl, out) \<Rightarrow>
        (e\<lparr>alloc := al\<rparr>, b'\<lparr>staged := bl\<rparr>, out))"

text \<open>The zero \<^verbatim>\<open>readBaseline\<close> of a key that was never read has \<^verbatim>\<open>ok\<close> false.\<close>

definition commit_key :: "batch \<Rightarrow> baselines \<Rightarrow> seriesKey \<times> base_state \<Rightarrow> baselines" where
  "commit_key b bl = (\<lambda>(k, s).
     case map_of bl k of
       None \<Rightarrow> AList.update k s bl
     | Some cur \<Rightarrow>
         if \<not> st_ts cur < st_ts s \<and>
            (case get_or None (read_base b) k of None \<Rightarrow> True | Some r \<Rightarrow> r \<noteq> cur)
         then bl
         else AList.update k s bl)"

definition commit :: "delta_engine \<Rightarrow> batch \<Rightarrow> delta_engine" where
  "commit e b = e\<lparr>prev := foldl (commit_key b) (prev e) (staged b)\<rparr>"

definition evict :: "delta_engine \<Rightarrow> time \<Rightarrow> delta_engine \<times> nat" where
  "evict e before =
     (e\<lparr>prev := filter (\<lambda>(k, s). \<not> st_ts s < before) (prev e)\<rparr>,
      length (filter (\<lambda>(k, s). st_ts s < before) (prev e)))"

section \<open>One observation\<close>

text \<open>
  The rules on the baseline of one key: the new baseline when the observation becomes it.
  \<open>observe\<close> reads and writes nothing else.
\<close>

definition observe1 :: "nat \<Rightarrow> base_state option \<Rightarrow> duration \<Rightarrow> observation \<Rightarrow> nat \<times> base_state option \<times> outcome" where
  "observe1 al cur gap ob =
     (case observe al (case cur of None \<Rightarrow> [] | Some s \<Rightarrow> [(o_key ob, s)]) gap ob of
        (al', bl, out) \<Rightarrow> (al', map_of bl (o_key ob), out))"

lemma observe_frame:
  "observe al bl gap ob = (al', bl', out) \<Longrightarrow> k \<noteq> o_key ob \<Longrightarrow> map_of bl' k = map_of bl k"
  by (auto simp: observe_def rebase_def Let_def gomap split: option.splits prod.splits if_splits)

lemma observe_wf: "observe al bl gap ob = (al', bl', out) \<Longrightarrow> wf_map bl \<Longrightarrow> wf_map bl'"
  by (auto simp: observe_def rebase_def Let_def gomap split: option.splits prod.splits if_splits)

lemma observe_present: "observe al bl gap ob = (al', bl', out) \<Longrightarrow> map_of bl' (o_key ob) \<noteq> None"
  by (auto simp: observe_def rebase_def Let_def gomap split: option.splits prod.splits if_splits)

lemma observe_local:
  "observe al bl gap ob = (al', bl', out) \<Longrightarrow>
   observe1 al (map_of bl (o_key ob)) gap ob = (al', map_of bl' (o_key ob), out)"
  by (auto simp: observe1_def observe_def rebase_def Let_def gomap split: option.splits prod.splits if_splits)

lemma time_sub_pos: "u < t \<Longrightarrow> 0 < time_sub t u"
  by (simp add: time_sub_def min_duration_def max_duration_def)

lemma observe_pointE:
  assumes "observe al bl gap ob = (al', bl', Some pt, r)"
  obtains p s where "map_of bl (o_key ob) = Some p" "st_ts p < o_ts ob" "\<not> f_lt (o_value ob) (st_value p)"
    "time_sub (o_ts ob) (st_ts p) \<le> gap" "p_key pt = o_key ob" "r = None"
    "p_seconds pt = seconds_of (time_sub (o_ts ob) (st_ts p))"
    "p_rate pt = f_div_pos (f_sub (o_value ob) (st_value p)) (p_seconds pt)"
    "map_of bl' (o_key ob) = Some s" "st_value s = o_value ob"
  using assms
  by (fastforce simp: observe_def rebase_def Let_def gomap split: option.splits prod.splits if_splits)

text \<open>
  C15. A rate never comes out of a counter reset, a clock step or an outage: whatever the baselines
  hold, a point the engine emits has a rate that is not negative, over an interval that is longer
  than zero and at most the configured gap.
\<close>

theorem observe_rate_bounds:
  assumes "engine_observe e ob = (e', Some pt, r)"
  shows "\<not> f_lt (p_rate pt) (Fin 0) \<and> 0 < p_seconds pt \<and> p_seconds pt \<le> seconds_of (maxGap e) \<and> r = None"
proof -
  obtain al bl where ob: "observe (alloc e) (prev e) (maxGap e) ob = (al, bl, Some pt, r)"
    using assms by (auto simp: engine_observe_def split: prod.splits)
  obtain p :: base_state where p: "st_ts p < o_ts ob" "\<not> f_lt (o_value ob) (st_value p)"
    "time_sub (o_ts ob) (st_ts p) \<le> maxGap e" "p_seconds pt = seconds_of (time_sub (o_ts ob) (st_ts p))"
    "p_rate pt = f_div_pos (f_sub (o_value ob) (st_value p)) (p_seconds pt)" "r = None"
    by (rule observe_pointE [OF ob]) rule
  have pos: "0 < p_seconds pt" unfolding p(4) using time_sub_pos [OF p(1)] by (simp add: seconds_of_def)
  moreover have "p_seconds pt \<le> seconds_of (maxGap e)" using p(3,4) by (simp add: seconds_of_def divide_right_mono)
  moreover have "\<not> f_lt (p_rate pt) (Fin 0)"
    using p(2,5) pos by (cases "o_value ob"; cases "st_value p") (auto simp: divide_less_0_iff)
  ultimately show ?thesis using p(6) by simp
qed

definition sample_key :: seriesKey where
  "sample_key = \<lparr>sk_metric = ''m'', sk_instance = ''i'', sk_database = ''d'', sk_labels = []\<rparr>"

definition sample_engine :: delta_engine where
  "sample_engine = \<lparr>prev = [(sample_key, \<lparr>st_ts = 0, st_value = Fin 5, st_statsReset = None\<rparr>)],
     maxGap = 600000000000, alloc = 0\<rparr>"

definition sample_obs :: observation where
  "sample_obs = \<lparr>o_key = sample_key, o_ts = 5000000000, o_value = Fin 15, o_statsReset = None\<rparr>"

lemma sample_observe:
  "engine_observe sample_engine sample_obs =
     (\<lparr>prev = [(sample_key, \<lparr>st_ts = 5000000000, st_value = Fin 15, st_statsReset = None\<rparr>)],
       maxGap = 600000000000, alloc = 0\<rparr>,
      Some \<lparr>p_key = sample_key, p_ts = 5000000000, p_rate = Fin 2, p_seconds = 5\<rparr>, None)"
  by (simp add: engine_observe_def observe_def rebase_def stats_changed_def time_sub_def seconds_of_def
      min_duration_def max_duration_def sample_engine_def sample_obs_def)

lemma observe_rate_bounds_witness:
  "\<not> f_lt (Fin 2) (Fin 0) \<and> (0 :: real) < 5 \<and> 5 \<le> seconds_of (maxGap sample_engine)"
  using observe_rate_bounds [OF sample_observe] by simp

section \<open>A series of observations\<close>

fun engine_run :: "delta_engine \<Rightarrow> observation list \<Rightarrow> delta_engine \<times> outcome list" where
  "engine_run e [] = (e, [])"
| "engine_run e (ob # obs) =
     (case engine_observe e ob of (e', out) \<Rightarrow>
      case engine_run e' obs of (e'', outs) \<Rightarrow> (e'', out # outs))"

fun batch_run :: "delta_engine \<Rightarrow> batch \<Rightarrow> observation list \<Rightarrow> delta_engine \<times> batch \<times> outcome list" where
  "batch_run e b [] = (e, b, [])"
| "batch_run e b (ob # obs) =
     (case batch_observe e b ob of (e', b', out) \<Rightarrow>
      case batch_run e' b' obs of (e'', b'', outs) \<Rightarrow> (e'', b'', out # outs))"

text \<open>The increase a point stands for: its rate over its interval.\<close>

fun increase :: "seriesKey \<Rightarrow> outcome \<Rightarrow> real" where
  "increase k (Some pt, _) = (case p_rate pt of Fin r \<Rightarrow> if p_key pt = k then r * p_seconds pt else 0 | _ \<Rightarrow> 0)"
| "increase k (None, _) = 0"

definition all_points :: "seriesKey \<Rightarrow> observation list \<Rightarrow> outcome list \<Rightarrow> bool" where
  "all_points k obs outs = list_all2 (\<lambda>ob out. o_key ob = k \<longrightarrow> fst out \<noteq> None) obs outs"

definition finite_value :: "f64 \<Rightarrow> bool" where
  "finite_value x = (case x of Fin _ \<Rightarrow> True | _ \<Rightarrow> False)"

lemma engine_observe_step:
  assumes "engine_observe e ob = (e', out)" and "map_of (prev e) k = Some s" and "st_value s = Fin v"
    and "o_key ob = k \<longrightarrow> fst out \<noteq> None \<and> finite_value (o_value ob)"
  shows "\<exists>s' v'. map_of (prev e') k = Some s' \<and> st_value s' = Fin v' \<and> increase k out = v' - v"
proof -
  obtain al bl where ob: "observe (alloc e) (prev e) (maxGap e) ob = (al, bl, out)" and e': "prev e' = bl"
    using assms(1) by (auto simp: engine_observe_def split: prod.splits)
  show ?thesis
  proof (cases "o_key ob = k")
    case True
    with assms(4) obtain pt r v' where out: "out = (Some pt, r)" and v': "o_value ob = Fin v'"
      by (cases out; cases "o_value ob") (auto simp: finite_value_def)
    obtain p s' where p: "map_of (prev e) k = Some p" "st_ts p < o_ts ob"
      "p_key pt = k" "p_seconds pt = seconds_of (time_sub (o_ts ob) (st_ts p))"
      "p_rate pt = f_div_pos (f_sub (o_value ob) (st_value p)) (p_seconds pt)"
      "map_of bl k = Some s'" "st_value s' = o_value ob"
      by (rule observe_pointE [OF ob [unfolded out]]) (use True in simp)
    have "p_seconds pt \<noteq> 0" using p(2,4) time_sub_pos [of "st_ts p" "o_ts ob"] by (simp add: seconds_of_def)
    with p assms(2,3) out v' e' show ?thesis by auto
  next
    case False
    with observe_frame [OF ob, of k] have "map_of bl k = Some s" using assms(2) by simp
    moreover have "increase k out = 0"
    proof (cases "fst out")
      case (Some pt)
      with ob have "observe (alloc e) (prev e) (maxGap e) ob = (al, bl, Some pt, snd out)" by (cases out) simp
      then have "p_key pt = o_key ob" by (rule observe_pointE)
      with Some False show ?thesis by (cases out) (auto split: f64.splits)
    qed (cases out, auto)
    ultimately show ?thesis using assms(3) e' by auto
  qed
qed



section \<open>Batches against the engine\<close>

text \<open>
  While no other envelope touches the engine, a batch and the engine that observes directly agree:
  the batch reads every key once and stages it.
\<close>

definition batch_rel :: "delta_engine \<Rightarrow> batch \<Rightarrow> delta_engine \<Rightarrow> bool" where
  "batch_rel e b d \<longleftrightarrow>
     alloc e = alloc d \<and> maxGap e = maxGap d \<and> wf_map (staged b) \<and>
     (\<forall>k. case map_of (read_base b) k of
        None \<Rightarrow> map_of (staged b) k = None \<and> map_of (prev d) k = map_of (prev e) k
      | Some r \<Rightarrow> r = map_of (prev e) k \<and> map_of (staged b) k \<noteq> None \<and> map_of (prev d) k = map_of (staged b) k)"

lemma batch_observe_rel:
  assumes rel: "batch_rel e b d" and b: "batch_observe e b ob = (e', b', out)"
    and d: "engine_observe d ob = (d', out')"
  shows "out = out' \<and> batch_rel e' b' d' \<and> prev e' = prev e"
proof -
  let ?k = "o_key ob" and ?b = "batch_read e b (o_key ob)"
  obtain al bl where ob: "observe (alloc e) (staged ?b) (maxGap e) ob = (al, bl, out)"
    and e': "e' = e\<lparr>alloc := al\<rparr>" and b': "b' = ?b\<lparr>staged := bl\<rparr>"
    using b by (auto simp: batch_observe_def Let_def split: prod.splits)
  obtain al' bl' where od: "observe (alloc d) (prev d) (maxGap d) ob = (al', bl', out')"
    and d': "d' = d\<lparr>prev := bl', alloc := al'\<rparr>"
    using d by (auto simp: engine_observe_def split: prod.splits)
  have relk: "case map_of (read_base b) k of
        None \<Rightarrow> map_of (staged b) k = None \<and> map_of (prev d) k = map_of (prev e) k
      | Some r \<Rightarrow> r = map_of (prev e) k \<and> map_of (staged b) k \<noteq> None \<and> map_of (prev d) k = map_of (staged b) k" for k
    using rel by (simp add: batch_rel_def)
  have read: "map_of (read_base ?b) k = (if k = ?k then Some (map_of (prev e) ?k) else map_of (read_base b) k)" for k
    using relk [of ?k] by (auto simp: batch_read_def Let_def gomap split: option.splits)
  have stage: "map_of (staged ?b) k = (if k = ?k then map_of (prev d) ?k else map_of (staged b) k)" for k
    using relk [of ?k] by (auto simp: batch_read_def Let_def gomap split: option.splits)
  have "wf_map (staged ?b)"
    using rel by (auto simp: batch_rel_def batch_read_def Let_def gomap split: option.splits)
  then have wf: "wf_map bl" using observe_wf [OF ob] by blast
  have same: "(al, map_of bl ?k, out) = (al', map_of bl' ?k, out')"
    using observe_local [OF ob] observe_local [OF od] rel stage [of ?k] by (simp add: batch_rel_def)
  moreover have "batch_rel e' b' d'"
    unfolding batch_rel_def
  proof (intro conjI allI)
    show "alloc e' = alloc d'" "maxGap e' = maxGap d'" "wf_map (staged b')"
      using same rel wf by (simp_all add: e' d' b' batch_rel_def)
  next
    fix k
    have "map_of (prev d') k = (if k = ?k then map_of bl ?k else map_of (prev d) k)"
      using same observe_frame [OF od, of k] by (simp add: d')
    moreover have "map_of (staged b') k = (if k = ?k then map_of bl ?k else map_of (staged b) k)"
      using observe_frame [OF ob, of k] stage [of k] by (simp add: b')
    moreover have "map_of (read_base b') k = (if k = ?k then Some (map_of (prev e) ?k) else map_of (read_base b) k)"
      using read by (simp add: b')
    moreover obtain y where "map_of bl ?k = Some y" using observe_present [OF ob] by auto
    ultimately show "case map_of (read_base b') k of
        None \<Rightarrow> map_of (staged b') k = None \<and> map_of (prev d') k = map_of (prev e') k
      | Some r \<Rightarrow> r = map_of (prev e') k \<and> map_of (staged b') k \<noteq> None \<and> map_of (prev d') k = map_of (staged b') k"
      using relk [of k] by (cases "k = ?k") (simp_all add: e' split: option.splits)
  qed
  ultimately show ?thesis by (simp add: e')
qed

lemma batch_run_rel:
  assumes "batch_rel e b d" and "batch_run e b obs = (e', b', outs)" and "engine_run d obs = (d', outs')"
  shows "outs = outs' \<and> batch_rel e' b' d' \<and> prev e' = prev e"
  using assms
proof (induction obs arbitrary: e b d outs outs')
  case (Cons ob obs)
  obtain e1 b1 out os where b: "batch_observe e b ob = (e1, b1, out)" "batch_run e1 b1 obs = (e', b', os)" "outs = out # os"
    using Cons.prems(2) by (auto split: prod.splits)
  obtain d1 out' os' where d: "engine_observe d ob = (d1, out')" "engine_run d1 obs = (d', os')" "outs' = out' # os'"
    using Cons.prems(3) by (auto split: prod.splits)
  from batch_observe_rel [OF Cons.prems(1) b(1) d(1)] Cons.IH [OF _ b(2) d(2)]
  show ?case using b(3) d(3) by auto
qed simp

lemma batch_rel_begin: "batch_rel e begin_batch e"
  by (simp add: batch_rel_def begin_batch_def)

section \<open>Commit\<close>

lemma commit_key_other: "k \<noteq> fst x \<Longrightarrow> map_of (commit_key b bl x) k = map_of bl k"
  by (auto simp: commit_key_def gomap split: prod.splits option.splits)

lemma commit_fold_other: "k \<notin> fst ` set xs \<Longrightarrow> map_of (foldl (commit_key b) bl xs) k = map_of bl k"
  by (induction xs arbitrary: bl) (auto simp: commit_key_other)

text \<open>What the commit leaves for one key, from what the engine holds and what the batch staged.\<close>

definition committed :: "batch \<Rightarrow> seriesKey \<Rightarrow> base_state option \<Rightarrow> base_state \<Rightarrow> base_state" where
  "committed b k cur s =
     (case cur of
        None \<Rightarrow> s
      | Some c \<Rightarrow> if \<not> st_ts c < st_ts s \<and> get_or None (read_base b) k \<noteq> Some c then c else s)"

lemma commit_key_same: "map_of (commit_key b bl (k, s)) k = Some (committed b k (map_of bl k) s)"
  by (auto simp: commit_key_def committed_def gomap split: option.splits)

lemma commit_fold:
  "wf_map xs \<Longrightarrow> map_of (foldl (commit_key b) bl xs) k =
     (case map_of xs k of None \<Rightarrow> map_of bl k | Some s \<Rightarrow> Some (committed b k (map_of bl k) s))"
proof (induction xs arbitrary: bl)
  case (Cons x xs)
  obtain k' s where x: "x = (k', s)" by (cases x)
  show ?case
  proof (cases "k' = k")
    case True
    with Cons.prems x have "k \<notin> fst ` set xs" by (simp add: map_of_eq_None_iff)
    with True x show ?thesis by (simp add: commit_fold_other commit_key_same)
  next
    case False
    then have "map_of (commit_key b bl x) k = map_of bl k" using x by (intro commit_key_other) auto
    with False Cons x show ?thesis by (simp split: option.split)
  qed
qed simp

lemma commit_lookup:
  "wf_map (staged b) \<Longrightarrow> map_of (prev (commit e b)) k =
     (case map_of (staged b) k of None \<Rightarrow> map_of (prev e) k
      | Some s \<Rightarrow> Some (committed b k (map_of (prev e) k) s))"
  by (simp add: commit_def commit_fold)


text \<open>
  C13. A late commit never steps a baseline back over another envelope: whatever the engine holds by
  then, a key whose baseline the commit replaces either had none, moves forward in time, or still
  held exactly the state this batch had read.
\<close>

theorem commit_never_steps_back:
  assumes "wf_map (staged b)" and "map_of (prev e) k = Some old"
    and "map_of (prev (commit e b)) k \<noteq> Some old"
  shows "map_of (prev (commit e b)) k = map_of (staged b) k \<and>
    (st_ts old < st_ts (the (map_of (staged b) k)) \<or> get_or None (read_base b) k = Some old)"
  using assms by (auto simp: commit_lookup committed_def split: option.splits if_splits)

lemma commit_never_steps_back_witness:
  "let s = \<lparr>st_ts = 9, st_value = Fin 15, st_statsReset = None\<rparr>;
       b = \<lparr>staged = [(sample_key, s)], read_base = []\<rparr>
   in map_of (prev (commit sample_engine b)) sample_key = Some s"
  using commit_never_steps_back [of "\<lparr>staged = [(sample_key, \<lparr>st_ts = 9, st_value = Fin 15, st_statsReset = None\<rparr>)],
      read_base = []\<rparr>" sample_engine sample_key "\<lparr>st_ts = 0, st_value = Fin 5, st_statsReset = None\<rparr>"]
  by (simp add: sample_engine_def commit_def commit_key_def get_or_def)

text \<open>Eviction keeps exactly the series observed at or after the cutoff, and counts the rest.\<close>

lemma evict_exact:
  assumes "wf_map (prev e)" and "evict e before = (e', n)"
  shows "map_of (prev e') k = (case map_of (prev e) k of None \<Rightarrow> None | Some s \<Rightarrow> if st_ts s < before then None else Some s)"
    and "length (prev e) = length (prev e') + n"
proof -
  show "map_of (prev e') k = (case map_of (prev e) k of None \<Rightarrow> None | Some s \<Rightarrow> if st_ts s < before then None else Some s)"
    using assms by (auto simp: evict_def map_of_filter_wf split: option.splits)
  have "length (prev e) = length (filter P (prev e)) + length (filter (\<lambda>x. \<not> P x) (prev e))" for P
    by (rule sum_length_filter_compl [symmetric])
  from this [of "\<lambda>(k, s). \<not> st_ts s < before"] show "length (prev e) = length (prev e') + n"
    using assms(2) by (auto simp: evict_def case_prod_unfold)
qed

end
