(* ===== verification/Card_Limits.thy ===== *)
theory Card_Limits
  imports Prelude
begin

text \<open>
  The cardinality limits (\<^verbatim>\<open>internal/cardinality\<close>): the \<^verbatim>\<open>Selector\<close> that picks the series of a cycle
  and the \<^verbatim>\<open>Budget\<close> of a push. Go's \<^verbatim>\<open>int\<close> is an \<open>int\<close>, \<^verbatim>\<open>uint64\<close> a \<open>64 word\<close>, and a slice expression
  with a negative bound panics: \<open>None\<close>.
\<close>

section \<open>The selector\<close>

record candidate =
  c_key :: string
  primary :: f64
  secondary :: f64

record sel_options =
  topN :: int
  hysteresis :: int
  maxKeys :: int

definition sel_defaults :: "sel_options \<Rightarrow> sel_options" where
  "sel_defaults op =
     (let op1 = (if topN op = 0 then op\<lparr>topN := 50\<rparr> else op);
          op2 = (if hysteresis op1 = 0 then op1\<lparr>hysteresis := 5\<rparr> else op1)
      in if maxKeys op2 = 0 then op2\<lparr>maxKeys := max 200 (wrap64 (2 * topN op2))\<rparr> else op2)"

record selector =
  opts :: sel_options
  lastSeen :: "(string, 64 word) gomap"

definition new_selector :: "sel_options \<Rightarrow> selector" where
  "new_selector op = \<lparr>opts = sel_defaults op, lastSeen = []\<rparr>"

text \<open>The comparison of \<^verbatim>\<open>sortByRank\<close>, for either ranking metric.\<close>

definition rank_lt :: "(candidate \<Rightarrow> f64) \<Rightarrow> candidate \<Rightarrow> candidate \<Rightarrow> bool" where
  "rank_lt f a b = (if \<not> f_eq (f a) (f b) then f_lt (f b) (f a) else c_key a < c_key b)"

definition sortByRank :: "candidate list \<Rightarrow> candidate list" where
  "sortByRank cs = sort_slice (rank_lt primary) cs"

definition zero_candidate :: candidate where
  "zero_candidate = \<lparr>c_key = [], primary = Fin 0, secondary = Fin 0\<rparr>"

definition by_key :: "candidate list \<Rightarrow> (string, candidate) gomap" where
  "by_key cs = foldl (\<lambda>m c. AList.update (c_key c) c m) [] cs"

definition mark_top :: "int \<Rightarrow> (candidate \<Rightarrow> f64) \<Rightarrow> candidate list \<Rightarrow> (string, bool) gomap \<Rightarrow> (string, bool) gomap" where
  "mark_top n f cs m = foldl (\<lambda>m c. AList.update (c_key c) True m) m (take (nat n) (sort_slice (rank_lt f) cs))"

definition fresh_set :: "sel_options \<Rightarrow> candidate list \<Rightarrow> (string, bool) gomap" where
  "fresh_set op cs = mark_top (topN op) secondary cs (mark_top (topN op) primary cs [])"

definition threshold :: "sel_options \<Rightarrow> 64 word \<Rightarrow> 64 word" where
  "threshold op cycle =
     (if word_of_int (hysteresis op) < cycle then cycle - word_of_int (hysteresis op) else 0)"

definition retained_set :: "selector \<Rightarrow> 64 word \<Rightarrow> (string, bool) gomap \<Rightarrow> candidate list \<Rightarrow> (string, bool) gomap" where
  "retained_set s cycle fresh cs =
     foldl (\<lambda>m c. AList.update (c_key c) True m) []
       (filter (\<lambda>c. \<not> get_or False fresh (c_key c) \<and>
          (case map_of (lastSeen s) (c_key c) of None \<Rightarrow> False | Some seen \<Rightarrow> threshold (opts s) cycle \<le> seen)) cs)"

definition listed :: "(string, candidate) gomap \<Rightarrow> (string, bool) gomap \<Rightarrow> candidate list" where
  "listed byKey m = map (\<lambda>(k, _). get_or zero_candidate byKey k) m"

text \<open>Step 4: the cut of the two ranked lists to \<^verbatim>\<open>MaxKeys\<close>.\<close>

definition cut :: "int \<Rightarrow> candidate list \<Rightarrow> candidate list \<Rightarrow> (candidate list \<times> candidate list \<times> bool) option" where
  "cut cap fresh retained =
     (if cap < int (length fresh) + int (length retained) then
        (if cap < int (length fresh) then
           (if cap < 0 then None else Some (take (nat cap) fresh, [], True))
         else Some (fresh, take (nat (cap - int (length fresh))) retained, True))
      else Some (fresh, retained, False))"

definition select :: "selector \<Rightarrow> 64 word \<Rightarrow> candidate list \<Rightarrow> (selector \<times> candidate list \<times> bool) option" where
  "select s cycle cs =
     (if cs = [] then Some (s, [], False)
      else
        (let byKey = by_key cs;
             freshSet = fresh_set (opts s) cs;
             retainedSet = retained_set s cycle freshSet cs
         in case cut (maxKeys (opts s)) (sortByRank (listed byKey freshSet)) (sortByRank (listed byKey retainedSet)) of
              None \<Rightarrow> None
            | Some (freshList, retainedList, truncated) \<Rightarrow>
                Some (s\<lparr>lastSeen := foldl (\<lambda>m x. AList.update (fst x) cycle m) (lastSeen s) freshSet\<rparr>,
                      sortByRank (freshList @ retainedList), truncated)))"

definition forget :: "selector \<Rightarrow> 64 word \<Rightarrow> selector \<times> nat" where
  "forget s cycle =
     (if word_of_int (hysteresis (opts s)) < cycle then
        (let t = cycle - word_of_int (hysteresis (opts s)) in
         (s\<lparr>lastSeen := filter (\<lambda>(k, seen). \<not> seen < t) (lastSeen s)\<rparr>,
          length (filter (\<lambda>(k, seen). seen < t) (lastSeen s))))
      else (s, 0))"

section \<open>The budget\<close>

record budget =
  budget_max :: int

definition new_budget :: "int \<Rightarrow> budget" where
  "new_budget n = \<lparr>budget_max = (if n = 0 then 20000 else n)\<rparr>"

definition admit :: "budget \<Rightarrow> int \<Rightarrow> int \<Rightarrow> int \<times> bool" where
  "admit b used n =
     (if n = 0 then (0, False)
      else if budget_max b \<le> used then (0, True)
      else (let remaining = budget_max b - used in
            if n \<le> remaining then (n, False) else (remaining, True)))"

section \<open>Ranking\<close>

text \<open>
  Candidates whose keys determine them, with numbers to rank by, are totally ordered. \<open>f\<close> is the
  candidate of a key, as \<^verbatim>\<open>byKey\<close> gives it.
\<close>

definition rankable :: "(candidate \<Rightarrow> f64) \<Rightarrow> (string \<Rightarrow> candidate option) \<Rightarrow> candidate \<Rightarrow> bool" where
  "rankable m f c \<longleftrightarrow> m c \<noteq> NaN \<and> f (c_key c) = Some c"

lemma rank_lt_trans:
  assumes "m x \<noteq> NaN" "m y \<noteq> NaN" "m z \<noteq> NaN" "\<not> rank_lt m y x" "\<not> rank_lt m z y"
  shows "\<not> rank_lt m z x"
  using assms by (cases "m x"; cases "m y"; cases "m z") (auto simp: rank_lt_def split: if_splits)

interpretation rank: slice_total "rank_lt m" "rankable m f" for m f
proof
  show "\<not> rank_lt m y x" if "rank_lt m x y" for x y
    using that by (auto simp: rank_lt_def f_eq_iff dest: f_lt_asym split: if_splits)
  show "\<not> rank_lt m z x"
    if "rankable m f x" "rankable m f y" "rankable m f z" "\<not> rank_lt m y x" "\<not> rank_lt m z y" for x y z
    using that rank_lt_trans [of m x y z] by (simp add: rankable_def)
  show "rank_lt m x y \<or> rank_lt m y x" if "rankable m f x" "rankable m f y" "x \<noteq> y" for x y
  proof -
    have "c_key x \<noteq> c_key y" using that by (auto simp: rankable_def)
    then have "c_key x < c_key y \<or> c_key y < c_key x" by (rule neqE) simp_all
    then show ?thesis using that f_lt_total [of "m x" "m y"] by (auto simp: rankable_def rank_lt_def f_eq_iff)
  qed
qed

text \<open>The candidates of a cycle as the collectors give them: one per key, with numbers to rank by.\<close>

definition good_input :: "candidate list \<Rightarrow> bool" where
  "good_input cs \<longleftrightarrow> distinct (map c_key cs) \<and> (\<forall>c \<in> set cs. primary c \<noteq> NaN \<and> secondary c \<noteq> NaN)"

text \<open>Among the first \<open>n\<close>: fewer than \<open>n\<close> candidates rank ahead.\<close>

definition in_top :: "int \<Rightarrow> (candidate \<Rightarrow> f64) \<Rightarrow> candidate list \<Rightarrow> candidate \<Rightarrow> bool" where
  "in_top n m cs c \<longleftrightarrow> int (length (filter (\<lambda>d. rank_lt m d c) cs)) < n"

definition fresh :: "sel_options \<Rightarrow> candidate list \<Rightarrow> candidate list" where
  "fresh op cs = filter (\<lambda>c. in_top (topN op) primary cs c \<or> in_top (topN op) secondary cs c) cs"

definition retained :: "selector \<Rightarrow> 64 word \<Rightarrow> candidate list \<Rightarrow> candidate list" where
  "retained s cycle cs =
     filter (\<lambda>c. \<not> (in_top (topN (opts s)) primary cs c \<or> in_top (topN (opts s)) secondary cs c) \<and>
       (case map_of (lastSeen s) (c_key c) of None \<Rightarrow> False | Some seen \<Rightarrow> threshold (opts s) cycle \<le> seen)) cs"

lemma by_key_lookup: "distinct (map c_key cs) \<Longrightarrow> c \<in> set cs \<Longrightarrow> map_of (by_key cs) (c_key c) = Some c"
  unfolding by_key_def by (rule map_of_foldl_update)

lemma top_iff:
  assumes "good_input cs" and m: "m = primary \<or> m = secondary"
  shows "c \<in> set (take (nat n) (sort_slice (rank_lt m) cs)) \<longleftrightarrow> c \<in> set cs \<and> in_top n m cs c"
proof -
  have "\<forall>c \<in> set cs. rankable m (map_of (by_key cs)) c"
    using assms by (auto simp: good_input_def rankable_def by_key_lookup)
  moreover have "distinct cs" using assms(1) by (simp add: good_input_def distinct_map)
  ultimately show ?thesis
    using rank.take_sort_iff [of cs m "map_of (by_key cs)" c "nat n"] by (auto simp: in_top_def)
qed

lemma key_image_iff: "distinct (map c_key cs) \<Longrightarrow> A \<subseteq> set cs \<Longrightarrow> c \<in> set cs \<Longrightarrow> c_key c \<in> c_key ` A \<longleftrightarrow> c \<in> A"
  by (metis distinct_map inj_on_image_mem_iff)

lemma wf_fresh_set: "wf_map (fresh_set op cs)"
  by (simp add: fresh_set_def mark_top_def gomap)

lemma fresh_set_lookup:
  assumes "good_input cs"
  shows "map_of (fresh_set op cs) k = (if k \<in> c_key ` set (fresh op cs) then Some True else None)"
proof -
  have "set (fresh op cs) =
      set (take (nat (topN op)) (sort_slice (rank_lt primary) cs)) \<union>
      set (take (nat (topN op)) (sort_slice (rank_lt secondary) cs))"
    using top_iff [OF assms] by (auto simp: fresh_def)
  then show ?thesis by (simp add: fresh_set_def mark_top_def gomap image_Un)
qed

lemma retained_set_eq:
  assumes "good_input cs"
  shows "retained_set s cycle (fresh_set (opts s) cs) cs = foldl (\<lambda>m c. AList.update (c_key c) True m) [] (retained s cycle cs)"
proof -
  have "get_or False (fresh_set (opts s) cs) (c_key c) \<longleftrightarrow> c \<in> set (fresh (opts s) cs)" if "c \<in> set cs" for c
    using assms that key_image_iff [of cs "set (fresh (opts s) cs)" c]
    by (auto simp: fresh_set_lookup get_or_def good_input_def fresh_def)
  then show ?thesis
    by (auto simp: retained_set_def retained_def fresh_def intro!: arg_cong2 [where f = "foldl _"] filter_cong)
qed

text \<open>Looking the keys of a set up again gives the candidates back, in some order.\<close>

lemma mset_listed:
  assumes "distinct (map c_key cs)" and "wf_map m" and sub: "set ds \<subseteq> set cs" and "distinct ds"
    and dom: "\<And>k. map_of m k = (if k \<in> c_key ` set ds then Some True else None)"
  shows "mset (listed (by_key cs) m) = mset ds"
proof -
  let ?g = "\<lambda>k. get_or zero_candidate (by_key cs) k"
  have g: "?g (c_key c) = c" if "c \<in> set ds" for c
    using that sub by_key_lookup [OF assms(1)] by (auto simp: get_or_def)
  have keys: "fst ` set m = c_key ` set ds"
    using dom by (metis domIff option.distinct(1) dom_map_of_conv_image_fst subset_antisym subsetI)
  have "distinct (map c_key ds)" using assms(1,3,4) by (metis distinct_map inj_on_subset)
  then have "mset (map fst m) = mset (map c_key ds)"
    using assms(2) keys set_eq_iff_mset_eq_distinct [of "map fst m" "map c_key ds"]
    by (simp add: wf_map_def del: mset_map)
  then have "mset (map ?g (map fst m)) = mset (map ?g (map c_key ds))" by (metis mset_map)
  also have "map ?g (map c_key ds) = ds" using g by (simp add: map_idI)
  finally show ?thesis by (simp add: listed_def case_prod_unfold comp_def)
qed

definition candidates_of :: "selector \<Rightarrow> 64 word \<Rightarrow> candidate list \<Rightarrow> candidate list" where
  "candidates_of s cycle cs = fresh (opts s) cs @ retained s cycle cs"

lemma good_input_rankable:
  "good_input cs \<Longrightarrow> set ds \<subseteq> set cs \<Longrightarrow> \<forall>c \<in> set ds. rankable primary (map_of (by_key cs)) c"
  by (auto simp: good_input_def rankable_def by_key_lookup)

lemma fresh_retained [simp]:
  "set (fresh op cs) \<subseteq> set cs" "set (retained s cycle cs) \<subseteq> set cs"
  "good_input cs \<Longrightarrow> distinct (fresh op cs)" "good_input cs \<Longrightarrow> distinct (retained s cycle cs)"
  "set (fresh (opts s) cs) \<inter> set (retained s cycle cs) = {}"
  by (auto simp: fresh_def retained_def good_input_def distinct_map)

text \<open>The two ranked lists of step 3.\<close>

lemma ranked_lists:
  assumes "good_input cs"
  shows "sortByRank (listed (by_key cs) (fresh_set (opts s) cs)) = sortByRank (fresh (opts s) cs)"
    and "sortByRank (listed (by_key cs) (retained_set s cycle (fresh_set (opts s) cs) cs)) = sortByRank (retained s cycle cs)"
proof -
  have dist: "distinct (map c_key cs)" using assms by (simp add: good_input_def)
  have sort: "sortByRank xs = sortByRank ds" if "mset xs = mset ds" "set ds \<subseteq> set cs" for xs ds
    unfolding sortByRank_def using that good_input_rankable [OF assms that(2)]
    by (intro rank.sort_input_order [where f = "map_of (by_key cs)"]) auto
  show "sortByRank (listed (by_key cs) (fresh_set (opts s) cs)) = sortByRank (fresh (opts s) cs)"
    using assms dist by (intro sort mset_listed) (auto simp: wf_fresh_set fresh_set_lookup)
  show "sortByRank (listed (by_key cs) (retained_set s cycle (fresh_set (opts s) cs) cs)) = sortByRank (retained s cycle cs)"
    unfolding retained_set_eq [OF assms] using assms dist
    by (intro sort mset_listed) (auto simp: gomap)
qed

lemma select_eq:
  assumes "good_input cs" and "0 \<le> maxKeys (opts s)"
  shows "\<exists>s'. select s cycle cs =
      Some (s', sortByRank (take (nat (maxKeys (opts s))) (sortByRank (fresh (opts s) cs) @ sortByRank (retained s cycle cs))),
            maxKeys (opts s) < int (length (candidates_of s cycle cs))) \<and>
    opts s' = opts s \<and>
    (\<forall>k. map_of (lastSeen s') k = (if k \<in> c_key ` set (fresh (opts s) cs) then Some cycle else map_of (lastSeen s) k))"
proof (cases "cs = []")
  case True
  then show ?thesis using assms(2) by (simp add: select_def sortByRank_def fresh_def retained_def candidates_of_def)
next
  case False
  let ?F = "sortByRank (fresh (opts s) cs)" and ?R = "sortByRank (retained s cycle cs)" and ?cap = "maxKeys (opts s)"
  have "\<exists>xs ys. cut ?cap ?F ?R = Some (xs, ys, ?cap < int (length (candidates_of s cycle cs))) \<and> xs @ ys = take (nat ?cap) (?F @ ?R)"
    using assms(2) by (auto simp: cut_def sortByRank_def candidates_of_def nat_diff_distrib')
  moreover have "fst ` set (fresh_set (opts s) cs) = c_key ` set (fresh (opts s) cs)"
    using fresh_set_lookup [OF assms(1), of "opts s"]
    by (metis (no_types, lifting) domIff dom_map_of_conv_image_fst option.distinct(1) subsetI subset_antisym)
  ultimately show ?thesis
    using False by (auto simp: select_def Let_def ranked_lists [OF assms(1)] map_of_foldl_const)
qed

text \<open>What the cut to the first \<open>n\<close> of two ranked lists leaves out ranks after what it keeps.\<close>

lemma take_two_ranked:
  assumes xs: "\<forall>c \<in> set xs. rankable primary f c" and ys: "\<forall>c \<in> set ys. rankable primary f c"
    and dist: "distinct (xs @ ys)"
    and c: "c \<in> set (xs @ ys) - set (take n (sortByRank xs @ sortByRank ys))"
    and d: "d \<in> set (take n (sortByRank xs @ sortByRank ys))"
  shows "if c \<in> set xs then d \<in> set xs \<and> rank_lt primary d c else d \<in> set xs \<or> rank_lt primary d c"
proof -
  let ?X = "sortByRank xs" and ?Y = "sortByRank ys"
  have sets [simp]: "set ?X = set xs" "set ?Y = set ys" "length ?X = length xs" by (simp_all add: sortByRank_def)
  have order: "rank_lt primary b a"
    if "\<forall>c \<in> set zs. rankable primary f c" "a \<in> set zs" "a \<notin> set (take k (sortByRank zs))" "b \<in> set (take k (sortByRank zs))"
    for a b zs k
  proof -
    have b: "b \<in> set zs" using that(4) by (auto simp: sortByRank_def dest: in_set_takeD)
    have "a \<in> set (drop k (sortByRank zs))"
      using that(2,3) append_take_drop_id [of k "sortByRank zs"]
      by (metis Un_iff set_append set_sort_slice sortByRank_def)
    then have "\<not> rank_lt primary a b"
      using that(1,4) rank.take_ranks_first [of zs primary f b k a] by (simp add: sortByRank_def)
    then show ?thesis using rank.less_total [of primary f a b] that b by auto
  qed
  show ?thesis
  proof (cases "c \<in> set xs")
    case True
    with c have cx: "c \<notin> set (take n ?X)" by simp
    then have "n \<le> length xs" using True by (metis linorder_le_cases sets(1,3) take_all)
    with d have dx: "d \<in> set (take n ?X)" by simp
    then have "d \<in> set xs" by (metis in_set_takeD sets(1))
    with True show ?thesis using order [OF xs True cx dx] by simp
  next
    case False
    then have cy: "c \<in> set ys" "c \<notin> set (take (n - length xs) ?Y)" using c by auto
    show ?thesis using d False order [OF ys cy] by (auto dest: in_set_takeD)
  qed
qed

text \<open>What \<^verbatim>\<open>Select\<close> keeps, before the last sort.\<close>

definition kept_list :: "selector \<Rightarrow> 64 word \<Rightarrow> candidate list \<Rightarrow> candidate list" where
  "kept_list s cycle cs =
     take (nat (maxKeys (opts s))) (sortByRank (fresh (opts s) cs) @ sortByRank (retained s cycle cs))"

lemma kept_list_facts:
  assumes "good_input cs"
  shows "distinct (kept_list s cycle cs)" "set (kept_list s cycle cs) \<subseteq> set (candidates_of s cycle cs)"
    "length (kept_list s cycle cs) = min (nat (maxKeys (opts s))) (length (candidates_of s cycle cs))"
proof -
  have dist: "distinct (candidates_of s cycle cs)" using assms by (simp add: candidates_of_def)
  have ms: "mset (sortByRank (fresh (opts s) cs) @ sortByRank (retained s cycle cs)) = mset (candidates_of s cycle cs)"
    by (simp add: candidates_of_def sortByRank_def)
  show "distinct (kept_list s cycle cs)"
    unfolding kept_list_def using ms dist by (metis distinct_take mset_eq_imp_distinct_iff)
  show "set (kept_list s cycle cs) \<subseteq> set (candidates_of s cycle cs)"
    unfolding kept_list_def using ms by (metis mset_eq_setD set_take_subset)
  show "length (kept_list s cycle cs) = min (nat (maxKeys (opts s))) (length (candidates_of s cycle cs))"
    unfolding kept_list_def using ms by (metis length_take min.commute size_mset)
qed

lemma candidates_of_subset: "set (candidates_of s cycle cs) \<subseteq> set cs"
  by (simp add: candidates_of_def)

lemma kept_list_sorted:
  assumes "good_input cs"
  shows "sorted_wrt (rank_lt primary) (sortByRank (kept_list s cycle cs))"
  unfolding sortByRank_def
proof (rule rank.sort_strict)
  show "\<forall>c \<in> set (kept_list s cycle cs). rankable primary (map_of (by_key cs)) c"
    by (rule good_input_rankable [OF assms])
       (rule subset_trans [OF kept_list_facts(2) [OF assms] candidates_of_subset])
  show "distinct (kept_list s cycle cs)" by (rule kept_list_facts [OF assms])
qed

lemma kept_list_complete:
  assumes "good_input cs"
  shows "set (kept_list s cycle cs) = set (candidates_of s cycle cs) \<longleftrightarrow>
    length (candidates_of s cycle cs) \<le> nat (maxKeys (opts s))"
proof -
  have "distinct (candidates_of s cycle cs)" using assms by (simp add: candidates_of_def)
  then have "set (kept_list s cycle cs) = set (candidates_of s cycle cs) \<longleftrightarrow>
      length (kept_list s cycle cs) = length (candidates_of s cycle cs)"
    using kept_list_facts [OF assms, of s cycle]
    by (metis List.finite_set card_subset_eq distinct_card)
  then show ?thesis using kept_list_facts(3) [OF assms, of s cycle] by auto
qed

lemma kept_list_cut:
  assumes "good_input cs" and "c \<in> set (candidates_of s cycle cs) - set (kept_list s cycle cs)"
    and "d \<in> set (kept_list s cycle cs)"
  shows "if c \<in> set (fresh (opts s) cs) then d \<in> set (fresh (opts s) cs) \<and> rank_lt primary d c
    else d \<in> set (fresh (opts s) cs) \<or> rank_lt primary d c"
  using assms(2,3) unfolding kept_list_def candidates_of_def
proof (rule take_two_ranked [rotated -2])
  show "\<forall>c \<in> set (fresh (opts s) cs). rankable primary (map_of (by_key cs)) c"
       "\<forall>c \<in> set (retained s cycle cs). rankable primary (map_of (by_key cs)) c"
    by (rule good_input_rankable [OF assms(1)], simp)+
qed (use assms(1) in simp)

text \<open>
  C19. \<^verbatim>\<open>Select\<close> against its specification. For candidates with one entry per key and numbers to rank
  by, and a cap that is not negative, it returns (no slice bound is out of range). What it keeps is
  ranked, without duplicates, and consists of candidates among the top \<open>N\<close> of either metric and of
  retained ones, as many of them as the cap allows. What the cap cuts ranks after what it keeps, and
  a retained candidate is cut before any top one. \<^verbatim>\<open>truncated\<close> says exactly that something was cut, and
  only the top candidates of the cycle are remembered.
\<close>

theorem select_correct:
  assumes "good_input cs" and "0 \<le> maxKeys (opts s)"
  shows "\<exists>s' kept truncated. select s cycle cs = Some (s', kept, truncated) \<and>
    sorted_wrt (rank_lt primary) kept \<and> distinct kept \<and>
    set kept \<subseteq> set (candidates_of s cycle cs) \<and>
    length kept = min (nat (maxKeys (opts s))) (length (candidates_of s cycle cs)) \<and>
    truncated = (set kept \<noteq> set (candidates_of s cycle cs)) \<and>
    (\<forall>c d. c \<in> set (candidates_of s cycle cs) - set kept \<and> d \<in> set kept \<longrightarrow>
       (if c \<in> set (fresh (opts s) cs) then d \<in> set (fresh (opts s) cs) \<and> rank_lt primary d c
        else d \<in> set (fresh (opts s) cs) \<or> rank_lt primary d c)) \<and>
    opts s' = opts s \<and>
    (\<forall>k. map_of (lastSeen s') k = (if k \<in> c_key ` set (fresh (opts s) cs) then Some cycle else map_of (lastSeen s) k))"
proof -
  let ?K = "kept_list s cycle cs"
  obtain s' where s': "select s cycle cs = Some (s', sortByRank ?K, maxKeys (opts s) < int (length (candidates_of s cycle cs)))"
      "opts s' = opts s"
      "\<forall>k. map_of (lastSeen s') k = (if k \<in> c_key ` set (fresh (opts s) cs) then Some cycle else map_of (lastSeen s) k)"
    using select_eq [OF assms] unfolding kept_list_def by blast
  have "maxKeys (opts s) < int (length (candidates_of s cycle cs)) \<longleftrightarrow> set ?K \<noteq> set (candidates_of s cycle cs)"
    using kept_list_complete [OF assms(1)] assms(2) by auto
  with s' show ?thesis
    using kept_list_facts [OF assms(1), of s cycle] kept_list_sorted [OF assms(1), of s cycle]
      kept_list_cut [OF assms(1), of _ s cycle]
    by (intro exI [of _ s'] exI [of _ "sortByRank ?K"]) (auto simp: sortByRank_def)
qed

definition sample_cands :: "candidate list" where
  "sample_cands = [\<lparr>c_key = ''a'', primary = Fin 9, secondary = Fin 1\<rparr>,
    \<lparr>c_key = ''b'', primary = Fin 8, secondary = Fin 7\<rparr>, \<lparr>c_key = ''c'', primary = Fin 5, secondary = Fin 2\<rparr>]"

definition sample_selector :: selector where
  "sample_selector = \<lparr>opts = \<lparr>topN = 1, hysteresis = 5, maxKeys = 2\<rparr>, lastSeen = [(''c'', 3)]\<rparr>"

lemma select_correct_witness:
  "\<exists>s' kept truncated. select sample_selector 6 sample_cands = Some (s', kept, truncated) \<and>
     length kept = min 2 (length (candidates_of sample_selector 6 sample_cands))"
  using select_correct [of sample_cands sample_selector 6]
  by (auto simp: good_input_def sample_cands_def sample_selector_def)

lemma length_fresh:
  assumes "good_input cs" and "0 \<le> topN op"
  shows "int (length (fresh op cs)) \<le> 2 * topN op"
proof -
  let ?P = "take (nat (topN op)) (sort_slice (rank_lt primary) cs)"
  let ?S = "take (nat (topN op)) (sort_slice (rank_lt secondary) cs)"
  have "length (fresh op cs) = card (set (fresh op cs))" using assms(1) by (simp add: distinct_card)
  also have "set (fresh op cs) = set (?P @ ?S)" using top_iff [OF assms(1)] by (auto simp: fresh_def)
  also have "card (set (?P @ ?S)) \<le> length (?P @ ?S)" by (rule card_length)
  also have "length (?P @ ?S) \<le> 2 * nat (topN op)" by simp
  finally show ?thesis using assms(2) by linarith
qed

text \<open>
  The configured top-\<open>N\<close> is never cut by the default cap: with \<^verbatim>\<open>MaxKeys\<close> left unset, every
  candidate among the first \<open>N\<close> by either metric is reported, whatever history is retained.
\<close>

theorem default_cap_keeps_top:
  assumes "good_input cs" and "0 \<le> topN op" and "topN op \<le> 2 ^ 62 - 1" and "maxKeys op = 0"
    and "opts s = sel_defaults op" and "select s cycle cs = Some (s', kept, truncated)"
    and "c \<in> set cs" and "in_top (topN (opts s)) primary cs c \<or> in_top (topN (opts s)) secondary cs c"
  shows "c \<in> set kept"
proof -
  have top: "0 \<le> topN (opts s)" and cap: "2 * topN (opts s) \<le> maxKeys (opts s)"
    using assms(2-5) by (auto simp: sel_defaults_def Let_def min_duration_def max_duration_def)
  have kept: "kept = sortByRank (kept_list s cycle cs)"
    using select_eq [OF assms(1), of s cycle] assms(6) top cap by (auto simp: kept_list_def)
  have "length (sortByRank (fresh (opts s) cs)) \<le> nat (maxKeys (opts s))"
    using length_fresh [OF assms(1) top] cap by (simp add: sortByRank_def)
  then have "set (fresh (opts s) cs) \<subseteq> set (kept_list s cycle cs)"
    by (simp add: kept_list_def sortByRank_def)
  moreover have "c \<in> set (fresh (opts s) cs)" using assms(7,8) by (simp add: fresh_def)
  ultimately show ?thesis by (auto simp: kept sortByRank_def)
qed

lemma default_cap_keeps_top_witness:
  "hd sample_cands \<in> set (fst (snd (the (select (new_selector \<lparr>topN = 1, hysteresis = 0, maxKeys = 0\<rparr>) 1 sample_cands))))"
proof (rule default_cap_keeps_top)
  let ?s = "new_selector \<lparr>topN = 1, hysteresis = 0, maxKeys = 0\<rparr>"
  show "good_input sample_cands" by (simp add: good_input_def sample_cands_def)
  then show "select ?s 1 sample_cands = Some (fst (the (select ?s 1 sample_cands)),
      fst (snd (the (select ?s 1 sample_cands))), snd (snd (the (select ?s 1 sample_cands))))"
    using select_eq [of sample_cands ?s 1] by (auto simp: new_selector_def sel_defaults_def le_max_iff_disj)
  show "in_top (topN (opts ?s)) primary sample_cands (hd sample_cands) \<or>
      in_top (topN (opts ?s)) secondary sample_cands (hd sample_cands)"
    by (simp add: new_selector_def sel_defaults_def in_top_def sample_cands_def rank_lt_def)
qed (simp_all add: new_selector_def sample_cands_def)

section \<open>Forgetting\<close>

datatype sel_call = SelectAt "64 word" "candidate list" | ForgetAt "64 word"

fun call_cycle :: "sel_call \<Rightarrow> 64 word" where
  "call_cycle (SelectAt c _) = c"
| "call_cycle (ForgetAt c) = c"

text \<open>The results of the \<^verbatim>\<open>Select\<close> calls of a run; a panic ends it.\<close>

fun sel_run :: "selector \<Rightarrow> sel_call list \<Rightarrow> (candidate list \<times> bool) option list" where
  "sel_run s [] = []"
| "sel_run s (SelectAt c cs # calls) =
     (case select s c cs of None \<Rightarrow> [None] | Some (s', out) \<Rightarrow> Some out # sel_run s' calls)"
| "sel_run s (ForgetAt c # calls) = sel_run (fst (forget s c)) calls"

fun is_select :: "sel_call \<Rightarrow> bool" where
  "is_select (SelectAt _ _) = True"
| "is_select (ForgetAt _) = False"

text \<open>\<open>s\<close> lacks only entries of \<open>t\<close> that are too old for any cycle from \<open>c\<close> on.\<close>

definition forgot :: "64 word \<Rightarrow> selector \<Rightarrow> selector \<Rightarrow> bool" where
  "forgot c s t \<longleftrightarrow> opts s = opts t \<and> wf_map (lastSeen s) \<and>
     (\<forall>k. map_of (lastSeen s) k = map_of (lastSeen t) k \<or>
       map_of (lastSeen s) k = None \<and> (\<exists>v. map_of (lastSeen t) k = Some v \<and> v < threshold (opts t) c))"

lemma threshold_mono: "c \<le> c' \<Longrightarrow> threshold op c \<le> threshold op c'"
  by (auto simp: threshold_def word_le_nat_alt word_less_nat_alt unat_sub)

lemma forgot_mono: "forgot c s t \<Longrightarrow> c \<le> c' \<Longrightarrow> forgot c' s t"
  unfolding forgot_def using threshold_mono [of c c' "opts t"] by (meson order_less_le_trans)

lemma forget_lookup:
  "wf_map (lastSeen s) \<Longrightarrow> map_of (lastSeen (fst (forget s c))) k =
     (case map_of (lastSeen s) k of None \<Rightarrow> None | Some v \<Rightarrow> if v < threshold (opts s) c then None else Some v)"
  by (auto simp: forget_def Let_def threshold_def map_of_filter_wf split: option.splits)

lemma forgot_forget:
  assumes "forgot c s t"
  shows "forgot c (fst (forget s c)) t"
  unfolding forgot_def
proof (intro conjI allI)
  have st: "opts s = opts t" "wf_map (lastSeen s)" using assms by (simp_all add: forgot_def)
  then show "opts (fst (forget s c)) = opts t" "wf_map (lastSeen (fst (forget s c)))"
    by (simp_all add: forget_def Let_def wf_map_filter)
  show "map_of (lastSeen (fst (forget s c))) k = map_of (lastSeen t) k \<or>
      map_of (lastSeen (fst (forget s c))) k = None \<and> (\<exists>v. map_of (lastSeen t) k = Some v \<and> v < threshold (opts t) c)" for k
    using assms st unfolding forget_lookup [OF st(2)] forgot_def
    by (cases "map_of (lastSeen s) k") (auto dest: spec [of _ k])
qed

lemma retained_set_forgot:
  assumes "forgot c s t"
  shows "retained_set s c m cs = retained_set t c m cs"
proof -
  have "(case map_of (lastSeen s) k of None \<Rightarrow> False | Some seen \<Rightarrow> threshold (opts s) c \<le> seen) =
      (case map_of (lastSeen t) k of None \<Rightarrow> False | Some seen \<Rightarrow> threshold (opts t) c \<le> seen)" for k
  proof -
    from assms have "map_of (lastSeen s) k = map_of (lastSeen t) k \<or>
        map_of (lastSeen s) k = None \<and> (\<exists>v. map_of (lastSeen t) k = Some v \<and> v < threshold (opts t) c)" "opts s = opts t"
      by (simp_all add: forgot_def)
    then show ?thesis by (auto split: option.splits)
  qed
  then show ?thesis by (simp add: retained_set_def)
qed

lemma select_forgot:
  assumes "forgot c s t"
  shows "(select s c cs = None \<and> select t c cs = None) \<or>
    (\<exists>s' t' out. select s c cs = Some (s', out) \<and> select t c cs = Some (t', out) \<and> forgot c s' t')"
proof -
  have op: "opts s = opts t" using assms by (simp add: forgot_def)
  have "forgot c (s\<lparr>lastSeen := foldl (\<lambda>m x. AList.update (fst x) c m) (lastSeen s) m\<rparr>)
     (t\<lparr>lastSeen := foldl (\<lambda>m x. AList.update (fst x) c m) (lastSeen t) m\<rparr>)" for m :: "(string, bool) gomap"
    using assms by (auto simp: forgot_def gomap)
  then show ?thesis
    using assms op retained_set_forgot [OF assms, of "fresh_set (opts t) cs" cs]
    by (auto simp: select_def Let_def split: option.splits)
qed

text \<open>
  C20. \<^verbatim>\<open>Forget\<close> only bounds memory: in any run whose cycles do not go back, the calls to \<^verbatim>\<open>Forget\<close> at
  any of its points change no selection.
\<close>

theorem forget_changes_no_selection:
  assumes "wf_map (lastSeen s)" and "sorted (map call_cycle calls)"
  shows "sel_run s calls = sel_run s (filter is_select calls)"
proof -
  have "sel_run s calls = sel_run t (filter is_select calls)"
    if "forgot c s t" "sorted (c # map call_cycle calls)" for c t
    using that
  proof (induction calls arbitrary: c s t)
    case (Cons call calls)
    have fg: "forgot (call_cycle call) s t" using Cons.prems forgot_mono by auto
    show ?case
    proof (cases call)
      case (SelectAt d cs)
      with select_forgot [of d s t cs] fg Cons.IH [of d] Cons.prems(2) show ?thesis by auto
    next
      case (ForgetAt d)
      with forgot_forget [of d s t] fg Cons.IH [of d] Cons.prems(2) show ?thesis by auto
    qed
  qed simp
  moreover have "forgot 0 s s" using assms(1) by (simp add: forgot_def)
  ultimately show ?thesis using assms(2) by simp
qed

lemma forget_changes_no_selection_witness:
  "sel_run sample_selector [SelectAt 6 sample_cands, ForgetAt 9, SelectAt 9 sample_cands] =
   sel_run sample_selector [SelectAt 6 sample_cands, SelectAt 9 sample_cands]"
  using forget_changes_no_selection [of sample_selector "[SelectAt 6 sample_cands, ForgetAt 9, SelectAt 9 sample_cands]"]
  by (simp add: sample_selector_def)

text \<open>The budget never lets a push over its maximum and reports every refusal.\<close>

lemma admit_exact:
  assumes "0 \<le> n" and "admit b used n = (a, truncated)"
  shows "0 \<le> a \<and> a \<le> n \<and> (truncated \<longleftrightarrow> a < n) \<and> (used \<le> budget_max b \<longrightarrow> used + a \<le> budget_max b)
    \<and> (truncated \<longrightarrow> budget_max b \<le> used + a)"
  using assms by (auto simp: admit_def Let_def split: if_splits)

end
