(* ===== verification/Ash.thy ===== *)
theory Ash
  imports Prelude
begin

text \<open>
  The active-session history aggregator (\<^verbatim>\<open>internal/ash/aggregator.go\<close>): samples of one second are
  counted per key and a window is closed with at most \<^verbatim>\<open>maxKeys\<close> buckets. The clock's reading is an
  argument of the operations that take it.
\<close>

section \<open>Keys and buckets\<close>

record ashKey =
  k_datname :: string
  waitEventType :: string
  waitEvent :: string
  k_state :: string
  queryID :: int
  hasQueryID :: bool

definition otherKey :: ashKey where
  "otherKey = \<lparr>k_datname = [], waitEventType = ''other'', waitEvent = ''other'', k_state = ''other'',
     queryID = 0, hasQueryID = False\<rparr>"

record ash_bucket =
  b_key :: ashKey
  samples :: int

record ash_window =
  w_start :: time
  w_end :: time
  w_ticks :: int
  failedTicks :: int
  buckets :: "ash_bucket list"
  w_truncated :: bool

definition keyLess :: "ashKey \<Rightarrow> ashKey \<Rightarrow> bool" where
  "keyLess a b =
     (if k_datname a \<noteq> k_datname b then k_datname a < k_datname b
      else if waitEventType a \<noteq> waitEventType b then waitEventType a < waitEventType b
      else if waitEvent a \<noteq> waitEvent b then waitEvent a < waitEvent b
      else if k_state a \<noteq> k_state b then k_state a < k_state b
      else if hasQueryID a \<noteq> hasQueryID b then \<not> hasQueryID a
      else queryID a < queryID b)"

definition bucket_lt :: "ash_bucket \<Rightarrow> ash_bucket \<Rightarrow> bool" where
  "bucket_lt a b = (if samples a \<noteq> samples b then samples b < samples a else keyLess (b_key a) (b_key b))"

definition sortBuckets :: "ash_bucket list \<Rightarrow> ash_bucket list" where
  "sortBuckets bs = sort_slice bucket_lt bs"

definition capConserved :: "(ashKey, int) gomap \<Rightarrow> int \<Rightarrow> ash_bucket list \<times> bool" where
  "capConserved counts maxKeys =
     (if counts = [] then ([], False)
      else
        (let bs = map (\<lambda>(k, n). \<lparr>b_key = k, samples = n\<rparr>) counts in
         if int (length bs) \<le> maxKeys then (sortBuckets bs, False)
         else
           (let sorted = sortBuckets bs;
                keep = nat (max 0 (maxKeys - 1));
                otherTotal = sum_list (map samples (drop keep sorted))
            in (take keep sorted @ (if 0 < otherTotal then [\<lparr>b_key = otherKey, samples = otherTotal\<rparr>] else []), True))))"

section \<open>The aggregator\<close>

record aggregator =
  agg_window :: duration
  agg_maxKeys :: int
  agg_start :: time
  started :: bool
  counts :: "(ashKey, int) gomap"
  ticks :: int
  failed :: int

definition new_aggregator :: "duration \<Rightarrow> int \<Rightarrow> aggregator" where
  "new_aggregator w n =
     \<lparr>agg_window = w, agg_maxKeys = (if n < 1 then 1 else n), agg_start = 0, started = False,
      counts = [], ticks = 0, failed = 0\<rparr>"

definition ensureStarted :: "time \<Rightarrow> aggregator \<Rightarrow> aggregator" where
  "ensureStarted now a = (if \<not> started a then a\<lparr>agg_start := now, started := True\<rparr> else a)"

definition sample_key_of :: "string \<Rightarrow> string \<Rightarrow> string \<Rightarrow> string \<Rightarrow> int option \<Rightarrow> ashKey" where
  "sample_key_of dat st wet we qid =
     (let k = \<lparr>k_datname = dat, waitEventType = wet, waitEvent = we, k_state = st, queryID = 0, hasQueryID = False\<rparr>
      in case qid of None \<Rightarrow> k | Some q \<Rightarrow> k\<lparr>queryID := q, hasQueryID := True\<rparr>)"

definition add :: "time \<Rightarrow> aggregator \<Rightarrow> string \<Rightarrow> string \<Rightarrow> string \<Rightarrow> string \<Rightarrow> int option \<Rightarrow> aggregator" where
  "add now a dat st wet we qid =
     (let k = sample_key_of dat st wet we qid; a' = ensureStarted now a
      in a'\<lparr>counts := AList.update k (get_or 0 (counts a') k + 1) (counts a')\<rparr>)"

definition tickFailed :: "time \<Rightarrow> aggregator \<Rightarrow> aggregator" where
  "tickFailed now a = (let a' = ensureStarted now a in a'\<lparr>failed := failed a' + 1\<rparr>)"

definition tickSucceeded :: "time \<Rightarrow> aggregator \<Rightarrow> aggregator" where
  "tickSucceeded now a = (let a' = ensureStarted now a in a'\<lparr>ticks := ticks a' + 1\<rparr>)"

definition flush :: "time \<Rightarrow> aggregator \<Rightarrow> aggregator \<times> ash_window" where
  "flush now a =
     (let start = (if \<not> started a then now else agg_start a);
          (bs, trunc) = capConserved (counts a) (agg_maxKeys a)
      in (a\<lparr>counts := [], ticks := 0, failed := 0, agg_start := now, started := True\<rparr>,
          \<lparr>w_start = start, w_end = now, w_ticks = ticks a, failedTicks = failed a, buckets = bs, w_truncated = trunc\<rparr>))"

section \<open>The order of the buckets\<close>

lemma keyLess_trans: "keyLess a b \<Longrightarrow> keyLess b c \<Longrightarrow> keyLess a c"
  by (auto simp: keyLess_def split: if_splits)

lemma keyLess_irrefl [simp]: "\<not> keyLess a a"
  by (simp add: keyLess_def)

lemma keyLess_total: "a \<noteq> b \<Longrightarrow> keyLess a b \<or> keyLess b a"
  by (cases a; cases b) (auto simp: keyLess_def)

lemma bucket_lt_trans: "bucket_lt a b \<Longrightarrow> bucket_lt b c \<Longrightarrow> bucket_lt a c"
  by (auto simp: bucket_lt_def dest: keyLess_trans split: if_splits)

lemma bucket_lt_total: "a \<noteq> b \<Longrightarrow> bucket_lt a b \<or> bucket_lt b a"
  using keyLess_total [of "b_key a" "b_key b"] by (cases a; cases b) (auto simp: bucket_lt_def)

interpretation bucket: slice_total bucket_lt "\<lambda>_. True"
proof
  show asym: "\<not> bucket_lt y x" if "bucket_lt x y" for x y
    using bucket_lt_trans [OF that, of x] by (auto simp: bucket_lt_def)
  show "\<not> bucket_lt z x" if "\<not> bucket_lt y x" "\<not> bucket_lt z y" for x y z
    using that bucket_lt_total [of x y] bucket_lt_trans [of z x y] by auto
  show "bucket_lt x y \<or> bucket_lt y x" if "x \<noteq> y" for x y
    using that by (rule bucket_lt_total)
qed

section \<open>Closing a window\<close>

definition to_buckets :: "(ashKey, int) gomap \<Rightarrow> ash_bucket list" where
  "to_buckets m = map (\<lambda>(k, n). \<lparr>b_key = k, samples = n\<rparr>) m"

definition total :: "ash_bucket list \<Rightarrow> int" where
  "total bs = sum_list (map samples bs)"

lemma total_append [simp]: "total (xs @ ys) = total xs + total ys"
  by (simp add: total_def)

lemma total_mset: "mset xs = mset ys \<Longrightarrow> total xs = total ys"
  unfolding total_def by (metis mset_map sum_mset_sum_list)

lemma total_to_buckets: "total (to_buckets m) = sum_list (map snd m)"
  by (simp add: total_def to_buckets_def case_prod_unfold comp_def)

lemma length_to_buckets [simp]: "length (to_buckets m) = length m"
  by (simp add: to_buckets_def)

lemma total_pos: "\<forall>b \<in> set bs. 0 < samples b \<Longrightarrow> bs \<noteq> [] \<Longrightarrow> 0 < total bs"
proof (induction bs)
  case (Cons b bs)
  then show ?case by (cases "bs = []") (auto simp: total_def)
qed simp

lemma capConserved_fits:
  "int (length m) \<le> n \<Longrightarrow> capConserved m n = (sortBuckets (to_buckets m), False)"
  by (simp add: capConserved_def Let_def to_buckets_def sortBuckets_def)

lemma capConserved_folds:
  assumes "n < int (length m)" and "1 \<le> n" and "\<forall>e \<in> set m. 0 < snd e"
  shows "capConserved m n =
    (take (nat n - 1) (sortBuckets (to_buckets m)) @
       [\<lparr>b_key = otherKey, samples = total (drop (nat n - 1) (sortBuckets (to_buckets m)))\<rparr>], True)"
proof -
  let ?s = "sortBuckets (to_buckets m)" and ?k = "nat n - 1"
  have "\<forall>b \<in> set ?s. 0 < samples b" using assms(3) by (auto simp: sortBuckets_def to_buckets_def)
  then have "\<forall>b \<in> set (drop ?k ?s). 0 < samples b" by (meson in_set_dropD)
  moreover have "drop ?k ?s \<noteq> []" using assms(1,2) by (simp add: sortBuckets_def)
  ultimately have "0 < total (drop ?k ?s)" by (rule total_pos)
  moreover have "nat (max 0 (n - 1)) = ?k" using assms(2) by simp
  ultimately show ?thesis using assms(1,2)
    by (auto simp: capConserved_def Let_def to_buckets_def [symmetric] total_def)
qed

lemma capConserved_total:
  assumes "1 \<le> n" and "\<forall>e \<in> set m. 0 < snd e"
  shows "total (fst (capConserved m n)) = sum_list (map snd m)"
proof -
  let ?s = "sortBuckets (to_buckets m)" and ?k = "nat n - 1"
  have s: "total ?s = sum_list (map snd m)"
    using total_mset [of ?s "to_buckets m"] total_to_buckets by (simp add: sortBuckets_def)
  show ?thesis
  proof (cases "n < int (length m)")
    case True
    have "total (fst (capConserved m n)) = total (take ?k ?s) + total (drop ?k ?s)"
      unfolding capConserved_folds [OF True assms] by (simp add: total_def)
    also have "\<dots> = total ?s" by (metis append_take_drop_id total_append)
    finally show ?thesis using s by simp
  qed (simp add: capConserved_fits s)
qed

lemma capConserved_length:
  assumes "1 \<le> n" and "\<forall>e \<in> set m. 0 < snd e"
  shows "int (length (fst (capConserved m n))) \<le> n"
  using assms capConserved_fits [of m n] capConserved_folds [of n m]
  by (cases "n < int (length m)") (auto simp: sortBuckets_def)

text \<open>
  C22. A closed window loses no sample and stays within its cap: the samples of its buckets add up to
  the samples that were counted, there are at most \<^verbatim>\<open>maxKeys\<close> buckets, \<^verbatim>\<open>Truncated\<close> says exactly that
  there were more keys than that, every bucket but a last one for \<^verbatim>\<open>otherKey\<close> is a key with its own
  count, and the keys folded into that one come after all the others in the order of the buckets.
\<close>

theorem capConserved_correct:
  assumes "wf_map m" and "1 \<le> n" and "\<forall>e \<in> set m. 0 < snd e" and "capConserved m n = (bs, trunc)"
  shows "total bs = sum_list (map snd m) \<and> int (length bs) \<le> n \<and> trunc = (n < int (length m)) \<and>
    (if trunc then
       \<exists>kept folded. bs = kept @ [\<lparr>b_key = otherKey, samples = total folded\<rparr>] \<and>
         mset (kept @ folded) = mset (to_buckets m) \<and> (\<forall>a \<in> set kept. \<forall>b \<in> set folded. bucket_lt a b)
     else mset bs = mset (to_buckets m)) \<and>
    sorted_wrt bucket_lt (if trunc then butlast bs else bs)"
proof -
  let ?s = "sortBuckets (to_buckets m)" and ?k = "nat n - 1"
  have ms: "mset ?s = mset (to_buckets m)" by (simp add: sortBuckets_def)
  have "distinct (map fst m)" using assms(1) by (simp add: wf_map_def)
  then have "distinct (map b_key (to_buckets m))" by (simp add: to_buckets_def case_prod_unfold comp_def)
  then have "distinct (to_buckets m)" by (simp add: distinct_map)
  then have strict: "sorted_wrt bucket_lt ?s" unfolding sortBuckets_def by (intro bucket.sort_strict) simp_all
  show ?thesis
  proof (cases "n < int (length m)")
    case True
    with capConserved_folds [OF True assms(2,3)] assms(4)
    have bs: "bs = take ?k ?s @ [\<lparr>b_key = otherKey, samples = total (drop ?k ?s)\<rparr>]" and "trunc" by simp_all
    have both: "sorted_wrt bucket_lt (take ?k ?s @ drop ?k ?s)" using strict by simp
    have "mset (take ?k ?s @ drop ?k ?s) = mset (to_buckets m)" using ms by simp
    then show ?thesis
      using True \<open>trunc\<close> bs both capConserved_total [OF assms(2,3)] capConserved_length [OF assms(2,3)] assms(4)
      unfolding sorted_wrt_append
      by (auto simp del: append_take_drop_id intro!: exI [of _ "take ?k ?s"] exI [of _ "drop ?k ?s"])
  next
    case False
    with capConserved_fits [of m n] assms(4) have "bs = ?s" "\<not> trunc" by simp_all
    with False ms strict total_mset [OF ms] show ?thesis by (simp add: total_to_buckets sortBuckets_def)
  qed
qed

definition sample_counts :: "(ashKey, int) gomap" where
  "sample_counts = [(otherKey\<lparr>k_datname := ''a''\<rparr>, 3), (otherKey\<lparr>k_datname := ''b''\<rparr>, 5), (otherKey\<lparr>k_datname := ''c''\<rparr>, 2)]"

lemma capConserved_correct_witness:
  "total (fst (capConserved sample_counts 2)) = 10 \<and> snd (capConserved sample_counts 2)"
  using capConserved_correct [of sample_counts 2 "fst (capConserved sample_counts 2)" "snd (capConserved sample_counts 2)"]
  by (simp add: sample_counts_def otherKey_def)

text \<open>The map's iteration order does not show in the window.\<close>

lemma capConserved_order:
  assumes "mset m = mset m'"
  shows "capConserved m n = capConserved m' n"
proof -
  have "mset (to_buckets m) = mset (to_buckets m')" unfolding to_buckets_def using assms by simp
  then have "sortBuckets (to_buckets m) = sortBuckets (to_buckets m')"
    unfolding sortBuckets_def by (intro bucket.sort_input_order) auto
  moreover have "length m = length m'" using assms by (rule mset_eq_length)
  ultimately show ?thesis by (auto simp: capConserved_def Let_def to_buckets_def)
qed

section \<open>Runs of the aggregator\<close>

datatype ash_call = AddAt time string string string string "int option" | FailAt time | SucceedAt time | FlushAt time

fun ash_step :: "aggregator \<times> ash_window list \<Rightarrow> ash_call \<Rightarrow> aggregator \<times> ash_window list" where
  "ash_step (a, ws) (AddAt now dat st wet we qid) = (add now a dat st wet we qid, ws)"
| "ash_step (a, ws) (FailAt now) = (tickFailed now a, ws)"
| "ash_step (a, ws) (SucceedAt now) = (tickSucceeded now a, ws)"
| "ash_step (a, ws) (FlushAt now) = (case flush now a of (a', w) \<Rightarrow> (a', ws @ [w]))"

fun is_add :: "ash_call \<Rightarrow> bool" where
  "is_add (AddAt _ _ _ _ _ _) = True"
| "is_add _ = False"

fun contiguous :: "ash_window list \<Rightarrow> bool" where
  "contiguous (v # w # ws) = (w_end v = w_start w \<and> contiguous (w # ws))"
| "contiguous _ = True"

definition agg_inv :: "aggregator \<times> ash_window list \<Rightarrow> bool" where
  "agg_inv = (\<lambda>(a, ws). wf_map (counts a) \<and> (\<forall>e \<in> set (counts a). 0 < snd e) \<and> 1 \<le> agg_maxKeys a \<and>
     (\<not> started a \<longrightarrow> counts a = [] \<and> ticks a = 0 \<and> failed a = 0) \<and>
     contiguous ws \<and> (ws \<noteq> [] \<longrightarrow> started a \<and> w_end (last ws) = agg_start a) \<and>
     (\<forall>w \<in> set ws. int (length (buckets w)) \<le> agg_maxKeys a))"

lemma contiguous_snoc:
  "contiguous (ws @ [w]) \<longleftrightarrow> contiguous ws \<and> (ws \<noteq> [] \<longrightarrow> w_end (last ws) = w_start w)"
  by (induction ws rule: contiguous.induct) auto

lemma set_update_pos:
  "wf_map m \<Longrightarrow> \<forall>e \<in> set m. 0 < snd e \<Longrightarrow> \<forall>e \<in> set (AList.update k (get_or 0 m k + 1) m). (0 :: int) < snd e"
proof
  fix e assume m: "wf_map m" "\<forall>e \<in> set m. 0 < snd e" and e: "e \<in> set (AList.update k (get_or 0 m k + 1) m)"
  have "map_of (AList.update k (get_or 0 m k + 1) m) (fst e) = Some (snd e)"
    using m(1) e in_set_map_of [of "AList.update k (get_or 0 m k + 1) m" "fst e" "snd e"] by (simp add: gomap)
  moreover have pos: "0 < v" if "map_of m i = Some v" for i v
    using m in_set_map_of [of m i v] that by fastforce
  ultimately show "0 < snd e"
    by (auto simp: gomap get_or_def split: if_splits option.splits dest: pos)
qed

lemma ensureStarted_fields [simp]:
  "counts (ensureStarted now a) = counts a" "ticks (ensureStarted now a) = ticks a"
  "failed (ensureStarted now a) = failed a" "agg_maxKeys (ensureStarted now a) = agg_maxKeys a"
  "started (ensureStarted now a)" "started a \<Longrightarrow> agg_start (ensureStarted now a) = agg_start a"
  by (simp_all add: ensureStarted_def)

lemma flush_fields [simp]:
  "buckets (snd (flush now a)) = fst (capConserved (counts a) (agg_maxKeys a))"
  "w_start (snd (flush now a)) = (if started a then agg_start a else now)" "w_end (snd (flush now a)) = now"
  "counts (fst (flush now a)) = []" "agg_maxKeys (fst (flush now a)) = agg_maxKeys a"
  "started (fst (flush now a))" "agg_start (fst (flush now a)) = now"
  by (simp_all add: flush_def split: prod.splits)

lemma ash_step_flush: "ash_step (a, ws) (FlushAt now) = (fst (flush now a), ws @ [snd (flush now a)])"
  by (simp split: prod.split)

interpretation agg: machine ash_step agg_inv
proof
  fix s c assume "agg_inv s"
  obtain a ws where s: "s = (a, ws)" by (cases s)
  note inv = \<open>agg_inv s\<close> [unfolded s agg_inv_def split_conv]
  show "agg_inv (ash_step s c)"
  proof (cases c)
    case (AddAt now dat st wet we qid)
    then show ?thesis using inv set_update_pos [of "counts a"]
      by (simp add: s agg_inv_def add_def Let_def gomap)
  next
    case (FlushAt now)
    have "int (length (fst (capConserved (counts a) (agg_maxKeys a)))) \<le> agg_maxKeys a"
      using capConserved_length inv by blast
    then show ?thesis using inv FlushAt
      by (auto simp del: ash_step.simps simp: s ash_step_flush agg_inv_def contiguous_snoc)
  qed (use inv in \<open>auto simp: s agg_inv_def tickFailed_def tickSucceeded_def Let_def\<close>)
qed

lemma agg_inv_new: "agg_inv (new_aggregator w n, [])"
  by (simp add: agg_inv_def new_aggregator_def)

text \<open>The samples closed and pending.\<close>

definition accounted :: "aggregator \<times> ash_window list \<Rightarrow> int" where
  "accounted s = sum_list (map (total \<circ> buckets) (snd s)) + sum_list (map snd (counts (fst s)))"

lemma accounted_step:
  assumes "agg_inv s"
  shows "accounted (ash_step s c) = accounted s + (if is_add c then 1 else 0)"
proof -
  obtain a ws where s: "s = (a, ws)" by (cases s)
  with assms have "wf_map (counts a)" and "total (fst (capConserved (counts a) (agg_maxKeys a))) = sum_list (map snd (counts a))"
    by (auto simp: agg_inv_def intro: capConserved_total)
  then show ?thesis
    by (cases c)
       (simp_all add: s accounted_def ash_step_flush add_def tickFailed_def tickSucceeded_def Let_def sum_list_add_count
         del: ash_step.simps(4))
qed

lemma accounted_run:
  "agg_inv s \<Longrightarrow> accounted (foldl ash_step s calls) = accounted s + int (length (filter is_add calls))"
  by (induction calls arbitrary: s) (auto simp: accounted_step agg.step_inv)

lemma agg_maxKeys_run: "agg_maxKeys (fst (foldl ash_step s calls)) = agg_maxKeys (fst s)"
proof (induction calls arbitrary: s)
  case (Cons c calls)
  have "agg_maxKeys (fst (ash_step s c)) = agg_maxKeys (fst s)"
    by (cases s; cases c)
       (simp_all add: add_def tickFailed_def tickSucceeded_def Let_def ash_step_flush del: ash_step.simps(4))
  with Cons show ?case by simp
qed simp

text \<open>
  C21. No sample is lost or counted twice over any run: from a new aggregator, after any sequence of
  samples, failed and successful ticks and flushes, the samples of the closed windows and the ones
  still pending add up to the samples added, the windows follow each other without gap or overlap,
  and none has more buckets than the cap.
\<close>

theorem windows_conserve_samples:
  "case foldl ash_step (new_aggregator w n, []) calls of (a, ws) \<Rightarrow>
     sum_list (map (total \<circ> buckets) ws) + sum_list (map snd (counts a)) = int (length (filter is_add calls)) \<and>
     contiguous ws \<and> list_all (\<lambda>w. int (length (buckets w)) \<le> max 1 n) ws"
proof -
  obtain a ws where run: "foldl ash_step (new_aggregator w n, []) calls = (a, ws)" by fastforce
  have "agg_maxKeys a = max 1 n"
    using agg_maxKeys_run [of "(new_aggregator w n, [])" calls] run by (simp add: new_aggregator_def max_def)
  with accounted_run [OF agg_inv_new, of w n calls] agg.run_inv [OF agg_inv_new, of w n calls] run
  show ?thesis by (simp add: accounted_def agg_inv_def list_all_iff new_aggregator_def)
qed

end
