(* ===== verification/Segment_File.thy ===== *)
theory Segment_File
  imports Prelude
begin

text \<open>
  One segment file of the disk buffer (\<^verbatim>\<open>internal/agent/buffer/buffer.go\<close>, \<^verbatim>\<open>type Segment\<close>). The file is
  its bytes; an append takes what the system calls answer as an argument, so a write that fails
  part-way and a truncation that fails are runs of the model. Reads of bytes that exist succeed.
  File sizes and offsets within a file are natural numbers, the length header is 32 bits wide.
\<close>

section \<open>Checksums and records\<close>

text \<open>CRC-32 with the Castagnoli polynomial, bit-reversed as \<^verbatim>\<open>hash/crc32\<close> computes it.\<close>

definition crc_shift :: "32 word \<Rightarrow> 32 word" where
  "crc_shift c = (if bit c 0 then drop_bit 1 c XOR 0x82F63B78 else drop_bit 1 c)"

definition crc_byte :: "32 word \<Rightarrow> byte \<Rightarrow> 32 word" where
  "crc_byte c b = (crc_shift ^^ 8) (c XOR ucast b)"

definition computeCRC32C :: "bytes \<Rightarrow> 32 word" where
  "computeCRC32C data = NOT (foldl crc_byte (NOT 0) data)"

definition record_bytes :: "bytes \<Rightarrow> bytes" where
  "record_bytes data = put_u32 (of_nat (length data)) @ put_u32 (computeCRC32C data) @ data"

section \<open>Segments\<close>

datatype ioerr = ENOSPC | EOther

record segment =
  seg_file :: bytes
  seg_id :: "32 word"
  createdAt :: time
  lastWrite :: time
  seg_maxSize :: int
  recordCount :: nat
  fileSize :: nat

text \<open>\<^verbatim>\<open>Truncate\<close> cuts a longer file and fills a shorter one with zeros.\<close>

definition truncate_file :: "nat \<Rightarrow> bytes \<Rightarrow> bytes" where
  "truncate_file n f = take n f @ replicate (n - length f) 0"

text \<open>The answers of the calls of one append; a failed write has written some of the bytes.\<close>

record append_io =
  io_stat :: "ioerr option"
  io_trunc :: "ioerr option"
  io_write :: "(nat \<times> ioerr) option"
  io_undo :: "ioerr option"

definition io_ok :: append_io where
  "io_ok = \<lparr>io_stat = None, io_trunc = None, io_write = None, io_undo = None\<rparr>"

definition seg_append :: "append_io \<Rightarrow> segment \<Rightarrow> bytes \<Rightarrow> segment \<times> ioerr option" where
  "seg_append io s data =
     (case io_stat io of
        Some e \<Rightarrow> (s, Some e)
      | None \<Rightarrow>
          (let stale = (length (seg_file s) \<noteq> fileSize s) in
           case (if stale then io_trunc io else None) of
             Some e \<Rightarrow> (s, Some e)
           | None \<Rightarrow>
               (let f = (if stale then truncate_file (fileSize s) (seg_file s) else seg_file s);
                    buf = record_bytes data
                in case io_write io of
                     Some (n, e) \<Rightarrow>
                       (let g = f @ take n buf
                        in (s\<lparr>seg_file := (if io_undo io = None then truncate_file (fileSize s) g else g)\<rparr>, Some e))
                   | None \<Rightarrow>
                       (s\<lparr>seg_file := f @ buf, recordCount := recordCount s + 1, fileSize := fileSize s + length buf\<rparr>, None))))"

definition wouldRoll :: "segment \<Rightarrow> nat \<Rightarrow> bool" where
  "wouldRoll s n =
     (let limit = (if seg_maxSize s \<le> 0 then 8 * 1024 * 1024 else seg_maxSize s)
      in limit < int (fileSize s) + int (n + 8))"

definition segmentSize :: "int \<Rightarrow> int" where
  "segmentSize n = (if 0 < n \<and> n < 8 * 1024 * 1024 then n else 8 * 1024 * 1024)"

definition touch :: "time \<Rightarrow> segment \<Rightarrow> segment" where
  "touch t s = s\<lparr>lastWrite := t\<rparr>"

text \<open>
  \<^verbatim>\<open>ReadAt\<close> returns the record, if any, and the offset after it. The end of the file and a skipped
  record both have no data; the offset stays for the first and moves for the second.
\<close>

definition readAt :: "segment \<Rightarrow> nat \<Rightarrow> bytes option \<times> nat" where
  "readAt s off =
     (let rest = drop off (seg_file s) in
      if length rest < 8 then (None, off)
      else
        (let len = get_u32 rest; crc = get_u32 (drop 4 rest) in
         if len = 0 then (None, off + 8)
         else if 0 < fileSize s \<and> int (fileSize s) - int off - 8 < uint len then (None, off)
         else
           (let data = take (unat len) (drop 8 rest) in
            if length data < unat len then (None, off)
            else if crc \<noteq> computeCRC32C data then (None, off + unat (8 + len))
            else (Some data, off + unat (8 + len)))))"

text \<open>\<^verbatim>\<open>recordsFrom\<close> counts the complete records at or after an offset.\<close>

function records_from :: "segment \<Rightarrow> nat \<Rightarrow> nat" where
  "records_from s off =
     (if off + 8 \<le> fileSize s \<and> off + 8 \<le> length (seg_file s) then
        (let nxt = off + 8 + unat (get_u32 (drop off (seg_file s)))
         in if fileSize s < nxt then 0 else Suc (records_from s nxt))
      else 0)"
  by pat_completeness auto
termination
  by (relation "measure (\<lambda>(s, off). fileSize s - off)") auto

text \<open>
  The walk of \<^verbatim>\<open>openSegment\<close>: from an offset with the end of the last record and the number of
  records so far, over a file of the given bytes.
\<close>

function open_walk :: "bytes \<Rightarrow> nat \<Rightarrow> nat \<Rightarrow> nat \<Rightarrow> nat \<times> nat" where
  "open_walk f off fin n =
     (if off + 8 \<le> length f then
        (let len = get_u32 (drop off f); nxt = off + 8 + unat len
         in if length f < nxt then (fin, n)
            else open_walk f nxt (if 0 < len then nxt else fin) (if 0 < len then n + 1 else n))
      else (fin, n))"
  by pat_completeness auto
termination
  by (relation "measure (\<lambda>(f, off, fin, n). length f - off)") auto

text \<open>\<^verbatim>\<open>Open\<close> sets the identifier and the size limit after the call; the result has the bytes cut.\<close>

definition openSegment :: "bytes \<Rightarrow> time \<Rightarrow> nat \<Rightarrow> segment \<times> nat" where
  "openSegment f mtime keep =
     (let start = min keep (length f);
          (fin, n) = open_walk f start start 0
      in (\<lparr>seg_file = truncate_file fin f, seg_id = 0, createdAt = mtime, lastWrite = mtime, seg_maxSize = 0,
           recordCount = n, fileSize = fin\<rparr>,
          length f - fin))"

declare records_from.simps [simp del]
declare open_walk.simps [simp del]

section \<open>What the bytes mean\<close>

text \<open>
  An item of a file is a header with a payload of the length it states: a record of the buffer, a
  record whose checksum does not match, or a zero header.
\<close>

type_synonym item = "32 word \<times> bytes"

definition item_bytes :: "item \<Rightarrow> bytes" where
  "item_bytes = (\<lambda>(crc, p). put_u32 (of_nat (length p)) @ put_u32 crc @ p)"

definition enc :: "item list \<Rightarrow> bytes" where
  "enc is = concat (map item_bytes is)"

definition item_ok :: "item \<Rightarrow> bool" where
  "item_ok i \<longleftrightarrow> length (snd i) + 8 < 2 ^ 32"

definition valid :: "item \<Rightarrow> bool" where
  "valid i \<longleftrightarrow> snd i \<noteq> [] \<and> fst i = computeCRC32C (snd i)"

text \<open>The records a reader gets from a sequence of items.\<close>

definition payloads :: "item list \<Rightarrow> bytes list" where
  "payloads is = map snd (filter valid is)"

text \<open>Bytes that hold no complete item: what a torn write leaves.\<close>

definition torn :: "bytes \<Rightarrow> bool" where
  "torn t \<longleftrightarrow> length t < 8 \<or> length t < 8 + unat (get_u32 t)"

function parse :: "bytes \<Rightarrow> item list" where
  "parse bs =
     (if torn bs then []
      else (get_u32 (drop 4 bs), take (unat (get_u32 bs)) (drop 8 bs)) # parse (drop (8 + unat (get_u32 bs)) bs))"
  by pat_completeness auto
termination
  by (relation "measure length") (auto simp: torn_def)

declare parse.simps [simp del]

lemma enc_simps [simp]: "enc [] = []" "enc (i # is) = item_bytes i @ enc is" "enc (is @ js) = enc is @ enc js"
  by (simp_all add: enc_def)

lemma payloads_simps [simp]:
  "payloads [] = []" "payloads (i # is) = (if valid i then snd i # payloads is else payloads is)"
  "payloads (is @ js) = payloads is @ payloads js"
  by (simp_all add: payloads_def)

lemma length_item_bytes [simp]: "length (item_bytes i) = 8 + length (snd i)"
  by (cases i) (simp add: item_bytes_def)

lemma item_header [simp]: "item_ok i \<Longrightarrow> unat (of_nat (length (snd i)) :: 32 word) = length (snd i)"
  by (simp add: item_ok_def unsigned_of_nat take_bit_nat_eq_self)

lemma item_header_zero [simp]: "item_ok i \<Longrightarrow> (of_nat (length (snd i)) :: 32 word) = 0 \<longleftrightarrow> snd i = []"
  using item_header [of i] by (metis length_0_conv unat_eq_zero)

lemma get_item_bytes:
  "get_u32 (item_bytes i @ t) = of_nat (length (snd i))"
  "get_u32 (drop 4 (item_bytes i @ t)) = fst i"
  "drop 8 (item_bytes i @ t) = snd i @ t"
  "drop (8 + length (snd i)) (item_bytes i @ t) = t"
  by (cases i; simp add: item_bytes_def)+

lemma torn_Nil [simp]: "torn []"
  by (simp add: torn_def)

lemma not_torn_item: "item_ok i \<Longrightarrow> \<not> torn (item_bytes i @ t)"
  by (simp add: torn_def get_item_bytes)

lemma parse_item: "item_ok i \<Longrightarrow> parse (item_bytes i @ t) = i # parse t"
  by (subst parse.simps) (simp add: not_torn_item get_item_bytes del: drop_append)

lemma parse_enc: "\<forall>i \<in> set is. item_ok i \<Longrightarrow> torn t \<Longrightarrow> parse (enc is @ t) = is"
  by (induction "is") (simp_all add: parse_item, simp add: parse.simps)

lemma parse_enc' [simp]: "\<forall>i \<in> set is. item_ok i \<Longrightarrow> parse (enc is) = is"
  using parse_enc [of "is" "[]"] by simp

lemma record_bytes_item: "record_bytes data = item_bytes (computeCRC32C data, data)"
  by (simp add: record_bytes_def item_bytes_def)

lemma torn_record_prefix:
  assumes "length data + 8 < 2 ^ 32" and "n < length (record_bytes data)"
  shows "torn (take n (record_bytes data))"
proof (cases "n < 8")
  case False
  have "take n (record_bytes data) = put_u32 (of_nat (length data)) @ drop 4 (take n (record_bytes data))"
    using False by (simp add: record_bytes_def take_append drop_take)
  then have "get_u32 (take n (record_bytes data)) = of_nat (length data)" by (metis get_put_u32)
  then show ?thesis
    using assms item_header [of "(computeCRC32C data, data)"] False
    by (simp add: torn_def item_ok_def record_bytes_item)
qed (auto simp: torn_def)

section \<open>The segment invariant\<close>

text \<open>
  The first \<open>fileSize\<close> bytes are the body, what follows them is torn. \<open>boundary\<close> says that from an
  offset on the body is a sequence of items, the ones \<open>seg_items\<close> gives; \<open>counted\<close> that the record
  count is the number of records from there on. The bytes before are of no concern: after a restart
  they are not walked.
\<close>

definition seg_body :: "segment \<Rightarrow> bytes" where
  "seg_body s = take (fileSize s) (seg_file s)"

definition seg_items :: "segment \<Rightarrow> nat \<Rightarrow> item list" where
  "seg_items s off = parse (drop off (seg_body s))"

definition boundary :: "segment \<Rightarrow> nat \<Rightarrow> bool" where
  "boundary s off \<longleftrightarrow> off \<le> fileSize s \<and> (\<exists>is. drop off (seg_body s) = enc is \<and> (\<forall>i \<in> set is. item_ok i))"

definition seg_ok :: "segment \<Rightarrow> bool" where
  "seg_ok s \<longleftrightarrow> fileSize s \<le> length (seg_file s) \<and> torn (drop (fileSize s) (seg_file s))"

definition records_in :: "item list \<Rightarrow> nat" where
  "records_in is = length (filter (\<lambda>i. snd i \<noteq> []) is)"

definition counted :: "segment \<Rightarrow> nat \<Rightarrow> bool" where
  "counted s off \<longleftrightarrow> boundary s off \<and> recordCount s = records_in (seg_items s off)"

lemma records_in_simps [simp]:
  "records_in [] = 0" "records_in (i # is) = (if snd i = [] then records_in is else Suc (records_in is))"
  "records_in (is @ js) = records_in is + records_in js"
  by (simp_all add: records_in_def)

lemma boundaryD:
  assumes "boundary s off"
  shows "drop off (seg_body s) = enc (seg_items s off)" "\<forall>i \<in> set (seg_items s off). item_ok i" "off \<le> fileSize s"
  using assms by (auto simp: boundary_def seg_items_def)

lemma boundaryI:
  "off \<le> fileSize s \<Longrightarrow> drop off (seg_body s) = enc is \<Longrightarrow> \<forall>i \<in> set is. item_ok i \<Longrightarrow> boundary s off \<and> seg_items s off = is"
  by (auto simp: boundary_def seg_items_def)

lemma boundary_end: "seg_ok s \<Longrightarrow> boundary s (fileSize s)"
  by (auto simp: boundary_def seg_body_def intro!: exI [of _ "[]"])

lemma length_seg_body [simp]: "seg_ok s \<Longrightarrow> length (seg_body s) = fileSize s"
  by (simp add: seg_body_def seg_ok_def)

lemma boundary_next:
  assumes "seg_ok s" and "boundary s off" and "seg_items s off = i # is"
  shows "boundary s (off + 8 + length (snd i))" "seg_items s (off + 8 + length (snd i)) = is"
proof -
  have e: "drop off (seg_body s) = item_bytes i @ enc is" "\<forall>j \<in> set (i # is). item_ok j"
    using boundaryD [OF assms(2)] assms(3) by simp_all
  have "drop (off + 8 + length (snd i)) (seg_body s) = drop (8 + length (snd i)) (drop off (seg_body s))"
    by (simp add: drop_drop add.commute add.left_commute)
  with e have d: "drop (off + 8 + length (snd i)) (seg_body s) = enc is" by (simp add: get_item_bytes del: drop_append drop_drop)
  have "length (seg_body s) - off = 8 + length (snd i) + length (enc is)"
    using arg_cong [OF e(1), of length] by simp
  then have "off + 8 + length (snd i) \<le> fileSize s" using assms(1) by simp
  with d e show "boundary s (off + 8 + length (snd i))" by (auto simp: boundary_def)
  from d e show "seg_items s (off + 8 + length (snd i)) = is" by (simp add: seg_items_def)
qed

lemma boundary_all_read:
  assumes "seg_ok s" and "boundary s off" and "seg_items s off = []"
  shows "off = fileSize s"
  using boundaryD [OF assms(2)] assms length_seg_body [OF assms(1)] by auto

text \<open>What a read at an item finds.\<close>

lemma readAt_item:
  assumes "seg_ok s" and "boundary s off" and "seg_items s off = i # is"
  shows "readAt s off = (if valid i then Some (snd i) else None, off + 8 + length (snd i))"
proof -
  have e: "drop off (seg_body s) = item_bytes i @ enc is" and ok: "item_ok i"
    using boundaryD [OF assms(2)] assms(3) by auto
  have rest: "drop off (seg_file s) = item_bytes i @ enc is @ drop (fileSize s) (seg_file s)"
  proof -
    have "seg_file s = seg_body s @ drop (fileSize s) (seg_file s)" by (simp add: seg_body_def)
    then have "drop off (seg_file s) = drop off (seg_body s) @ drop (fileSize s) (seg_file s)"
      using assms(1) boundaryD(3) [OF assms(2)] length_seg_body [OF assms(1)] by (metis append_Nil diff_is_0_eq' drop_0 drop_append)
    with e show ?thesis by simp
  qed
  have "length (drop off (seg_body s)) = 8 + length (snd i) + length (enc is)" using e by simp
  then have size: "off + 8 + length (snd i) \<le> fileSize s" using assms(1) boundaryD(3) [OF assms(2)] by simp
  have len: "unat (of_nat (length (snd i)) :: 32 word) = length (snd i)"
       "unat (8 + of_nat (length (snd i)) :: 32 word) = 8 + length (snd i)"
    using ok item_header [OF ok] unfolding item_ok_def
    by (simp_all add: unat_word_ariths)

  have uint: "uint (of_nat (length (snd i)) :: 32 word) = int (length (snd i))" using len(1) by (metis uint_nat)
  show ?thesis
    unfolding readAt_def Let_def rest using size
    by (simp add: get_item_bytes len ok uint valid_def del: drop_append)
qed

lemma readAt_end:
  assumes "seg_ok s" and "boundary s off" and "seg_items s off = []"
  shows "readAt s off = (None, off)"
proof -
  have off: "off = fileSize s" using boundary_all_read [OF assms] .
  let ?t = "drop (fileSize s) (seg_file s)"
  have t: "length ?t < 8 \<or> length ?t < 8 + unat (get_u32 ?t)" using assms(1) by (simp add: seg_ok_def torn_def)
  show ?thesis
  proof (cases "length ?t < 8")
    case False
    then have len: "length ?t < 8 + unat (get_u32 ?t)" using t by simp
    with False have "get_u32 ?t \<noteq> 0" by auto
    moreover have "length ?t - 8 < unat (get_u32 ?t)" using len False by simp
    moreover have "0 < uint (get_u32 ?t)" using \<open>get_u32 ?t \<noteq> 0\<close> by (simp add: word_neq_0_conv word_less_def)
    ultimately show ?thesis using False unfolding readAt_def Let_def off by (cases "fileSize s = 0") simp_all
  qed (simp add: readAt_def off)
qed

lemma seg_items_end: "seg_ok s \<Longrightarrow> seg_items s (fileSize s) = []"
  by (simp add: seg_items_def parse.simps)

lemma records_from_eq:
  assumes "seg_ok s" and "boundary s off"
  shows "records_from s off = length (seg_items s off)"
  using assms(2)
proof (induction "seg_items s off" arbitrary: off)
  case Nil
  then have "off = fileSize s" using boundary_all_read [OF assms(1)] by simp
  with Nil show ?case by (subst records_from.simps) simp
next
  case (Cons i "is")
  note nxt = boundary_next [OF assms(1) Cons.prems Cons.hyps(2) [symmetric]]
  have e: "drop off (seg_body s) = item_bytes i @ enc is" and ok: "item_ok i"
    using boundaryD [OF Cons.prems] Cons.hyps(2) [symmetric] by auto
  have size: "off + 8 + length (snd i) \<le> fileSize s" using boundaryD(3) [OF nxt(1)] .
  have "get_u32 (drop off (seg_file s)) = of_nat (length (snd i))"
  proof -
    have "seg_file s = seg_body s @ drop (fileSize s) (seg_file s)" by (simp add: seg_body_def)
    then have "drop off (seg_file s) = drop off (seg_body s) @ drop (fileSize s) (seg_file s)"
      using assms(1) size length_seg_body [OF assms(1)] by (metis add_leD1 append_Nil diff_is_0_eq' drop_0 drop_append)
    with e show ?thesis by (simp add: get_item_bytes)
  qed
  moreover have "fileSize s \<le> length (seg_file s)" using assms(1) by (simp add: seg_ok_def)
  ultimately have "records_from s off = Suc (records_from s (off + 8 + length (snd i)))"
    using size ok by (subst records_from.simps) simp
  then show ?case using Cons.hyps(1) [OF nxt(2) [symmetric] nxt(1)] Cons.hyps(2) nxt(2) by (metis length_Cons)
qed

section \<open>Appending\<close>

text \<open>A failed write has written fewer bytes than the record has.\<close>

definition io_sane :: "append_io \<Rightarrow> bytes \<Rightarrow> bool" where
  "io_sane io data \<longleftrightarrow> (case io_write io of None \<Rightarrow> True | Some (n, _) \<Rightarrow> n < length (record_bytes data))"

lemma truncate_append [simp]: "length b = n \<Longrightarrow> truncate_file n (b @ t) = b"
  by (simp add: truncate_file_def)

lemma seg_append_file:
  assumes "seg_ok s" and "seg_append io s data = (s', err)"
  shows "(\<exists>t. err \<noteq> None \<and> s' = s\<lparr>seg_file := seg_body s @ t\<rparr> \<and>
       (t = [] \<or> t = drop (fileSize s) (seg_file s) \<or>
        (\<exists>n e. io_write io = Some (n, e) \<and> t = take n (record_bytes data)))) \<or>
    (err = None \<and> s' = s\<lparr>seg_file := seg_body s @ record_bytes data, recordCount := recordCount s + 1,
       fileSize := fileSize s + length (record_bytes data)\<rparr>)"
proof -
  have "seg_file s = seg_body s @ drop (fileSize s) (seg_file s)" by (simp add: seg_body_def)
  then have same: "s = s\<lparr>seg_file := seg_body s @ drop (fileSize s) (seg_file s)\<rparr>" by simp
  have f: "(if length (seg_file s) \<noteq> fileSize s then truncate_file (fileSize s) (seg_file s) else seg_file s) = seg_body s"
    using assms(1) by (auto simp: seg_body_def truncate_file_def seg_ok_def)
  show ?thesis
    using assms(2) same length_seg_body [OF assms(1)]
    by (auto simp: seg_append_def Let_def f [simplified] split: option.splits if_splits prod.splits)
       (metis append_Nil2)+
qed

lemma seg_body_update [simp]:
  "seg_ok s \<Longrightarrow> seg_body (s\<lparr>seg_file := seg_body s @ t\<rparr>) = seg_body s"
  "seg_ok s \<Longrightarrow> length r = n \<Longrightarrow>
     seg_body (s\<lparr>seg_file := seg_body s @ r, recordCount := c, fileSize := fileSize s + n\<rparr>) = seg_body s @ r"
  using length_seg_body [of s] unfolding seg_body_def by simp_all

text \<open>What an append does to the segment, whatever the system calls answer.\<close>

lemma seg_append_ok:
  assumes "seg_ok s" and "length data + 8 < 2 ^ 32" and "io_sane io data" and "seg_append io s data = (s', err)"
  shows "seg_ok s'" and "boundary s off \<Longrightarrow> boundary s' off"
    and "boundary s off \<Longrightarrow> seg_items s' off = seg_items s off @ (if err = None then [(computeCRC32C data, data)] else [])"
    and "fileSize s' = fileSize s + (if err = None then length data + 8 else 0)"
    and "recordCount s' = recordCount s + (if err = None then 1 else 0)"
    and "seg_id s' = seg_id s" and "createdAt s' = createdAt s" and "lastWrite s' = lastWrite s"
    and "seg_maxSize s' = seg_maxSize s"
proof -
  let ?i = "(computeCRC32C data, data)"
  have iok: "item_ok ?i" using assms(2) by (simp add: item_ok_def)
  consider (fail) t where "err \<noteq> None" "s' = s\<lparr>seg_file := seg_body s @ t\<rparr>" "torn t"
    | (ok) "err = None" "s' = s\<lparr>seg_file := seg_body s @ item_bytes ?i, recordCount := recordCount s + 1,
         fileSize := fileSize s + length (item_bytes ?i)\<rparr>"
    using seg_append_file [OF assms(1,4)] assms(1,3) torn_record_prefix [OF assms(2)]
    by (fastforce simp: seg_ok_def io_sane_def record_bytes_item)
  note cases = this
  have "seg_ok s' \<and> (boundary s off \<longrightarrow> boundary s' off \<and>
      seg_items s' off = seg_items s off @ (if err = None then [?i] else [])) \<and>
      fileSize s' = fileSize s + (if err = None then length data + 8 else 0) \<and>
      recordCount s' = recordCount s + (if err = None then 1 else 0) \<and> seg_id s' = seg_id s \<and>
      createdAt s' = createdAt s \<and> lastWrite s' = lastWrite s \<and> seg_maxSize s' = seg_maxSize s" for off
  proof (cases rule: cases)
    case fail
    then show ?thesis using assms(1) by (auto simp: seg_ok_def boundary_def seg_items_def)
  next
    case ok
    have body: "seg_body s' = seg_body s @ item_bytes ?i" unfolding ok(2) using assms(1) by simp
    have "boundary s' off \<and> seg_items s' off = seg_items s off @ [?i]" if "boundary s off"
    proof -
      have "drop off (seg_body s') = enc (seg_items s off @ [?i])"
        using boundaryD(1,3) [OF that] assms(1) unfolding body by simp
      moreover have "\<forall>i \<in> set (seg_items s off @ [?i]). item_ok i" using boundaryD(2) [OF that] iok by simp
      moreover have "off \<le> fileSize s'" using boundaryD(3) [OF that] ok(2) by simp
      ultimately show ?thesis by (intro boundaryI)
    qed
    then show ?thesis using ok length_seg_body [OF assms(1)] by (auto simp: seg_ok_def)
  qed
  then show "seg_ok s'" "boundary s off \<Longrightarrow> boundary s' off"
    "boundary s off \<Longrightarrow> seg_items s' off = seg_items s off @ (if err = None then [(computeCRC32C data, data)] else [])"
    "fileSize s' = fileSize s + (if err = None then length data + 8 else 0)"
    "recordCount s' = recordCount s + (if err = None then 1 else 0)"
    "seg_id s' = seg_id s" "createdAt s' = createdAt s" "lastWrite s' = lastWrite s" "seg_maxSize s' = seg_maxSize s"
    by simp_all
qed

lemma seg_append_counted:
  assumes "seg_ok s" and "length data + 8 < 2 ^ 32" and "data \<noteq> []" and "io_sane io data"
    and "seg_append io s data = (s', err)" and "counted s off"
  shows "counted s' off"
  using assms seg_append_ok [OF assms(1,2,4,5)] by (auto simp: counted_def)

text \<open>
  C17. A failed append never damages a segment: whatever part of the record reaches the file before
  the write fails, and whether or not the truncation that follows works, every record that was
  readable still is, at the same offset, nothing else is, and the segment is ready for the next
  append. An append that reports success adds exactly its record.
\<close>

theorem append_never_damages:
  assumes "seg_ok s" and "boundary s off" and "length data + 8 < 2 ^ 32" and "io_sane io data"
    and "seg_append io s data = (s', err)"
  shows "seg_ok s' \<and> boundary s' off \<and>
    payloads (seg_items s' off) = payloads (seg_items s off) @ (if err = None \<and> data \<noteq> [] then [data] else [])"
  using seg_append_ok [OF assms(1,3-5)] assms(2) by (auto simp: valid_def)

definition empty_segment :: segment where
  "empty_segment = \<lparr>seg_file = [], seg_id = 0, createdAt = 0, lastWrite = 0, seg_maxSize = 100, recordCount = 0, fileSize = 0\<rparr>"

lemma empty_segment_ok: "seg_ok empty_segment" "boundary empty_segment 0" "seg_items empty_segment 0 = []"
  by (auto simp: seg_ok_def boundary_def empty_segment_def seg_body_def seg_items_def parse.simps intro!: exI [of _ "[]"])

lemma append_never_damages_witness:
  "payloads (seg_items (fst (seg_append (io_ok\<lparr>io_write := Some (9, ENOSPC)\<rparr>) empty_segment [7, 7])) 0) = []"
  using append_never_damages [of empty_segment 0 "[7, 7]" "io_ok\<lparr>io_write := Some (9, ENOSPC)\<rparr>"
      "fst (seg_append (io_ok\<lparr>io_write := Some (9, ENOSPC)\<rparr>) empty_segment [7, 7])" "Some ENOSPC"]
    empty_segment_ok
  by (simp add: io_sane_def io_ok_def record_bytes_def seg_append_def empty_segment_def Let_def)

text \<open>
  C18. What an append stored is what a read at the old end of the segment returns, checksum included,
  and the read ends where the next record will start.
\<close>

theorem append_read_roundtrip:
  assumes "seg_ok s" and "data \<noteq> []" and "length data + 8 < 2 ^ 32" and "io_sane io data"
    and "seg_append io s data = (s', None)"
  shows "readAt s' (fileSize s) = (Some data, fileSize s')"
proof -
  note ok = seg_append_ok [OF assms(1,3-5)]
  have "seg_items s' (fileSize s) = [(computeCRC32C data, data)]"
    using ok(3) [OF boundary_end [OF assms(1)]] seg_items_end [OF assms(1)] by simp
  from readAt_item [OF ok(1) ok(2) [OF boundary_end [OF assms(1)]] this]
  show ?thesis using assms(2) ok(4) by (simp add: valid_def)
qed

lemma append_read_roundtrip_witness:
  "readAt (fst (seg_append io_ok empty_segment [1, 2, 3])) 0 = (Some [1, 2, 3], 11)"
  using append_read_roundtrip [of empty_segment "[1, 2, 3]" io_ok "fst (seg_append io_ok empty_segment [1, 2, 3])"]
    empty_segment_ok
  by (simp add: io_sane_def io_ok_def record_bytes_def seg_append_def empty_segment_def Let_def)

section \<open>Opening\<close>

text \<open>The items without the zero headers at the end.\<close>

fun strip :: "item list \<Rightarrow> item list" where
  "strip [] = []"
| "strip (i # is) = (if snd i = [] \<and> strip is = [] then [] else i # strip is)"

lemma strip_facts [simp]: "payloads (strip is) = payloads is" "records_in (strip is) = records_in is"
  "\<forall>i \<in> set is. item_ok i \<Longrightarrow> \<forall>i \<in> set (strip is). item_ok i"
  "records_in is = 0 \<Longrightarrow> strip is = []"
  by (induction "is") (auto simp: valid_def split: if_splits)

lemma strip_Nil: "strip is = [] \<Longrightarrow> records_in is = 0"
  by (metis records_in_simps(1) strip_facts(2))

lemma strip_prefix: "\<exists>js. is = strip is @ js"
  by (induction "is") auto

lemma strip_id: "is = [] \<or> snd (last is) \<noteq> [] \<Longrightarrow> strip is = is"
proof (induction "is")
  case (Cons i "is")
  then show ?case by (cases "is") (auto split: if_splits)
qed simp

lemma open_walk_items:
  assumes "\<forall>i \<in> set is. item_ok i" and "torn t" and "drop off f = enc is @ t" and "off \<le> length f"
  shows "open_walk f off fin n =
    (if records_in is = 0 then fin else off + length (enc (strip is)), n + records_in is)"
  using assms
proof (induction "is" arbitrary: off fin n)
  case Nil
  then have "torn (drop off f)" by simp
  then have "length f < off + 8 \<or> length f < off + 8 + unat (get_u32 (drop off f))"
    by (auto simp: torn_def)
  then show ?case by (subst open_walk.simps) (auto simp: Let_def)
next
  case (Cons i "is")
  let ?nxt = "off + 8 + length (snd i)"
  have ok: "item_ok i" using Cons.prems(1) by simp
  have d: "drop off f = item_bytes i @ enc is @ t" using Cons.prems(3) by simp
  have len: "get_u32 (drop off f) = of_nat (length (snd i))" unfolding d by (simp add: get_item_bytes)
  have "length f - off = 8 + length (snd i) + length (enc is @ t)" using arg_cong [OF d, of length] by simp
  then have size: "?nxt \<le> length f" using Cons.prems(4) by simp
  have zero: "(0 :: 32 word) < of_nat (length (snd i)) \<longleftrightarrow> snd i \<noteq> []"
    using ok by (simp add: word_gt_0)
  have "drop ?nxt f = drop (8 + length (snd i)) (drop off f)" by (simp add: drop_drop add.commute add.left_commute)
  then have d': "drop ?nxt f = enc is @ t" unfolding d by (simp add: get_item_bytes del: drop_append)
  have step: "open_walk f off fin n = open_walk f ?nxt (if snd i \<noteq> [] then ?nxt else fin) (if snd i \<noteq> [] then n + 1 else n)"
    using size ok by (subst open_walk.simps) (simp add: len zero Let_def)
  show ?case unfolding step using Cons.IH [OF _ Cons.prems(2) d' size] Cons.prems(1) strip_Nil [of "is"] by auto
qed

text \<open>Any bytes are items followed by a torn rest.\<close>

lemma put_get_u32: "4 \<le> length bs \<Longrightarrow> put_u32 (get_u32 bs) = take 4 bs"
proof -
  assume "4 \<le> length bs"
  then obtain a b c d r where bs: "bs = a # b # c # d # r"
    by (auto simp: Suc_le_length_iff numeral_eq_Suc)
  show ?thesis unfolding bs put_u32_def
    by (auto intro!: bit_word_eqI simp: bit_simps) (drule bit_imp_le_length, simp)+
qed

lemma parse_decompose:
  assumes "length bs < 2 ^ 32"
  shows "\<exists>t. bs = enc (parse bs) @ t \<and> torn t \<and> (\<forall>i \<in> set (parse bs). item_ok i)"
  using assms
proof (induction bs rule: parse.induct)
  case (1 bs)
  show ?case
  proof (cases "torn bs")
    case True
    then show ?thesis by (simp add: parse.simps)
  next
    case False
    let ?n = "unat (get_u32 bs)" and ?i = "(get_u32 (drop 4 bs), take (unat (get_u32 bs)) (drop 8 bs))"
    have size: "8 + ?n \<le> length bs" using False by (simp add: torn_def)
    have "item_bytes ?i = put_u32 (get_u32 bs) @ put_u32 (get_u32 (drop 4 bs)) @ take ?n (drop 8 bs)"
      using size by (simp add: item_bytes_def)
    also have "\<dots> = take 4 bs @ take 4 (drop 4 bs) @ take ?n (drop 8 bs)"
      using size by (simp add: put_get_u32)
    also have "\<dots> = take (8 + ?n) bs"
      using take_add [of 4 "4 + ?n" bs] take_add [of 4 ?n "drop 4 bs"] by simp
    finally have i: "item_bytes ?i = take (8 + ?n) bs" .
    have iok: "item_ok ?i" using size 1(2) by (simp add: item_ok_def)
    obtain t where t: "drop (8 + ?n) bs = enc (parse (drop (8 + ?n) bs)) @ t" "torn t"
        "\<forall>i \<in> set (parse (drop (8 + ?n) bs)). item_ok i"
    proof -
      have "length (drop (8 + ?n) bs) < 2 ^ 32" using 1(2) by (simp add: less_imp_diff_less)
      from 1(1) [OF False this] show ?thesis using that by blast
    qed
    have p: "parse bs = ?i # parse (drop (8 + ?n) bs)" using False by (subst parse.simps) simp
    have "bs = take (8 + ?n) bs @ drop (8 + ?n) bs" by (rule append_take_drop_id [symmetric])
    also have "\<dots> = enc (parse bs) @ t" unfolding p enc_simps i by (subst t(1)) simp
    finally have bs: "bs = enc (parse bs) @ t" .
    have "\<forall>i \<in> set (parse bs). item_ok i" unfolding p using t(3) iok by simp
    with bs t(2) show ?thesis by blast
  qed
qed

text \<open>What is found from the checkpoint's offset on in the bytes of a file.\<close>

definition found :: "bytes \<Rightarrow> nat \<Rightarrow> item list" where
  "found f keep = parse (drop (min keep (length f)) f)"

lemma openSegment_eq:
  assumes "length f < 2 ^ 32" and "openSegment f mtime keep = (s, c)"
  defines "start \<equiv> min keep (length f)"
  shows "seg_file s = take start f @ enc (strip (found f keep))" "fileSize s = length (seg_file s)"
    "recordCount s = records_in (found f keep)" "createdAt s = mtime" "lastWrite s = mtime"
    "fileSize s + c = length f" "\<exists>t. f = seg_file s @ t \<and> records_in (parse t) = 0"
    "\<forall>i \<in> set (found f keep). item_ok i"
proof -
  define "is" where "is = found f keep"
  define pre where "pre = take start f"
  obtain t where t: "drop start f = enc is @ t" "torn t" "\<forall>i \<in> set is. item_ok i"
  proof -
    have "length (drop start f) < 2 ^ 32" using assms(1) by (simp add: less_imp_diff_less)
    from parse_decompose [OF this] show ?thesis using that by (auto simp: is_def found_def start_def)
  qed
  obtain js where js: "is = strip is @ js" using strip_prefix by blast
  let ?fin = "start + length (enc (strip is))"
  have walk: "open_walk f start start 0 = (?fin, records_in is)"
  proof -
    show ?thesis using open_walk_items [OF t(3,2,1), of start 0] by (simp add: start_def)
  qed
  have pre: "length pre = start" by (simp add: pre_def start_def)
  have "enc is = enc (strip is) @ enc js" using arg_cong [OF js, of enc] by simp
  then have f: "f = pre @ enc (strip is) @ enc js @ t"
    using t(1) append_take_drop_id [of start f] unfolding pre_def by (metis append.assoc)
  have len: "length f = ?fin + length (enc js @ t)" using arg_cong [OF f, of length] pre by simp
  have cut: "truncate_file ?fin f = pre @ enc (strip is)"
    unfolding f using truncate_append [of "pre @ enc (strip is)" ?fin "enc js @ t"] pre by simp
  have s: "s = \<lparr>seg_file = pre @ enc (strip is), seg_id = 0, createdAt = mtime, lastWrite = mtime,
      seg_maxSize = 0, recordCount = records_in is, fileSize = ?fin\<rparr>" "c = length f - ?fin"
    using assms(2) walk cut by (simp_all add: openSegment_def start_def [symmetric])
  show "seg_file s = take start f @ enc (strip (found f keep))" using s(1) by (simp add: pre_def is_def)
  show "fileSize s = length (seg_file s)" "createdAt s = mtime" "lastWrite s = mtime"
    using s(1) pre by simp_all
  show "recordCount s = records_in (found f keep)" using s(1) by (simp add: is_def)
  show "fileSize s + c = length f" using s len by simp
  have "records_in js = 0" using arg_cong [OF js, of records_in] by simp
  moreover have "parse (enc js @ t) = js"
  proof (rule parse_enc [OF _ t(2)])
    show "\<forall>i \<in> set js. item_ok i" using t(3) arg_cong [OF js, of set] by auto
  qed
  moreover have "f = seg_file s @ enc js @ t" using f s(1) by simp
  ultimately show "\<exists>t. f = seg_file s @ t \<and> records_in (parse t) = 0" by (intro exI [of _ "enc js @ t"]) simp
  show "\<forall>i \<in> set (found f keep). item_ok i" using t(3) by (simp add: is_def)
qed

lemma openSegment_ok:
  assumes "length f < 2 ^ 32" and "openSegment f mtime keep = (s, c)"
  shows "seg_ok s" "counted s (min keep (length f))" "seg_items s (min keep (length f)) = strip (found f keep)"
proof -
  note eq = openSegment_eq [OF assms]
  show ok: "seg_ok s" using eq(2) by (simp add: seg_ok_def)
  have "boundary s (min keep (length f)) \<and> seg_items s (min keep (length f)) = strip (found f keep)"
  proof (rule boundaryI)
    show "min keep (length f) \<le> fileSize s" using eq(1,2) by simp
    show "drop (min keep (length f)) (seg_body s) = enc (strip (found f keep))"
      using eq(1,2) by (simp add: seg_body_def)
    show "\<forall>i \<in> set (strip (found f keep)). item_ok i" using eq(8) by (rule strip_facts)
  qed
  then show "counted s (min keep (length f))" "seg_items s (min keep (length f)) = strip (found f keep)"
    using eq(3) by (simp_all add: counted_def)
qed

definition torn_file :: bytes where
  "torn_file = [2, 0, 0, 0, 9, 9, 9, 9, 5, 6, 0, 0, 0, 0, 0, 0, 0, 0, 4, 0]"

text \<open>
  C16. Opening a file recovers it, whatever bytes a crash left: the segment is a prefix of the file,
  the bytes cut are the rest of it, every record found from the checkpoint on is there to be read,
  none of the bytes cut held a record with a payload, and the segment is ready for appends.
\<close>

theorem openSegment_recovers:
  assumes "length f < 2 ^ 32" and "openSegment f mtime keep = (s, c)"
  shows "seg_ok s \<and> counted s (min keep (length f)) \<and>
    payloads (seg_items s (min keep (length f))) = payloads (found f keep) \<and>
    (\<exists>t. f = seg_file s @ t \<and> length t = c \<and> records_in (parse t) = 0)"
proof -
  note eq = openSegment_eq [OF assms] and ok = openSegment_ok [OF assms]
  obtain t where t: "f = seg_file s @ t" "records_in (parse t) = 0" using eq(7) by blast
  have "length t = c" using eq(2,6) arg_cong [OF t(1), of length] by simp
  with t have "\<exists>t. f = seg_file s @ t \<and> length t = c \<and> records_in (parse t) = 0" by blast
  then show ?thesis using ok by (simp add: ok(3))
qed

lemma openSegment_recovers_witness:
  "payloads (seg_items (fst (openSegment torn_file 0 0)) 0) = payloads (found torn_file 0)"
  using openSegment_recovers [of torn_file 0 0 "fst (openSegment torn_file 0 0)" "snd (openSegment torn_file 0 0)"]
  by (simp add: torn_file_def)

end
