(* ===== verification/Disk_Buffer.thy ===== *)
theory Disk_Buffer
  imports Segment_File
begin

text \<open>
  The durable queue of the agent (\<^verbatim>\<open>internal/agent/buffer/buffer.go\<close>, \<^verbatim>\<open>type Buffer\<close>): segment files in
  one directory and the checkpoint file \<^verbatim>\<open>.acked\<close>.

  The buffer's record has the fields of the Go struct and the content of the checkpoint file; the
  files of the segments are the bytes of their records. What the file system answers is an argument
  of each operation. The clock reads one instant during an operation, the argument \<open>now\<close>. A removed
  segment file is gone. An \<^verbatim>\<open>AckFunc\<close> is the pair it captures, the segment's identifier and the offset
  after the record.
\<close>

section \<open>State\<close>

datatype buf_err = EmptyRecord | BadName string | Io ioerr

record buf_stats =
  bytesUsed :: int
  st_segments :: int
  samplesDropped :: "(string, int) gomap"
  corruptRecords :: int
  cutBytes :: int
  bufferFull :: bool
  lastDropTime :: "time option"
  lastCorruptTime :: "time option"

record buffer =
  opt_maxSize :: int
  opt_maxAge :: duration
  segments :: "segment list"
  nextSegID :: "32 word"
  nextReadSeg :: nat
  nextReadOff :: nat
  ackedSegID :: "32 word"
  ackedOff :: nat
  stats :: buf_stats
  acked_file :: "bytes option"

type_synonym ack_token = "32 word \<times> nat"

section \<open>Helpers\<close>

definition newSegment :: "ioerr option \<Rightarrow> time \<Rightarrow> buffer \<Rightarrow> buffer \<times> (ioerr + segment)" where
  "newSegment create now b =
     (let segID = nextSegID b; b1 = b\<lparr>nextSegID := nextSegID b + 1\<rparr> in
      case create of
        Some e \<Rightarrow> (b1, Inl e)
      | None \<Rightarrow>
          (b1\<lparr>stats := (stats b1)\<lparr>st_segments := st_segments (stats b1) + 1\<rparr>\<rparr>,
           Inr \<lparr>seg_file = [], seg_id = segID, createdAt = now, lastWrite = now,
                seg_maxSize = segmentSize (opt_maxSize b), recordCount = 0, fileSize = 0\<rparr>))"

definition handleWriteError :: "ioerr \<Rightarrow> buffer \<Rightarrow> buffer" where
  "handleWriteError e b = (if e = ENOSPC then b\<lparr>stats := (stats b)\<lparr>bufferFull := True\<rparr>\<rparr> else b)"

definition recalculateStats :: "buffer \<Rightarrow> buffer" where
  "recalculateStats b = b\<lparr>stats := (stats b)\<lparr>bytesUsed := sum_list (map (int \<circ> fileSize) (segments b))\<rparr>\<rparr>"

definition unackedRecords :: "buffer \<Rightarrow> segment \<Rightarrow> nat" where
  "unackedRecords b s =
     (if seg_id s < ackedSegID b then 0
      else if ackedSegID b < seg_id s then recordCount s
      else records_from s (ackedOff b))"

definition count_dropped :: "string \<Rightarrow> time \<Rightarrow> nat \<Rightarrow> buf_stats \<Rightarrow> buf_stats" where
  "count_dropped reason now n st =
     (if 0 < n then
        st\<lparr>samplesDropped := AList.update reason (get_or 0 (samplesDropped st) reason + int n) (samplesDropped st),
           lastDropTime := Some now\<rparr>
      else st)"

definition removeOldestSegment :: "string \<Rightarrow> time \<Rightarrow> buffer \<Rightarrow> buffer" where
  "removeOldestSegment reason now b =
     (case segments b of
        [] \<Rightarrow> b
      | oldest # rest \<Rightarrow>
          (let dropped = (if reason \<noteq> [] then unackedRecords b oldest else 0);
               st = (stats b)\<lparr>st_segments := st_segments (stats b) - 1,
                              bytesUsed := bytesUsed (stats b) - int (fileSize oldest)\<rparr>;
               b1 = b\<lparr>segments := rest, stats := count_dropped reason now dropped st\<rparr>
           in if 0 < nextReadSeg b1 then b1\<lparr>nextReadSeg := nextReadSeg b1 - 1\<rparr> else b1\<lparr>nextReadOff := 0\<rparr>))"

lemma segments_removeOldest [simp]: "segments (removeOldestSegment r now b) = tl (segments b)"
  by (simp add: removeOldestSegment_def Let_def split: list.split)

function enforceMaxSize :: "time \<Rightarrow> buffer \<Rightarrow> buffer" where
  "enforceMaxSize now b =
     (if opt_maxSize b < bytesUsed (stats b) \<and> segments b \<noteq> []
      then enforceMaxSize now (removeOldestSegment ''size_limit'' now b) else b)"
  by pat_completeness auto
termination
  by (relation "measure (\<lambda>(now, b). length (segments b))") auto

function enforceMaxAge :: "time \<Rightarrow> buffer \<Rightarrow> buffer" where
  "enforceMaxAge now b =
     (if segments b \<noteq> [] \<and> opt_maxAge b < time_sub now (lastWrite (hd (segments b)))
      then enforceMaxAge now (removeOldestSegment ''age_limit'' now b) else b)"
  by pat_completeness auto
termination
  by (relation "measure (\<lambda>(now, b). length (segments b))") auto

function dropAckedSegments :: "time \<Rightarrow> buffer \<Rightarrow> buffer" where
  "dropAckedSegments now b =
     (if 1 < length (segments b) \<and> unackedRecords b (hd (segments b)) = 0
      then dropAckedSegments now (removeOldestSegment [] now b) else b)"
  by pat_completeness auto
termination
  by (relation "measure (\<lambda>(now, b). length (segments b))") auto

declare enforceMaxSize.simps [simp del] enforceMaxAge.simps [simp del] dropAckedSegments.simps [simp del]

text \<open>Go's integer division truncates towards zero.\<close>

definition go_div :: "int \<Rightarrow> int \<Rightarrow> int" where
  "go_div a n = (if 0 \<le> a then a div n else - (- a div n))"

definition segmentAgedOut :: "time \<Rightarrow> buffer \<Rightarrow> segment \<Rightarrow> bool" where
  "segmentAgedOut now b s \<longleftrightarrow> 0 < recordCount s \<and> go_div (opt_maxAge b) 4 \<le> time_sub now (createdAt s)"

definition saveAckedPosition :: "ioerr option \<Rightarrow> buffer \<Rightarrow> buffer \<times> ioerr option" where
  "saveAckedPosition io b =
     (case io of
        Some e \<Rightarrow> (b, Some e)
      | None \<Rightarrow> (b\<lparr>acked_file := Some (put_u32 (ackedSegID b) @ put_u64 (of_nat (ackedOff b)))\<rparr>, None))"

definition loadAckedPosition :: "bytes option \<Rightarrow> (32 word \<times> nat) option" where
  "loadAckedPosition f =
     (case f of
        None \<Rightarrow> None
      | Some data \<Rightarrow> if length data < 12 then None else Some (get_u32 data, unat (get_u64 (drop 4 data))))"

fun find_after :: "32 word \<Rightarrow> nat \<Rightarrow> nat \<Rightarrow> segment list \<Rightarrow> (nat \<times> nat) option" where
  "find_after sid off i [] = None"
| "find_after sid off i (s # ss) =
     (if seg_id s < sid then find_after sid off (i + 1) ss
      else if seg_id s = sid then Some (i, off)
      else Some (i, 0))"

definition findSegmentAfterAcked :: "buffer \<Rightarrow> buffer" where
  "findSegmentAfterAcked b =
     (case find_after (ackedSegID b) (ackedOff b) 0 (segments b) of
        None \<Rightarrow> b
      | Some (i, off) \<Rightarrow> b\<lparr>nextReadSeg := i, nextReadOff := off\<rparr>)"

section \<open>Operations\<close>

text \<open>The answers of the calls of one \<^verbatim>\<open>Append\<close>: creating a segment, syncing the full one, the write.\<close>

record buf_io =
  io_create :: "ioerr option"
  io_sync :: "ioerr option"
  io_append :: append_io

definition append_active :: "append_io \<Rightarrow> time \<Rightarrow> bytes \<Rightarrow> buffer \<Rightarrow> buffer \<times> buf_err option" where
  "append_active io now env b =
     (case seg_append io (last (segments b)) env of
        (s, Some e) \<Rightarrow> (handleWriteError e (b\<lparr>segments := butlast (segments b) @ [s]\<rparr>), Some (Io e))
      | (s, None) \<Rightarrow>
          (let b1 = b\<lparr>segments := butlast (segments b) @ [touch now s],
                      stats := (stats b)\<lparr>bytesUsed := bytesUsed (stats b) + int (length env) + 8\<rparr>\<rparr>;
               b2 = enforceMaxAge now (enforceMaxSize now b1)
           in (b2\<lparr>stats := (stats b2)\<lparr>bufferFull := False\<rparr>\<rparr>, None)))"

definition add_segment :: "ioerr option \<Rightarrow> time \<Rightarrow> buffer \<Rightarrow> buffer \<times> buf_err option" where
  "add_segment create now b =
     (case newSegment create now b of
        (b1, Inl e) \<Rightarrow> (handleWriteError e b1, Some (Io e))
      | (b1, Inr s) \<Rightarrow> (b1\<lparr>segments := segments b1 @ [s]\<rparr>, None))"

definition roll_segment :: "buf_io \<Rightarrow> time \<Rightarrow> bytes \<Rightarrow> buffer \<Rightarrow> buffer \<times> buf_err option" where
  "roll_segment io now env b =
     (if wouldRoll (last (segments b)) (length env) \<or> segmentAgedOut now b (last (segments b)) then
        (case io_sync io of
           Some e \<Rightarrow> (handleWriteError e b, Some (Io e))
         | None \<Rightarrow> add_segment (io_create io) now b)
      else (b, None))"

definition buf_append :: "buf_io \<Rightarrow> time \<Rightarrow> bytes \<Rightarrow> buffer \<Rightarrow> buffer \<times> buf_err option" where
  "buf_append io now env b =
     (if env = [] then (b, Some EmptyRecord)
      else case (if segments b = [] then add_segment (io_create io) now b else (b, None)) of
        (b1, Some e) \<Rightarrow> (b1, Some e)
      | (b1, None) \<Rightarrow>
          (case roll_segment io now env b1 of
             (b2, Some e) \<Rightarrow> (b2, Some e)
           | (b2, None) \<Rightarrow> append_active (io_append io) now env b2))"

text \<open>
  \<^verbatim>\<open>Next\<close>: the inner loop's index is the cursor's segment at every iteration, so one recursion over
  the cursor is both loops. \<open>None\<close> is \<^verbatim>\<open>io.EOF\<close>.
\<close>

definition skip_corrupt :: "time \<Rightarrow> nat \<Rightarrow> buffer \<Rightarrow> buffer" where
  "skip_corrupt now off b =
     b\<lparr>stats := (stats b)\<lparr>corruptRecords := corruptRecords (stats b) + 1, lastCorruptTime := Some now\<rparr>,
       nextReadOff := off\<rparr>"

function next_record :: "time \<Rightarrow> buffer \<Rightarrow> buffer \<times> (bytes \<times> ack_token) option" where
  "next_record now b =
     (if nextReadSeg b < length (segments b) then
        (case readAt (segments b ! nextReadSeg b) (nextReadOff b) of (env, nextOff) \<Rightarrow>
           if nextReadOff b < nextOff then
             (case env of
                Some data \<Rightarrow> (b\<lparr>nextReadOff := nextOff\<rparr>, Some (data, (seg_id (segments b ! nextReadSeg b), nextOff)))
              | None \<Rightarrow> next_record now (skip_corrupt now nextOff b))
           else if nextReadSeg b < length (segments b) - 1 then
             next_record now (b\<lparr>nextReadOff := 0, nextReadSeg := nextReadSeg b + 1\<rparr>)
           else (b, None))
      else (b, None))"
  by pat_completeness auto

lemma readAt_within:
  assumes "readAt s off = (env, nextOff)" and "off < nextOff"
  shows "nextOff \<le> length (seg_file s)"
proof -
  have wrap: "unat (8 + w) \<le> 8 + unat w" for w :: "32 word"
    by (simp add: unat_word_ariths)
  show ?thesis
    using assms wrap [of "get_u32 (drop off (seg_file s))"]
    by (auto simp: readAt_def Let_def split: if_splits)
qed

termination next_record
proof (relation "inv_image (less_than <*lex*> less_than)
    (\<lambda>(now, b). (length (segments b) - nextReadSeg b, length (seg_file (segments b ! nextReadSeg b)) - nextReadOff b))")
qed (auto simp: skip_corrupt_def dest: readAt_within [OF sym] readAt_within)

declare next_record.simps [simp del]

definition rewind :: "buffer \<Rightarrow> buffer" where
  "rewind b = findSegmentAfterAcked (b\<lparr>nextReadSeg := 0, nextReadOff := 0\<rparr>)"

definition ack :: "ioerr option \<Rightarrow> time \<Rightarrow> ack_token \<Rightarrow> buffer \<Rightarrow> buffer \<times> ioerr option" where
  "ack io now tok b =
     saveAckedPosition io (dropAckedSegments now (b\<lparr>ackedSegID := fst tok, ackedOff := snd tok\<rparr>))"

definition stats_copy :: "buffer \<Rightarrow> buf_stats" where
  "stats_copy b = (stats b)\<lparr>st_segments := int (length (segments b))\<rparr>"

text \<open>\<^verbatim>\<open>Close\<close> saves the checkpoint even when closing a descriptor fails.\<close>

definition close_buffer :: "ioerr list \<Rightarrow> ioerr option \<Rightarrow> buffer \<Rightarrow> buffer \<times> ioerr list" where
  "close_buffer closes io b =
     (case saveAckedPosition io b of (b', e) \<Rightarrow> (b', closes @ (case e of None \<Rightarrow> [] | Some x \<Rightarrow> [x])))"

section \<open>Opening\<close>

text \<open>The segment files of the directory, with their modification times.\<close>

record dir_entry =
  e_name :: string
  e_bytes :: bytes
  e_mtime :: time

record open_io =
  io_openseg :: "string \<Rightarrow> ioerr option"
  io_save :: "ioerr option"
  io_remove :: "ioerr option"

definition hex_char :: "nat \<Rightarrow> char" where
  "hex_char d = ''0123456789abcdef'' ! d"

definition hex_value :: "char \<Rightarrow> nat option" where
  "hex_value c =
     (let n = of_char c in
      if 48 \<le> n \<and> n \<le> 57 then Some (n - 48)
      else if 97 \<le> n \<and> n \<le> 102 then Some (n - 87)
      else if 65 \<le> n \<and> n \<le> 70 then Some (n - 55)
      else None)"

text \<open>\<^verbatim>\<open>%08x.seg\<close>, printed and scanned: the scan takes at most eight hexadecimal digits.\<close>

fun hex_digits :: "nat \<Rightarrow> nat \<Rightarrow> string" where
  "hex_digits 0 n = []"
| "hex_digits (Suc k) n = hex_digits k (n div 16) @ [hex_char (n mod 16)]"

definition seg_name :: "32 word \<Rightarrow> string" where
  "seg_name w = hex_digits 8 (unat w) @ ''.seg''"

definition scan_seg_name :: "string \<Rightarrow> (32 word) option" where
  "scan_seg_name s =
     (let t = dropWhile (\<lambda>c. c = CHR '' '') s;
          ds = takeWhile (\<lambda>c. hex_value c \<noteq> None) (take 8 t);
          rest = drop (length ds) t
      in if ds = [] \<or> take 4 rest \<noteq> ''.seg'' then None
         else Some (of_nat (foldl (\<lambda>n c. 16 * n + the (hex_value c)) 0 ds)))"

definition is_seg_file :: "string \<Rightarrow> bool" where
  "is_seg_file s \<longleftrightarrow> 4 \<le> length s \<and> drop (length s - 4) s = ''.seg''"

definition load_segment :: "open_io \<Rightarrow> time \<Rightarrow> dir_entry \<Rightarrow> buffer \<Rightarrow> buf_err + buffer" where
  "load_segment io now e b =
     (case scan_seg_name (e_name e) of
        None \<Rightarrow> Inl (BadName (e_name e))
      | Some segID \<Rightarrow>
          (case io_openseg io (e_name e) of
             Some err \<Rightarrow> Inl (Io err)
           | None \<Rightarrow>
               (let keep = (if segID = ackedSegID b then ackedOff b else 0);
                    (s, cut) = openSegment (e_bytes e) (e_mtime e) keep;
                    seg = s\<lparr>seg_id := segID, seg_maxSize := segmentSize (opt_maxSize b)\<rparr>;
                    b1 = (if nextSegID b \<le> segID then b\<lparr>nextSegID := segID + 1\<rparr> else b);
                    st = (if 0 < cut then
                            (stats b1)\<lparr>corruptRecords := corruptRecords (stats b1) + 1,
                                       cutBytes := cutBytes (stats b1) + int cut, lastCorruptTime := Some now\<rparr>
                          else stats b1)
                in Inr (b1\<lparr>segments := segments b1 @ [seg],
                           stats := st\<lparr>st_segments := st_segments st + 1, bytesUsed := bytesUsed st + int (fileSize seg)\<rparr>\<rparr>))))"

fun load_segments :: "open_io \<Rightarrow> time \<Rightarrow> dir_entry list \<Rightarrow> buffer \<Rightarrow> buf_err + buffer" where
  "load_segments io now [] b = Inr b"
| "load_segments io now (e # es) b =
     (case load_segment io now e b of Inl err \<Rightarrow> Inl err | Inr b' \<Rightarrow> load_segments io now es b')"

definition empty_stats :: buf_stats where
  "empty_stats = \<lparr>bytesUsed = 0, st_segments = 0, samplesDropped = [], corruptRecords = 0, cutBytes = 0,
     bufferFull = False, lastDropTime = None, lastCorruptTime = None\<rparr>"

definition empty_buffer :: "int \<Rightarrow> duration \<Rightarrow> bytes option \<Rightarrow> buffer" where
  "empty_buffer msize mage acked =
     \<lparr>opt_maxSize = (if msize = 0 then 512 * 1024 * 1024 else msize),
      opt_maxAge = (if mage = 0 then 6 * hour else mage), segments = [], nextSegID = 0, nextReadSeg = 0, nextReadOff = 0,
      ackedSegID = 0, ackedOff = 0, stats = empty_stats, acked_file = acked\<rparr>"

text \<open>The corrections of the checkpoint: past every segment, and past the end of its own segment.\<close>

definition fix_past_all :: "buffer \<Rightarrow> buffer" where
  "fix_past_all b =
     (if segments b = [] then b\<lparr>ackedSegID := 0, ackedOff := 0\<rparr>
      else if seg_id (last (segments b)) < ackedSegID b then
        b\<lparr>ackedSegID := seg_id (hd (segments b)), ackedOff := 0\<rparr>
      else b)"

definition fix_past_end :: "buffer \<Rightarrow> buffer" where
  "fix_past_end b =
     foldl (\<lambda>b s. if seg_id s = ackedSegID b \<and> fileSize s < ackedOff b then b\<lparr>ackedOff := fileSize s\<rparr> else b)
       b (segments b)"

definition settle_checkpoint :: "open_io \<Rightarrow> 32 word \<times> nat \<Rightarrow> buffer \<Rightarrow> buf_err + buffer" where
  "settle_checkpoint io cp b =
     (if (ackedSegID b, ackedOff b) \<noteq> cp then
        (case saveAckedPosition (io_save io) b of
           (b1, None) \<Rightarrow> Inr b1
         | (b1, Some _) \<Rightarrow>
             (case (if acked_file b1 = None then None else io_remove io) of
                Some e \<Rightarrow> Inl (Io e)
              | None \<Rightarrow> Inr (b1\<lparr>acked_file := None\<rparr>)))
      else Inr b)"

definition open_buffer ::
  "int \<Rightarrow> duration \<Rightarrow> open_io \<Rightarrow> time \<Rightarrow> dir_entry list \<Rightarrow> bytes option \<Rightarrow> buf_err + buffer" where
  "open_buffer msize mage io now entries acked =
     (let files = sort_slice (\<lambda>x y. e_name x < e_name y) (filter (\<lambda>e. is_seg_file (e_name e)) entries);
          b0 = empty_buffer msize mage acked;
          cp = loadAckedPosition acked;
          b1 = (case cp of None \<Rightarrow> b0 | Some (sid, off) \<Rightarrow> b0\<lparr>ackedSegID := sid, ackedOff := off\<rparr>)
      in case load_segments io now files b1 of
           Inl e \<Rightarrow> Inl e
         | Inr b2 \<Rightarrow>
             (let b3 = recalculateStats b2;
                  cp0 = (ackedSegID b3, ackedOff b3);
                  b4 = (if cp \<noteq> None \<and> nextSegID b3 \<le> ackedSegID b3 then b3\<lparr>nextSegID := ackedSegID b3 + 1\<rparr> else b3)
              in case settle_checkpoint io cp0 (fix_past_end (fix_past_all b4)) of
                   Inl e \<Rightarrow> Inl e
                 | Inr b5 \<Rightarrow>
                     Inr (rewind (enforceMaxSize now (enforceMaxAge now (dropAckedSegments now b5))))))"

end
