(* ===== verification/Buffer_Inv.thy ===== *)
theory Buffer_Inv
  imports Disk_Buffer
begin

text \<open>
  The invariant of the disk buffer and the two sequences it stands for: the records still to be
  acknowledged and the records still to be read. Every operation is described by what it does to
  them; a segment that is dropped and a cursor that moves show only there.
\<close>

section \<open>Positions in a segment\<close>

text \<open>\<open>reach s a c\<close>: reading from offset \<open>a\<close> gets to offset \<open>c\<close>.\<close>

definition reach :: "segment \<Rightarrow> nat \<Rightarrow> nat \<Rightarrow> bool" where
  "reach s a c \<longleftrightarrow> boundary s c \<and> a \<le> c \<and>
     (\<exists>is. drop a (seg_body s) = enc is @ drop c (seg_body s) \<and> (\<forall>i \<in> set is. item_ok i))"

lemma reach_refl: "boundary s a \<Longrightarrow> reach s a a"
  by (auto simp: reach_def intro!: exI [of _ "[]"])

lemma reachE:
  assumes "reach s a c"
  obtains "is" where "boundary s a" "boundary s c" "seg_items s a = is @ seg_items s c"
proof -
  from assms obtain "is" where i: "boundary s c" "a \<le> c" "drop a (seg_body s) = enc is @ drop c (seg_body s)"
    "\<forall>i \<in> set is. item_ok i" by (auto simp: reach_def)
  have "boundary s a \<and> seg_items s a = is @ seg_items s c"
    using i boundaryD [OF i(1)] by (intro boundaryI) auto
  with i(1) show ?thesis using that by blast
qed

lemma reach_next:
  assumes "seg_ok s" and "reach s a c" and "seg_items s c = i # is"
  shows "reach s a (c + 8 + length (snd i))"
proof -
  from assms(2) obtain js where js: "boundary s c" "a \<le> c" "drop a (seg_body s) = enc js @ drop c (seg_body s)"
    "\<forall>i \<in> set js. item_ok i" by (auto simp: reach_def)
  note nxt = boundary_next [OF assms(1) js(1) assms(3)]
  have "drop c (seg_body s) = item_bytes i @ drop (c + 8 + length (snd i)) (seg_body s)"
    using boundaryD(1) [OF js(1)] boundaryD(1) [OF nxt(1)] nxt(2) assms(3) by simp
  moreover have "item_ok i" using boundaryD(2) [OF js(1)] assms(3) by simp
  ultimately show ?thesis using js nxt(1) unfolding reach_def
    by (intro conjI exI [of _ "js @ [i]"]) auto
qed

lemma reach_append:
  assumes "seg_ok s" and "length data + 8 < 2 ^ 32" and "io_sane io data" and "seg_append io s data = (s', err)"
    and "reach s a c"
  shows "reach s' a c"
proof -
  from assms(5) obtain js where js: "boundary s c" "a \<le> c" "drop a (seg_body s) = enc js @ drop c (seg_body s)"
    "\<forall>i \<in> set js. item_ok i" by (auto simp: reach_def)
  note ok = seg_append_ok [OF assms(1-4)]
  obtain x where x: "seg_body s' = seg_body s @ x"
    using seg_append_file [OF assms(1,4)] assms(1) by (metis append_Nil2 seg_body_update)
  have "a \<le> length (seg_body s)" "c \<le> length (seg_body s)" using js(2) boundaryD(3) [OF js(1)] assms(1) by simp_all
  then show ?thesis using js ok(2) [OF js(1)] unfolding reach_def x by auto
qed

lemma reach_touch [simp]: "reach (touch t s) a c = reach s a c" "boundary (touch t s) a = boundary s a"
  "seg_items (touch t s) a = seg_items s a" "seg_ok (touch t s) = seg_ok s" "counted (touch t s) a = counted s a"
  "fileSize (touch t s) = fileSize s" "seg_id (touch t s) = seg_id s" "recordCount (touch t s) = recordCount s"
  by (simp_all add: touch_def reach_def boundary_def seg_body_def seg_items_def seg_ok_def counted_def)

section \<open>The invariant of the buffer\<close>

text \<open>Where the records of a segment that are not acknowledged start.\<close>

definition start_off :: "buffer \<Rightarrow> segment \<Rightarrow> nat" where
  "start_off b s = (if seg_id s = ackedSegID b then ackedOff b else 0)"

definition seg_inv :: "buffer \<Rightarrow> segment \<Rightarrow> bool" where
  "seg_inv b s \<longleftrightarrow> seg_ok s \<and> (ackedSegID b \<le> seg_id s \<longrightarrow> boundary s (start_off b s)) \<and>
     (ackedSegID b < seg_id s \<longrightarrow> counted s 0)"

definition cursor_inv :: "buffer \<Rightarrow> bool" where
  "cursor_inv b \<longleftrightarrow>
     (if segments b = [] then nextReadSeg b = 0 \<and> nextReadOff b = 0
      else nextReadSeg b < length (segments b) \<and> ackedSegID b \<le> seg_id (segments b ! nextReadSeg b) \<and>
        reach (segments b ! nextReadSeg b) (start_off b (segments b ! nextReadSeg b)) (nextReadOff b))"

definition core_inv :: "buffer \<Rightarrow> bool" where
  "core_inv b \<longleftrightarrow> list_all (seg_inv b) (segments b) \<and> sorted_wrt (<) (map seg_id (segments b)) \<and>
     list_all (\<lambda>s. seg_id s < nextSegID b) (segments b) \<and>
     (ackedSegID b < nextSegID b \<or> ackedSegID b = nextSegID b \<and> ackedOff b = 0) \<and>
     bytesUsed (stats b) = sum_list (map (int \<circ> fileSize) (segments b)) \<and>
     wf_map (samplesDropped (stats b))"

definition buf_inv :: "buffer \<Rightarrow> bool" where
  "buf_inv b \<longleftrightarrow> core_inv b \<and> cursor_inv b"

text \<open>The records still to be acknowledged and the ones still to be read, in order.\<close>

definition seg_unacked :: "buffer \<Rightarrow> segment \<Rightarrow> bytes list" where
  "seg_unacked b s = (if seg_id s < ackedSegID b then [] else payloads (seg_items s (start_off b s)))"

definition unacked :: "buffer \<Rightarrow> bytes list" where
  "unacked b = concat (map (seg_unacked b) (segments b))"

definition pending :: "buffer \<Rightarrow> bytes list" where
  "pending b =
     (if nextReadSeg b < length (segments b) then
        payloads (seg_items (segments b ! nextReadSeg b) (nextReadOff b)) @
        concat (map (\<lambda>s. payloads (seg_items s 0)) (drop (nextReadSeg b + 1) (segments b)))
      else [])"

lemma ids_increase:
  assumes "buf_inv b" and "i < j" and "j < length (segments b)"
  shows "seg_id (segments b ! i) < seg_id (segments b ! j)"
  using assms sorted_wrt_nth_less [of "(<)" "map seg_id (segments b)" i j] by (simp add: buf_inv_def core_inv_def)

lemma seg_inv_nth: "buf_inv b \<Longrightarrow> i < length (segments b) \<Longrightarrow> seg_inv b (segments b ! i)"
  by (simp add: buf_inv_def core_inv_def list_all_length)

lemma cursorD:
  assumes "buf_inv b" and "segments b \<noteq> []"
  shows "nextReadSeg b < length (segments b)" "ackedSegID b \<le> seg_id (segments b ! nextReadSeg b)"
    "reach (segments b ! nextReadSeg b) (start_off b (segments b ! nextReadSeg b)) (nextReadOff b)"
    "seg_ok (segments b ! nextReadSeg b)" "boundary (segments b ! nextReadSeg b) (nextReadOff b)"
  using assms seg_inv_nth [of b "nextReadSeg b"] by (auto simp: buf_inv_def core_inv_def cursor_inv_def seg_inv_def reach_def)

lemma after_cursor:
  assumes "buf_inv b" and "nextReadSeg b < i" and "i < length (segments b)"
  shows "ackedSegID b < seg_id (segments b ! i)" "boundary (segments b ! i) 0" "start_off b (segments b ! i) = 0"
proof -
  have "segments b \<noteq> []" using assms(3) by auto
  then have "ackedSegID b \<le> seg_id (segments b ! nextReadSeg b)" using cursorD assms(1) by blast
  then show lt: "ackedSegID b < seg_id (segments b ! i)" using ids_increase [OF assms] by simp
  show "boundary (segments b ! i) 0"
    using seg_inv_nth [OF assms(1,3)] lt by (simp add: seg_inv_def counted_def)
  show "start_off b (segments b ! i) = 0" using lt by (auto simp: start_off_def)
qed

lemma pending_eq:
  assumes "buf_inv b" and "segments b \<noteq> []"
  shows "pending b = payloads (seg_items (segments b ! nextReadSeg b) (nextReadOff b)) @
    concat (map (seg_unacked b) (drop (nextReadSeg b + 1) (segments b)))"
proof -
  have "map (\<lambda>s. payloads (seg_items s 0)) (drop (nextReadSeg b + 1) (segments b)) =
      map (seg_unacked b) (drop (nextReadSeg b + 1) (segments b))"
  proof (rule map_cong [OF refl])
    fix s assume "s \<in> set (drop (nextReadSeg b + 1) (segments b))"
    then obtain i where "i < length (drop (nextReadSeg b + 1) (segments b))" "s = drop (nextReadSeg b + 1) (segments b) ! i"
      by (metis in_set_conv_nth)
    then have "s = segments b ! (nextReadSeg b + 1 + i)" "nextReadSeg b + 1 + i < length (segments b)" by simp_all
    with after_cursor [OF assms(1), of "nextReadSeg b + 1 + i"]
    show "payloads (seg_items s 0) = seg_unacked b s" by (auto simp: seg_unacked_def)
  qed
  then show ?thesis using cursorD(1) [OF assms] unfolding pending_def by presburger
qed

text \<open>What is still to be read is what is still to be acknowledged but for records already handed out.\<close>

lemma pending_suffix:
  assumes "buf_inv b"
  shows "\<exists>xs. unacked b = xs @ pending b"
proof (cases "segments b = []")
  case True
  then show ?thesis by (simp add: unacked_def pending_def)
next
  case False
  let ?k = "nextReadSeg b" and ?s = "segments b ! nextReadSeg b"
  note c = cursorD [OF assms False]
  from c(3) obtain "is" where "seg_items ?s (start_off b ?s) = is @ seg_items ?s (nextReadOff b)" by (rule reachE)
  then have "seg_unacked b ?s = payloads is @ payloads (seg_items ?s (nextReadOff b))"
    using c(2) by (auto simp: seg_unacked_def)
  moreover have "segments b = take ?k (segments b) @ ?s # drop (Suc ?k) (segments b)"
    using c(1) by (rule id_take_nth_drop)
  then have "unacked b = concat (map (seg_unacked b) (take ?k (segments b))) @ seg_unacked b ?s @
      concat (map (seg_unacked b) (drop (Suc ?k) (segments b)))"
    unfolding unacked_def by (metis concat.simps(2) concat_append list.simps(9) map_append)
  ultimately show ?thesis using pending_eq [OF assms False] by auto
qed

section \<open>Reading\<close>

text \<open>\<open>b'\<close> is \<open>b\<close> with another cursor and other counts of corrupt records.\<close>

definition moved :: "buffer \<Rightarrow> buffer \<Rightarrow> bool" where
  "moved b b' \<longleftrightarrow> opt_maxSize b' = opt_maxSize b \<and> opt_maxAge b' = opt_maxAge b \<and> segments b' = segments b \<and>
     nextSegID b' = nextSegID b \<and> ackedSegID b' = ackedSegID b \<and> ackedOff b' = ackedOff b \<and>
     acked_file b' = acked_file b \<and> bytesUsed (stats b') = bytesUsed (stats b) \<and>
     samplesDropped (stats b') = samplesDropped (stats b)"

lemma moved_refl: "moved b b"
  by (simp add: moved_def)

lemma moved_trans: "moved a b \<Longrightarrow> moved b c \<Longrightarrow> moved a c"
  by (simp add: moved_def)

lemma same_start_off:
  "ackedSegID b' = ackedSegID b \<Longrightarrow> ackedOff b' = ackedOff b \<Longrightarrow> start_off b' = start_off b \<and> seg_unacked b' = seg_unacked b \<and> seg_inv b' = seg_inv b"
  by (simp add: start_off_def seg_unacked_def seg_inv_def fun_eq_iff)

lemma moved_unacked: "moved b b' \<Longrightarrow> unacked b' = unacked b"
  using same_start_off [of b' b] by (simp add: moved_def unacked_def)

lemma moved_inv: "moved b b' \<Longrightarrow> buf_inv b \<Longrightarrow> cursor_inv b' \<Longrightarrow> buf_inv b'"
  using same_start_off [of b' b] by (simp add: buf_inv_def core_inv_def moved_def)

text \<open>The token is the cursor: everything handed out so far is acknowledged with it.\<close>

definition at_cursor :: "buffer \<Rightarrow> ack_token \<Rightarrow> bool" where
  "at_cursor b tok \<longleftrightarrow> ackedSegID b \<le> fst tok \<and> fst tok < nextSegID b \<and>
     (segments b = [] \<or> tok = (seg_id (segments b ! nextReadSeg b), nextReadOff b) \<or>
      fst tok < seg_id (hd (segments b)) \<and> nextReadSeg b = 0 \<and> nextReadOff b = 0)"

lemma next_record_ok:
  assumes "buf_inv b"
  shows "\<exists>b'. moved b b' \<and> buf_inv b' \<and>
    (case pending b of
       [] \<Rightarrow> next_record now b = (b', None) \<and> pending b' = []
     | x # xs \<Rightarrow> \<exists>tok. next_record now b = (b', Some (x, tok)) \<and> pending b' = xs \<and> at_cursor b' tok)"
  using assms
proof (induction now b rule: next_record.induct)
  case (1 now b)
  show ?case
  proof (cases "segments b = []")
    case True
    then have "next_record now b = (b, None)" "pending b = []"
      by (simp_all add: next_record.simps [of now b] pending_def)
    then show ?thesis using 1(3) moved_refl by auto
  next
    case False
    let ?s = "segments b ! nextReadSeg b" and ?off = "nextReadOff b"
    note c = cursorD [OF 1(3) False]
    show ?thesis
    proof (cases "seg_items ?s ?off")
      case (Cons i "is")
      let ?off' = "?off + 8 + length (snd i)"
      note nxt = boundary_next [OF c(4,5) Cons] and reach = reach_next [OF c(4,3) Cons]
      note read = readAt_item [OF c(4,5) Cons]
      show ?thesis
      proof (cases "valid i")
        case True
        let ?b = "b\<lparr>nextReadOff := ?off'\<rparr>"
        have step: "next_record now b = (?b, Some (snd i, (seg_id ?s, ?off')))"
          using c(1) read True by (subst next_record.simps) simp
        have mv: "moved b ?b" by (simp add: moved_def)
        have "cursor_inv ?b" using c reach False same_start_off [of ?b b] by (simp add: cursor_inv_def)
        then have inv: "buf_inv ?b" using mv 1(3) moved_inv by blast
        have "pending b = snd i # pending ?b" using c(1) Cons nxt(2) True by (simp add: pending_def)
        moreover have "seg_id ?s < nextSegID b" using 1(3) c(1) by (simp add: buf_inv_def core_inv_def list_all_length)
        ultimately show ?thesis using step mv inv c(2) by (intro exI [of _ ?b]) (auto simp: at_cursor_def)
      next
        case invalid: False
        let ?b = "skip_corrupt now ?off' b"
        have step: "next_record now b = next_record now ?b"
          using c(1) read invalid by (subst next_record.simps) simp
        have mv: "moved b ?b" by (simp add: moved_def skip_corrupt_def)
        have "cursor_inv ?b" using c reach False same_start_off [of ?b b] by (simp add: cursor_inv_def skip_corrupt_def)
        then have inv: "buf_inv ?b" using mv 1(3) moved_inv by blast
        have same: "pending b = pending ?b" using c(1) Cons nxt(2) invalid by (simp add: pending_def skip_corrupt_def)
        show ?thesis unfolding step same
          using 1(1) [OF c(1) read [symmetric] _ _ inv] invalid moved_trans [OF mv] by auto
      qed
    next
      case Nil
      note read = readAt_end [OF c(4,5) Nil]
      show ?thesis
      proof (cases "nextReadSeg b < length (segments b) - 1")
        case True
        let ?b = "b\<lparr>nextReadOff := 0, nextReadSeg := nextReadSeg b + 1\<rparr>"
        have step: "next_record now b = next_record now ?b"
          using c(1) read True by (subst next_record.simps) simp
        have mv: "moved b ?b" by (simp add: moved_def)
        have k: "nextReadSeg b + 1 < length (segments b)" using True by simp
        note after = after_cursor [OF 1(3) _ k]
        have "cursor_inv ?b"
          using after k False reach_refl [of "segments b ! (nextReadSeg b + 1)" 0] same_start_off [of ?b b]
          by (simp add: cursor_inv_def order_less_imp_le)
        then have inv: "buf_inv ?b" using mv 1(3) moved_inv by blast
        have same: "pending b = pending ?b" using True Nil by (simp add: pending_def Cons_nth_drop_Suc [symmetric])
        show ?thesis unfolding step same
          using 1(2) [OF c(1) read [symmetric] _ True inv] moved_trans [OF mv] by auto
      next
        case last: False
        then have "next_record now b = (b, None)" using c(1) read by (subst next_record.simps) simp
        moreover have "pending b = []" using last c(1) Nil by (simp add: pending_def)
        ultimately show ?thesis using 1(3) moved_refl by auto
      qed
    qed
  qed
qed

lemma find_after_spec:
  "\<exists>s \<in> set ss. sid \<le> seg_id s \<Longrightarrow>
   \<exists>j < length ss. find_after sid off i ss = Some (i + j, if seg_id (ss ! j) = sid then off else 0) \<and>
     sid \<le> seg_id (ss ! j) \<and> (\<forall>m < j. seg_id (ss ! m) < sid)"
proof (induction ss arbitrary: i)
  case (Cons s ss)
  show ?case
  proof (cases "seg_id s < sid")
    case True
    with Cons.prems have "\<exists>s \<in> set ss. sid \<le> seg_id s" by auto
    from Cons.IH [OF this, of "i + 1"] obtain j where "j < length ss"
      "find_after sid off (i + 1) ss = Some (i + 1 + j, if seg_id (ss ! j) = sid then off else 0)"
      "sid \<le> seg_id (ss ! j)" "\<forall>m < j. seg_id (ss ! m) < sid" by blast
    with True show ?thesis by (intro exI [of _ "Suc j"]) (auto simp: less_Suc_eq_0_disj)
  qed auto
qed simp

lemma unacked_split:
  assumes "j < length (segments b)" and "\<forall>m < j. seg_id (segments b ! m) < ackedSegID b"
  shows "unacked b = concat (map (seg_unacked b) (drop j (segments b)))"
proof -
  have "concat (map (seg_unacked b) (take j (segments b))) = []"
    using assms by (auto simp: seg_unacked_def in_set_conv_nth)
  then show ?thesis unfolding unacked_def
    by (metis append_Nil append_take_drop_id concat_append map_append)
qed

lemma rewind_ok:
  assumes "core_inv b" and "segments b \<noteq> [] \<Longrightarrow> ackedSegID b \<le> seg_id (last (segments b))"
  shows "moved b (rewind b) \<and> buf_inv (rewind b) \<and> pending (rewind b) = unacked b"
proof (cases "segments b = []")
  case True
  then show ?thesis using assms(1) same_start_off [of "b\<lparr>nextReadSeg := 0, nextReadOff := 0\<rparr>" b]
    by (simp add: rewind_def findSegmentAfterAcked_def moved_def buf_inv_def core_inv_def cursor_inv_def pending_def unacked_def)
next
  case False
  obtain j where j: "j < length (segments b)"
      "find_after (ackedSegID b) (ackedOff b) 0 (segments b) = Some (j, start_off b (segments b ! j))"
      "ackedSegID b \<le> seg_id (segments b ! j)" "\<forall>m < j. seg_id (segments b ! m) < ackedSegID b"
  proof -
    have "\<exists>s \<in> set (segments b). ackedSegID b \<le> seg_id s" using assms(2) False last_in_set [OF False] by blast
    from find_after_spec [OF this, of "ackedOff b" 0] show ?thesis using that by (auto simp: start_off_def)
  qed
  let ?s = "segments b ! j" and ?b = "b\<lparr>nextReadSeg := j, nextReadOff := start_off b (segments b ! j)\<rparr>"
  have rw: "rewind b = ?b" using j(2) by (simp add: rewind_def findSegmentAfterAcked_def)
  have mv: "moved b ?b" by (simp add: moved_def)
  have "seg_inv b ?s" using assms(1) j(1) by (simp add: core_inv_def list_all_length)
  then have "boundary ?s (start_off b ?s)" using j(3) by (simp add: seg_inv_def)
  then have cur: "cursor_inv ?b" using j False same_start_off [of ?b b] reach_refl by (simp add: cursor_inv_def)
  moreover have "core_inv ?b" using assms(1) same_start_off [of ?b b] by (simp add: core_inv_def)
  ultimately have inv: "buf_inv ?b" by (simp add: buf_inv_def)
  have "pending ?b = payloads (seg_items ?s (start_off b ?s)) @ concat (map (seg_unacked ?b) (drop (j + 1) (segments b)))"
    using pending_eq [OF inv] False by simp
  also have "\<dots> = concat (map (seg_unacked b) (drop j (segments b)))"
    using j(1,3) same_start_off [of ?b b] Cons_nth_drop_Suc [OF j(1), symmetric]
    by (auto simp: seg_unacked_def)
  also have "\<dots> = unacked b" using unacked_split [OF j(1,4)] by simp
  finally show ?thesis using rw mv inv by simp
qed

section \<open>Retention\<close>

definition dropped_total :: "buffer \<Rightarrow> int" where
  "dropped_total b = sum_list (map snd (samplesDropped (stats b)))"

text \<open>No bytes of an unacknowledged record have been damaged.\<close>

definition intact :: "buffer \<Rightarrow> bool" where
  "intact b \<longleftrightarrow> list_all (\<lambda>s. ackedSegID b \<le> seg_id s \<longrightarrow> list_all valid (seg_items s (start_off b s))) (segments b)"

lemma payloads_all_valid: "list_all valid is \<Longrightarrow> length (payloads is) = length is \<and> records_in is = length is"
  by (induction "is") (auto simp: valid_def)

lemma unackedRecords_eq:
  assumes "core_inv b" and "s \<in> set (segments b)"
  shows "unackedRecords b s = 0 \<Longrightarrow> seg_unacked b s = []"
    and "intact b \<Longrightarrow> unackedRecords b s = length (seg_unacked b s)"
proof -
  have inv: "seg_inv b s" using assms by (auto simp: core_inv_def list_all_iff)
  have none: "records_in is = 0 \<Longrightarrow> payloads is = []" for "is"
    by (induction "is") (auto simp: valid_def split: if_splits)
  have eq: "unackedRecords b s =
      (if seg_id s < ackedSegID b then 0
       else if ackedSegID b < seg_id s then records_in (seg_items s 0) else length (seg_items s (start_off b s)))"
    using inv by (auto simp: unackedRecords_def seg_inv_def counted_def start_off_def records_from_eq)
  show "unackedRecords b s = 0 \<Longrightarrow> seg_unacked b s = []"
    unfolding eq by (auto simp: seg_unacked_def start_off_def none split: if_splits)
  show "intact b \<Longrightarrow> unackedRecords b s = length (seg_unacked b s)"
    unfolding eq using assms(2) payloads_all_valid
    by (auto simp: seg_unacked_def start_off_def intact_def list_all_iff split: if_splits)
qed

lemma remove_core:
  assumes "core_inv b" and "segments b = s # rest" and b'_def: "b' = removeOldestSegment r now b"
  shows "core_inv b'" "unacked b = seg_unacked b s @ unacked b'" "segments b' = rest"
    "opt_maxSize b' = opt_maxSize b" "opt_maxAge b' = opt_maxAge b" "nextSegID b' = nextSegID b"
    "ackedSegID b' = ackedSegID b" "ackedOff b' = ackedOff b" "acked_file b' = acked_file b"
    "dropped_total b' = dropped_total b + (if r \<noteq> [] then int (unackedRecords b s) else 0)"
    "intact b \<Longrightarrow> intact b'"
proof -
  show f: "segments b' = rest" "opt_maxSize b' = opt_maxSize b" "opt_maxAge b' = opt_maxAge b"
    "nextSegID b' = nextSegID b" "ackedSegID b' = ackedSegID b" "ackedOff b' = ackedOff b" "acked_file b' = acked_file b"
    using assms(2) by (simp_all add: b'_def removeOldestSegment_def Let_def)
  note same = same_start_off [OF f(5,6)]
  have wf: "wf_map (samplesDropped (stats b))" using assms(1) by (simp add: core_inv_def)
  have st: "bytesUsed (stats b') = bytesUsed (stats b) - int (fileSize s)"
    using assms(2) by (simp add: b'_def removeOldestSegment_def count_dropped_def Let_def)
  have "wf_map (samplesDropped (stats b'))"
    using assms(2) wf by (simp add: b'_def removeOldestSegment_def count_dropped_def Let_def gomap)
  then show "core_inv b'" using assms(1,2) f same st by (simp add: core_inv_def)
  show "unacked b = seg_unacked b s @ unacked b'" using f same assms(2) by (simp add: unacked_def)
  show "dropped_total b' = dropped_total b + (if r \<noteq> [] then int (unackedRecords b s) else 0)"
    using assms(2) sum_list_add_count [OF wf]
    by (simp add: b'_def removeOldestSegment_def count_dropped_def Let_def dropped_total_def)
  show "intact b \<Longrightarrow> intact b'" using f same assms(2) by (simp add: intact_def)
qed

lemma remove_cursor:
  assumes "buf_inv b" and "segments b = s # rest" and b'_def: "b' = removeOldestSegment r now b"
  shows "cursor_inv b'" "pending b = (if nextReadSeg b = 0 then payloads (seg_items s (nextReadOff b)) else []) @ pending b'"
    "at_cursor b tok \<Longrightarrow> at_cursor b' tok" "nextReadSeg b = 0 \<Longrightarrow> pending b' = unacked b'"
proof -
  have core: "core_inv b" using assms(1) by (simp add: buf_inv_def)
  note f = remove_core [OF core assms(2) b'_def]
  note same = same_start_off [OF f(7,8)]
  have r: "nextReadSeg b' = nextReadSeg b - 1" "nextReadOff b' = (if nextReadSeg b = 0 then 0 else nextReadOff b)"
    using assms(2) by (simp_all add: b'_def removeOldestSegment_def Let_def)
  have ne: "segments b \<noteq> []" using assms(2) by simp
  note c = cursorD [OF assms(1) ne]
  have first: "ackedSegID b < seg_id (hd rest)" "boundary (hd rest) 0" "start_off b (hd rest) = 0" "seg_id s < seg_id (hd rest)"
    if "rest \<noteq> []" "nextReadSeg b = 0"
    using that after_cursor [OF assms(1), of 1] ids_increase [OF assms(1), of 0 1] assms(2)
    by (auto simp: hd_conv_nth)
  have bound: "nextReadSeg b' < length rest" if "rest \<noteq> []"
    using that c(1) r(1) assms(2) by (cases "nextReadSeg b") auto
  show "cursor_inv b'"
  proof (cases "nextReadSeg b = 0")
    case True
    then show ?thesis using f(3,7) same r first reach_refl
      by (auto simp: cursor_inv_def hd_conv_nth [symmetric] order_less_imp_le)
  next
    case False
    then have "rest \<noteq> []" using c(1) assms(2) by auto
    with False show ?thesis using f(3,7) same r c bound assms(2) by (simp add: cursor_inv_def)
  qed
  show "pending b = (if nextReadSeg b = 0 then payloads (seg_items s (nextReadOff b)) else []) @ pending b'"
  proof (cases "nextReadSeg b = 0")
    case True
    then show ?thesis using f(3) r assms(2) by (cases rest) (simp_all add: pending_def)
  next
    case False
    then obtain k where "nextReadSeg b = Suc k" by (cases "nextReadSeg b") auto
    then show ?thesis using f(3) r assms(2) c(1) by (simp add: pending_def)
  qed
  show "pending b' = unacked b'" if zero: "nextReadSeg b = 0"
  proof -
    have "seg_unacked b x = payloads (seg_items x 0)" if "x \<in> set rest" for x
    proof -
      from that obtain i where "i < length rest" "x = rest ! i" by (metis in_set_conv_nth)
      then have "x = segments b ! Suc i" "Suc i < length (segments b)" using assms(2) by simp_all
      with after_cursor [OF assms(1), of "Suc i"] zero show ?thesis by (auto simp: seg_unacked_def)
    qed
    then show ?thesis using f(3) same r zero unfolding pending_def unacked_def
      by (cases rest) (auto cong: map_cong)
  qed
  show "at_cursor b' tok" if "at_cursor b tok"
  proof (cases "nextReadSeg b = 0")
    case True
    then show ?thesis using that f(3,6,7) r first assms(2) by (fastforce simp: at_cursor_def)
  next
    case False
    then show ?thesis using that f(3,6,7) r assms(2) by (auto simp: at_cursor_def)
  qed
qed

text \<open>What a retention policy does: whole segments go from the front, and the records lost are counted.\<close>

definition trim :: "buffer \<Rightarrow> buffer \<Rightarrow> bool" where
  "trim b b' \<longleftrightarrow> core_inv b' \<and> opt_maxSize b' = opt_maxSize b \<and> opt_maxAge b' = opt_maxAge b \<and>
     nextSegID b' = nextSegID b \<and> ackedSegID b' = ackedSegID b \<and> ackedOff b' = ackedOff b \<and> acked_file b' = acked_file b \<and>
     (\<exists>n. segments b' = drop n (segments b)) \<and>
     (\<exists>xs. unacked b = xs @ unacked b' \<and> (intact b \<longrightarrow> intact b' \<and> dropped_total b' = dropped_total b + int (length xs))) \<and>
     (cursor_inv b \<longrightarrow> cursor_inv b' \<and> (\<exists>ys. pending b = ys @ pending b' \<and> (ys = [] \<or> pending b' = unacked b')) \<and>
        (\<forall>tok. at_cursor b tok \<longrightarrow> at_cursor b' tok))"

lemma trim_refl: "core_inv b \<Longrightarrow> trim b b"
  by (auto simp: trim_def intro: exI [of _ 0])

lemma trim_trans:
  assumes "trim a b" and "trim b c"
  shows "trim a c"
proof -
  have pend: "\<exists>ys. pending a = ys @ pending c \<and> (ys = [] \<or> pending c = unacked c)" if "cursor_inv a"
  proof -
    from assms that obtain xs ys zs us where y: "pending a = ys @ pending b" "ys = [] \<or> pending b = unacked b"
      and z: "pending b = zs @ pending c" "zs = [] \<or> pending c = unacked c" and x: "unacked b = xs @ unacked c"
      and inv: "core_inv c" "cursor_inv c"
      unfolding trim_def by blast
    from inv have "buf_inv c" by (simp add: buf_inv_def)
    then obtain us where u: "unacked c = us @ pending c" using pending_suffix by blast
    have "us = []" if "pending b = unacked b" "zs = []" using that z(1) x u by simp
    with y z u show ?thesis by (intro exI [of _ "ys @ zs"]) auto
  qed
  have segs: "\<exists>n. segments c = drop n (segments a)"
    using assms unfolding trim_def by (metis drop_drop)
  have un: "\<exists>xs. unacked a = xs @ unacked c \<and> (intact a \<longrightarrow> intact c \<and> dropped_total c = dropped_total a + int (length xs))"
  proof -
    from assms obtain xs ys where x: "unacked a = xs @ unacked b"
        "intact a \<longrightarrow> intact b \<and> dropped_total b = dropped_total a + int (length xs)"
      and y: "unacked b = ys @ unacked c" "intact b \<longrightarrow> intact c \<and> dropped_total c = dropped_total b + int (length ys)"
      unfolding trim_def by blast
    then show ?thesis by (intro exI [of _ "xs @ ys"]) auto
  qed
  from assms have "core_inv c \<and> opt_maxSize c = opt_maxSize a \<and> opt_maxAge c = opt_maxAge a \<and>
     nextSegID c = nextSegID a \<and> ackedSegID c = ackedSegID a \<and> ackedOff c = ackedOff a \<and> acked_file c = acked_file a"
    unfolding trim_def by (elim conjE) (intro conjI; simp only:)
  moreover have "cursor_inv a \<longrightarrow> cursor_inv c \<and> (\<forall>tok. at_cursor a tok \<longrightarrow> at_cursor c tok)"
    using assms unfolding trim_def by blast
  ultimately show ?thesis using segs un pend unfolding trim_def by blast
qed

lemma trimD:
  assumes "trim b b'"
  shows "core_inv b'" "ackedSegID b' = ackedSegID b" "opt_maxSize b' = opt_maxSize b" "nextSegID b' = nextSegID b"
    "\<exists>n. segments b' = drop n (segments b)"
    "\<exists>xs. unacked b = xs @ unacked b' \<and> (intact b \<longrightarrow> intact b' \<and> dropped_total b' = dropped_total b + int (length xs))"
  using assms unfolding trim_def by blast+

lemma trim_remove:
  assumes "core_inv b" and "segments b \<noteq> []" and "r \<noteq> []"
  shows "trim b (removeOldestSegment r now b)"
proof -
  obtain s rest where s: "segments b = s # rest" using assms(2) by (cases "segments b") auto
  note f = remove_core [OF assms(1) s refl, of r now]
  have cur: "cursor_inv b \<Longrightarrow> buf_inv b" using assms(1) by (simp add: buf_inv_def)
  have "unackedRecords b s = length (seg_unacked b s)" if "intact b"
    using unackedRecords_eq(2) [OF assms(1) _ that] s by simp
  moreover have "\<exists>ys. pending b = ys @ pending (removeOldestSegment r now b) \<and>
      (ys = [] \<or> pending (removeOldestSegment r now b) = unacked (removeOldestSegment r now b))" if "cursor_inv b"
    using remove_cursor(2,4) [OF cur [OF that] s refl, of r now] by (cases "nextReadSeg b = 0") auto
  ultimately show ?thesis
    using f assms(3) s remove_cursor(1,3) [OF cur s refl]
    unfolding trim_def by (intro conjI) (auto intro: exI [of _ 1])
qed

lemma enforceMaxSize_trim: "core_inv b \<Longrightarrow> trim b (enforceMaxSize now b)"
proof (induction now b rule: enforceMaxSize.induct)
  case (1 now b)
  show ?case
  proof (cases "opt_maxSize b < bytesUsed (stats b) \<and> segments b \<noteq> []")
    case True
    then have t: "trim b (removeOldestSegment ''size_limit'' now b)" using trim_remove [OF 1(2)] by blast
    then have "core_inv (removeOldestSegment ''size_limit'' now b)" by (simp add: trim_def)
    from trim_trans [OF t 1(1) [OF True this]] True show ?thesis by (subst enforceMaxSize.simps) simp
  next
    case False
    with trim_refl [OF 1(2)] show ?thesis by (subst enforceMaxSize.simps) auto
  qed
qed

lemma enforceMaxAge_trim: "core_inv b \<Longrightarrow> trim b (enforceMaxAge now b)"
proof (induction now b rule: enforceMaxAge.induct)
  case (1 now b)
  show ?case
  proof (cases "segments b \<noteq> [] \<and> opt_maxAge b < time_sub now (lastWrite (hd (segments b)))")
    case True
    then have t: "trim b (removeOldestSegment ''age_limit'' now b)" using trim_remove [OF 1(2)] by blast
    then have "core_inv (removeOldestSegment ''age_limit'' now b)" by (simp add: trim_def)
    from trim_trans [OF t 1(1) [OF True this]] True show ?thesis by (subst enforceMaxAge.simps) simp
  next
    case False
    with trim_refl [OF 1(2)] show ?thesis by (subst enforceMaxAge.simps) auto
  qed
qed

lemma enforceMaxSize_bound: "bytesUsed (stats (enforceMaxSize now b)) \<le> opt_maxSize b \<or> segments (enforceMaxSize now b) = []"
proof (induction now b rule: enforceMaxSize.induct)
  case (1 now b)
  have "opt_maxSize (removeOldestSegment r now b) = opt_maxSize b" for r
    by (simp add: removeOldestSegment_def Let_def split: list.split)
  with 1 show ?case by (subst (1 2) enforceMaxSize.simps) auto
qed

lemma sum_drop_le: "sum_list (map (int \<circ> fileSize) (drop n ss)) \<le> sum_list (map (int \<circ> fileSize) ss)"
proof -
  have "0 \<le> sum_list (map (int \<circ> fileSize) (take n ss))" by (rule sum_list_nonneg) auto
  moreover have "sum_list (map (int \<circ> fileSize) ss) =
      sum_list (map (int \<circ> fileSize) (take n ss)) + sum_list (map (int \<circ> fileSize) (drop n ss))"
    by (metis append_take_drop_id map_append sum_list_append)
  ultimately show ?thesis by simp
qed

lemma trim_bytes: "core_inv b \<Longrightarrow> trim b b' \<Longrightarrow> bytesUsed (stats b') \<le> bytesUsed (stats b)"
  using sum_drop_le by (fastforce simp: trim_def core_inv_def)

text \<open>Dropping acknowledged segments changes nothing a reader can see.\<close>

definition shed :: "buffer \<Rightarrow> buffer \<Rightarrow> bool" where
  "shed b b' \<longleftrightarrow> core_inv b' \<and> opt_maxSize b' = opt_maxSize b \<and> opt_maxAge b' = opt_maxAge b \<and>
     nextSegID b' = nextSegID b \<and> ackedSegID b' = ackedSegID b \<and> ackedOff b' = ackedOff b \<and> acked_file b' = acked_file b \<and>
     (\<exists>n. segments b' = drop n (segments b)) \<and> (segments b \<noteq> [] \<longrightarrow> segments b' \<noteq> []) \<and>
     unacked b' = unacked b \<and> dropped_total b' = dropped_total b \<and> (intact b \<longrightarrow> intact b') \<and>
     (cursor_inv b \<longrightarrow> cursor_inv b' \<and> pending b' = pending b)"

lemma shed_refl: "core_inv b \<Longrightarrow> shed b b"
  by (auto simp: shed_def intro: exI [of _ 0])

lemma shed_trans: "shed a b \<Longrightarrow> shed b c \<Longrightarrow> shed a c"
  unfolding shed_def by (elim conjE exE) (intro conjI; fastforce simp: drop_drop)

lemma shedD:
  assumes "shed b b'"
  shows "core_inv b'" "ackedSegID b' = ackedSegID b" "\<exists>n. segments b' = drop n (segments b)"
    "unacked b' = unacked b" "dropped_total b' = dropped_total b" "intact b \<Longrightarrow> intact b'"
  using assms unfolding shed_def by blast+

lemma shed_remove:
  assumes "core_inv b" and "1 < length (segments b)" and "unackedRecords b (hd (segments b)) = 0"
  shows "shed b (removeOldestSegment [] now b)"
proof -
  obtain s rest where s: "segments b = s # rest" "rest \<noteq> []" using assms(2) by (cases "segments b") auto
  note f = remove_core [OF assms(1) s(1) refl, of "[]" now]
  have none: "seg_unacked b s = []" using unackedRecords_eq(1) [OF assms(1)] assms(3) s by simp
  have "cursor_inv (removeOldestSegment [] now b) \<and> pending (removeOldestSegment [] now b) = pending b" if c: "cursor_inv b"
  proof -
    have inv: "buf_inv b" using c assms(1) by (simp add: buf_inv_def)
    note r = remove_cursor [OF inv s(1) refl]
    have "payloads (seg_items s (nextReadOff b)) = []" if "nextReadSeg b = 0"
    proof -
      have "ackedSegID b \<le> seg_id s" "reach s (start_off b s) (nextReadOff b)"
        using cursorD [OF inv] s that by auto
      with none show ?thesis by (auto simp: seg_unacked_def split: if_splits elim!: reachE)
    qed
    then show ?thesis using r(1) r(2) [of "[]" now] by (auto split: if_splits)
  qed
  then show ?thesis using f none s unfolding shed_def by (auto intro: exI [of _ 1])
qed

lemma dropAckedSegments_shed: "core_inv b \<Longrightarrow> shed b (dropAckedSegments now b)"
proof (induction now b rule: dropAckedSegments.induct)
  case (1 now b)
  show ?case
  proof (cases "1 < length (segments b) \<and> unackedRecords b (hd (segments b)) = 0")
    case True
    then have t: "shed b (removeOldestSegment [] now b)" using shed_remove [OF 1(2)] by blast
    then have "core_inv (removeOldestSegment [] now b)" by (simp add: shed_def)
    from shed_trans [OF t 1(1) [OF True this]] True show ?thesis by (subst dropAckedSegments.simps) simp
  next
    case False
    with shed_refl [OF 1(2)] show ?thesis by (subst dropAckedSegments.simps) auto
  qed
qed

section \<open>Acknowledging\<close>

text \<open>Moving the checkpoint to the cursor.\<close>

lemma ack_segments:
  assumes inv: "buf_inv b" and tok: "at_cursor b tok" and i: "i < length (segments b)"
  defines "b1 \<equiv> b\<lparr>ackedSegID := fst tok, ackedOff := snd tok\<rparr>" and "s \<equiv> segments b ! i"
  shows "fst tok < seg_id s \<Longrightarrow> counted s 0 \<and> start_off b s = 0 \<and> start_off b1 s = 0"
    and "fst tok = seg_id s \<Longrightarrow> i = nextReadSeg b \<and> start_off b1 s = nextReadOff b"
    and "seg_inv b1 s"
    and "intact b \<Longrightarrow> fst tok \<le> seg_id s \<Longrightarrow> list_all valid (seg_items s (start_off b1 s))"
proof -
  have ne: "segments b \<noteq> []" using i by auto
  note c = cursorD [OF inv ne] and si = seg_inv_nth [OF inv i, folded s_def]
  have lt: "ackedSegID b \<le> fst tok" using tok by (simp add: at_cursor_def)
  have less: "counted s 0 \<and> start_off b s = 0 \<and> start_off b1 s = 0" if "fst tok < seg_id s"
    using that lt si by (auto simp: seg_inv_def start_off_def b1_def)
  have same: "i = nextReadSeg b \<and> start_off b1 s = nextReadOff b" if eq: "fst tok = seg_id s"
  proof -
    have "\<not> fst tok < seg_id (hd (segments b))"
      using eq ids_increase [OF inv, of 0 i] i ne by (cases "i = 0") (auto simp: s_def hd_conv_nth)
    then have t: "tok = (seg_id (segments b ! nextReadSeg b), nextReadOff b)" using tok ne by (auto simp: at_cursor_def)
    then have "i = nextReadSeg b"
      using eq ids_increase [OF inv, of i "nextReadSeg b"] ids_increase [OF inv, of "nextReadSeg b" i] i c(1)
      by (cases i "nextReadSeg b" rule: linorder_cases) (auto simp: s_def)
    with t eq show ?thesis by (simp add: start_off_def b1_def)
  qed
  show "fst tok < seg_id s \<Longrightarrow> counted s 0 \<and> start_off b s = 0 \<and> start_off b1 s = 0" by (rule less)
  show "fst tok = seg_id s \<Longrightarrow> i = nextReadSeg b \<and> start_off b1 s = nextReadOff b" by (rule same)
  show "seg_inv b1 s"
  proof (cases "fst tok" "seg_id s" rule: linorder_cases)
    case less': less
    then show ?thesis using si less by (auto simp: seg_inv_def counted_def)
  next
    case equal
    then show ?thesis using si same [OF equal] c(5) by (auto simp: seg_inv_def s_def b1_def)
  next
    case greater
    then show ?thesis using si by (auto simp: seg_inv_def b1_def)
  qed
  show "list_all valid (seg_items s (start_off b1 s))" if "intact b" "fst tok \<le> seg_id s"
  proof (cases "fst tok = seg_id s")
    case True
    have "list_all valid (seg_items s (start_off b s))"
      using that lt i by (auto simp: intact_def list_all_length s_def)
    with same [OF True] c(3) show ?thesis by (auto simp: s_def elim!: reachE)
  next
    case False
    with that have "fst tok < seg_id s" by simp
    with less [OF this] that lt i show ?thesis by (auto simp: intact_def list_all_length s_def)
  qed
qed

lemma ack_position:
  assumes inv: "buf_inv b" and tok: "at_cursor b tok" and b1: "b1 = b\<lparr>ackedSegID := fst tok, ackedOff := snd tok\<rparr>"
  shows "buf_inv b1" "unacked b1 = pending b" "pending b1 = pending b" "intact b \<Longrightarrow> intact b1"
proof -
  note segs = ack_segments [OF inv tok, folded b1]
  have lt: "fst tok < nextSegID b" using tok by (simp add: at_cursor_def)
  have core: "core_inv b1"
    using inv segs(3) lt by (auto simp: b1 buf_inv_def core_inv_def list_all_length)
  show pend: "pending b1 = pending b" by (simp add: b1 pending_def)
  show "intact b \<Longrightarrow> intact b1" using segs(4) by (auto simp: b1 intact_def list_all_length)
  have "cursor_inv b1 \<and> unacked b1 = pending b"
  proof (cases "segments b = []")
    case True
    then show ?thesis using inv by (simp add: b1 buf_inv_def cursor_inv_def unacked_def pending_def)
  next
    case ne: False
    let ?k = "nextReadSeg b" and ?s = "segments b ! nextReadSeg b"
    note c = cursorD [OF inv ne]
    have le: "fst tok \<le> seg_id ?s"
      using tok ne by (auto simp: at_cursor_def hd_conv_nth)
    have off: "start_off b1 ?s = nextReadOff b"
    proof (cases "fst tok = seg_id ?s")
      case True
      with segs(2) [OF c(1)] show ?thesis by simp
    next
      case False
      then have "nextReadOff b = 0" using tok ne by (auto simp: at_cursor_def)
      with False le segs(1) [OF c(1)] show ?thesis by simp
    qed
    have before: "\<forall>m < ?k. seg_id (segments b1 ! m) < ackedSegID b1"
      using tok ne ids_increase [OF inv _ c(1)] by (auto simp: at_cursor_def b1)
    have cur: "cursor_inv b1"
      using ne c(1,5) le off reach_refl by (simp add: cursor_inv_def b1)
    have "unacked b1 = concat (map (seg_unacked b1) (drop ?k (segments b)))"
      using unacked_split [of ?k b1] before c(1) by (simp add: b1)
    also have "\<dots> = payloads (seg_items ?s (nextReadOff b)) @ concat (map (seg_unacked b1) (drop (?k + 1) (segments b)))"
      using Cons_nth_drop_Suc [OF c(1), symmetric] le off by (auto simp: seg_unacked_def b1)
    also have "\<dots> = pending b1"
      using pending_eq [of b1] cur core ne by (simp add: buf_inv_def b1)
    finally show ?thesis using cur pend by simp
  qed
  with core show "buf_inv b1" "unacked b1 = pending b" by (simp_all add: buf_inv_def)
qed

lemma ack_ok:
  assumes "buf_inv b" and "at_cursor b tok" and "ack io now tok b = (b', e)"
  shows "buf_inv b' \<and> unacked b' = pending b \<and> pending b' = pending b \<and> dropped_total b' = dropped_total b \<and>
    nextSegID b' = nextSegID b \<and> (intact b \<longrightarrow> intact b')"
proof -
  let ?b1 = "b\<lparr>ackedSegID := fst tok, ackedOff := snd tok\<rparr>"
  note pos = ack_position [OF assms(1,2) refl]
  have "shed ?b1 (dropAckedSegments now ?b1)" using pos(1) dropAckedSegments_shed by (simp add: buf_inv_def)
  moreover have "dropped_total ?b1 = dropped_total b" by (simp add: dropped_total_def)
  moreover have fields: "buf_inv (c\<lparr>acked_file := f\<rparr>) = buf_inv c" "unacked (c\<lparr>acked_file := f\<rparr>) = unacked c"
    "pending (c\<lparr>acked_file := f\<rparr>) = pending c" "dropped_total (c\<lparr>acked_file := f\<rparr>) = dropped_total c"
    "intact (c\<lparr>acked_file := f\<rparr>) = intact c" for c f
    using same_start_off [of "c\<lparr>acked_file := f\<rparr>" c]
    by (simp_all add: buf_inv_def core_inv_def cursor_inv_def unacked_def pending_def dropped_total_def intact_def)
  ultimately show ?thesis
    using assms(3) pos by (auto simp: ack_def saveAckedPosition_def shed_def buf_inv_def split: option.splits)
qed

section \<open>Appending\<close>

lemma bufferFull_fields [simp]:
  fixes b v defines "b' \<equiv> b\<lparr>stats := (stats b)\<lparr>bufferFull := v\<rparr>\<rparr>"
  shows "buf_inv b' = buf_inv b" "unacked b' = unacked b" "pending b' = pending b" "dropped_total b' = dropped_total b"
    "intact b' = intact b" "at_cursor b' tok = at_cursor b tok"
proof -
  have "start_off b' = start_off b \<and> seg_unacked b' = seg_unacked b \<and> seg_inv b' = seg_inv b"
    by (rule same_start_off) (simp_all add: b'_def)
  then show "buf_inv b' = buf_inv b" "unacked b' = unacked b" "pending b' = pending b" "dropped_total b' = dropped_total b"
    "intact b' = intact b" "at_cursor b' tok = at_cursor b tok"
    unfolding b'_def
    by (simp_all add: buf_inv_def core_inv_def cursor_inv_def unacked_def pending_def dropped_total_def intact_def at_cursor_def)
qed

lemma handleWriteError_fields [simp]:
  "buf_inv (handleWriteError e b) = buf_inv b" "unacked (handleWriteError e b) = unacked b"
  "pending (handleWriteError e b) = pending b" "dropped_total (handleWriteError e b) = dropped_total b"
  "intact (handleWriteError e b) = intact b" "at_cursor (handleWriteError e b) tok = at_cursor b tok"
  "nextSegID (handleWriteError e b) = nextSegID b" "segments (handleWriteError e b) = segments b"
  "opt_maxSize (handleWriteError e b) = opt_maxSize b" "opt_maxAge (handleWriteError e b) = opt_maxAge b"
  "acked_file (handleWriteError e b) = acked_file b"
  by (simp_all add: handleWriteError_def)

text \<open>A step that adds no record and loses none.\<close>

definition kept :: "buffer \<Rightarrow> buffer \<Rightarrow> bool" where
  "kept b b' \<longleftrightarrow> buf_inv b' \<and> unacked b' = unacked b \<and> pending b' = pending b \<and> dropped_total b' = dropped_total b \<and>
     (intact b \<longrightarrow> intact b') \<and> (\<forall>tok. at_cursor b tok \<longrightarrow> at_cursor b' tok) \<and> opt_maxSize b' = opt_maxSize b \<and>
     opt_maxAge b' = opt_maxAge b \<and> acked_file b' = acked_file b"

lemma kept_refl: "buf_inv b \<Longrightarrow> kept b b"
  by (simp add: kept_def)

lemma kept_trans: "kept a b \<Longrightarrow> kept b c \<Longrightarrow> kept a c"
  by (simp add: kept_def)

lemma kept_error: "kept b b' \<Longrightarrow> kept b (handleWriteError e b')"
  by (simp add: kept_def)

lemma next_id:
  fixes w :: "32 word"
  assumes "w \<noteq> - 1"
  shows "w < w + 1"
proof -
  have "1 + w \<noteq> 0" using assms by (metis add_eq_0_iff)
  then have "unat (1 + w) = Suc (unat w)" by (rule unatSuc)
  then show ?thesis by (simp add: word_less_nat_alt add.commute)
qed

lemma kept_bump_id:
  assumes "buf_inv b" and "nextSegID b \<noteq> - 1"
  shows "kept b (b\<lparr>nextSegID := nextSegID b + 1\<rparr>)"
proof -
  let ?b = "b\<lparr>nextSegID := nextSegID b + 1\<rparr>"
  have lt: "nextSegID b < nextSegID b + 1" using next_id [OF assms(2)] .
  have "core_inv ?b"
    using assms(1) lt same_start_off [of ?b b]
    by (auto simp: buf_inv_def core_inv_def list_all_iff intro: order_less_trans)
  moreover have "cursor_inv ?b" using assms(1) same_start_off [of ?b b] by (simp add: buf_inv_def cursor_inv_def)
  moreover have "at_cursor b tok \<Longrightarrow> at_cursor ?b tok" for tok using lt by (auto simp: at_cursor_def)
  ultimately show ?thesis using same_start_off [of ?b b]
    by (auto simp: kept_def buf_inv_def unacked_def pending_def dropped_total_def intact_def)
qed

lemma add_segment_ok:
  assumes "buf_inv b" and "nextSegID b \<noteq> - 1" and "add_segment create now b = (b', e)"
  shows "kept b b' \<and> (e = None \<longrightarrow> segments b' \<noteq> [] \<and> seg_id (last (segments b')) = nextSegID b) \<and>
    (e \<noteq> None \<longrightarrow> segments b' = segments b) \<and> nextSegID b' = nextSegID b + 1"
proof (cases create)
  case (Some err)
  then show ?thesis using assms kept_error [OF kept_bump_id [OF assms(1,2)]]
    by (auto simp: add_segment_def newSegment_def Let_def)
next
  case None
  let ?s = "\<lparr>seg_file = [], seg_id = nextSegID b, createdAt = now, lastWrite = now,
    seg_maxSize = segmentSize (opt_maxSize b), recordCount = 0, fileSize = 0\<rparr>"
  have b': "b' = b\<lparr>nextSegID := nextSegID b + 1, stats := (stats b)\<lparr>st_segments := st_segments (stats b) + 1\<rparr>,
      segments := segments b @ [?s]\<rparr>" and e: "e = None"
    using assms(3) None by (simp_all add: add_segment_def newSegment_def Let_def)
  have same: "start_off b' = start_off b \<and> seg_unacked b' = seg_unacked b \<and> seg_inv b' = seg_inv b"
    by (rule same_start_off) (simp_all add: b')
  have lt: "nextSegID b < nextSegID b + 1" using next_id [OF assms(2)] .
  have ids: "s \<in> set (segments b) \<Longrightarrow> seg_id s < nextSegID b" for s
    using assms(1) by (auto simp: buf_inv_def core_inv_def list_all_iff)
  have acked: "ackedSegID b < nextSegID b \<or> ackedSegID b = nextSegID b \<and> ackedOff b = 0"
    using assms(1) by (simp add: buf_inv_def core_inv_def)
  then have start: "start_off b ?s = 0" by (auto simp: start_off_def)
  have new: "seg_ok ?s" "boundary ?s 0" "seg_items ?s 0 = []" "counted ?s 0"
    by (auto simp: seg_ok_def boundary_def seg_body_def seg_items_def counted_def parse.simps intro!: exI [of _ "[]"])
  have core: "core_inv b'"
    using assms(1) same new start ids acked lt
    by (auto simp: b' buf_inv_def core_inv_def seg_inv_def sorted_wrt_append list_all_iff intro: order_less_trans)
  have cur: "cursor_inv b'"
  proof (cases "segments b = []")
    case True
    then show ?thesis using assms(1) acked same start reach_refl [OF new(2)]
      by (auto simp: b' buf_inv_def cursor_inv_def)
  next
    case False
    then show ?thesis using cursorD [OF assms(1) False] same by (simp add: b' cursor_inv_def nth_append)
  qed
  have "unacked b' = unacked b"
    using same new(3) start by (simp add: b' unacked_def seg_unacked_def)
  moreover have "pending b' = pending b"
  proof (cases "segments b = []")
    case True
    then show ?thesis using assms(1) new(3) by (simp add: b' pending_def buf_inv_def cursor_inv_def)
  next
    case False
    then show ?thesis using cursorD(1) [OF assms(1) False] new(3) by (simp add: b' pending_def nth_append)
  qed
  moreover have "at_cursor b' tok" if t: "at_cursor b tok" for tok
  proof (cases "segments b = []")
    case True
    then show ?thesis using t assms(1) lt by (auto simp: b' at_cursor_def buf_inv_def cursor_inv_def)
  next
    case False
    then show ?thesis using t cursorD(1) [OF assms(1) False] lt
      by (auto simp: b' at_cursor_def nth_append hd_append)
  qed
  moreover have "intact b \<Longrightarrow> intact b'" using same new(3) start by (simp add: b' intact_def)
  ultimately show ?thesis using core cur e by (simp add: kept_def buf_inv_def b' dropped_total_def)
qed

text \<open>Replacing the active segment by one with more items.\<close>

lemma replace_last:
  assumes inv: "buf_inv b" and segs: "segments b = xs @ [s]"
    and t: "seg_id t = seg_id s" "seg_ok t" "counted s 0 \<Longrightarrow> counted t 0"
    and reach: "\<And>a c. reach s a c \<Longrightarrow> reach t a c"
    and items: "\<And>a. boundary s a \<Longrightarrow> boundary t a \<and> seg_items t a = seg_items s a @ new"
    and b': "b' = b\<lparr>segments := xs @ [t], stats := st\<rparr>"
    and st: "bytesUsed st = bytesUsed (stats b) + int (fileSize t) - int (fileSize s)"
      "samplesDropped st = samplesDropped (stats b)"
  shows "buf_inv b'" "unacked b' = unacked b @ payloads new" "pending b' = pending b @ payloads new"
    "dropped_total b' = dropped_total b" "intact b \<Longrightarrow> list_all valid new \<Longrightarrow> intact b'"
    "at_cursor b tok \<Longrightarrow> at_cursor b' tok"
proof -
  have same: "start_off b' = start_off b \<and> seg_unacked b' = seg_unacked b \<and> seg_inv b' = seg_inv b"
    by (rule same_start_off) (simp_all add: b')
  have start: "start_off b t = start_off b s" using t(1) by (simp add: start_off_def)
  have ne: "segments b \<noteq> []" using segs by simp
  note c = cursorD [OF inv ne]
  have last: "ackedSegID b \<le> seg_id s"
  proof (cases "nextReadSeg b = length xs")
    case True
    with c(2) segs show ?thesis by simp
  next
    case False
    with c(1) segs ids_increase [OF inv, of "nextReadSeg b" "length xs"] c(2) show ?thesis by simp
  qed
  have si: "seg_inv b s" using inv segs by (simp add: buf_inv_def core_inv_def)
  then have bs: "boundary s (start_off b s)" using last by (simp add: seg_inv_def)
  have ti: "seg_inv b t" using si t items [OF bs] start by (auto simp: seg_inv_def)
  have core: "core_inv b'" using inv segs same ti st t(1) by (auto simp: b' buf_inv_def core_inv_def)
  have nth: "segments b' ! i = (if i = length xs then t else segments b ! i)" if "i < length (segments b)" for i
    using that segs by (auto simp: b' nth_append)
  have cur: "cursor_inv b'"
    using c segs same nth [OF c(1)] start t(1) reach by (auto simp: b' cursor_inv_def nth_append split: if_splits)
  from core cur show "buf_inv b'" by (simp add: buf_inv_def)
  show "unacked b' = unacked b @ payloads new"
    using same segs items [OF bs] start t(1) last by (auto simp: b' unacked_def seg_unacked_def)
  show "pending b' = pending b @ payloads new"
  proof (cases "nextReadSeg b = length xs")
    case True
    then show ?thesis using segs items c(5) by (simp add: b' pending_def)
  next
    case False
    then have k: "nextReadSeg b < length xs" using c(1) segs by simp
    then have "boundary s 0" using after_cursor(2) [OF inv, of "length xs"] segs by simp
    with k items show ?thesis using segs by (simp add: b' pending_def nth_append)
  qed
  show "dropped_total b' = dropped_total b" using st(2) by (simp add: b' dropped_total_def)
  show "intact b'" if "intact b" "list_all valid new"
    using that same segs items [OF bs] start t(1) last by (auto simp: b' intact_def)
  show "at_cursor b' tok" if "at_cursor b tok"
    using that nth [OF c(1)] segs c(1) t(1) by (cases xs) (auto simp: b' at_cursor_def nth_append split: if_splits)
qed

text \<open>What a successful append leaves: the records in order with the new one last, without what the
  retention policies dropped and counted.\<close>

definition appended :: "bytes \<Rightarrow> buffer \<Rightarrow> buffer \<Rightarrow> bool" where
  "appended env b b' \<longleftrightarrow> buf_inv b' \<and>
     (\<exists>xs. unacked b @ [env] = xs @ unacked b' \<and>
        (intact b \<longrightarrow> intact b' \<and> dropped_total b' = dropped_total b + int (length xs))) \<and>
     (\<exists>ys. pending b @ [env] = ys @ pending b' \<and> (ys = [] \<or> pending b' = unacked b')) \<and>
     (\<forall>tok. at_cursor b tok \<longrightarrow> at_cursor b' tok) \<and>
     opt_maxSize b' = opt_maxSize b \<and> opt_maxAge b' = opt_maxAge b \<and> acked_file b' = acked_file b \<and>
     (bytesUsed (stats b') \<le> opt_maxSize b \<or> segments b' = [])"

lemma append_active_ok:
  assumes inv: "buf_inv b" and ne: "segments b \<noteq> []" and env: "env \<noteq> []" "length env + 8 < 2 ^ 32" "io_sane io env"
    and app: "append_active io now env b = (b', e)"
  shows "if e = None then appended env b b' else kept b b'"
    "nextSegID b' = nextSegID b"
proof -
  define xs where "xs = butlast (segments b)"
  define s where "s = last (segments b)"
  have segs: "segments b = xs @ [s]" using ne by (simp add: xs_def s_def)
  obtain s' err where sa: "seg_append io s env = (s', err)" by (cases "seg_append io s env")
  have sok: "seg_ok s" using inv segs by (simp add: buf_inv_def core_inv_def seg_inv_def)
  note ok = seg_append_ok [OF sok env(2,3) sa] and rch = reach_append [OF sok env(2,3) sa]
    and cnt = seg_append_counted [OF sok env(2,1,3) sa]
  have "(if e = None then appended env b b' else kept b b') \<and> nextSegID b' = nextSegID b"
  proof (cases err)
    case (Some x)
    let ?b = "b\<lparr>segments := xs @ [s']\<rparr>"
    have b': "b' = handleWriteError x ?b" "e \<noteq> None"
      using app sa Some by (auto simp: append_active_def xs_def [symmetric] s_def [symmetric])
    have eq: "?b = b\<lparr>segments := xs @ [s'], stats := stats b\<rparr>" by simp
    note r = replace_last [OF inv segs ok(6) ok(1) cnt rch _ eq, of "[]"]
    have "kept b ?b" using r ok(2-4) Some by (auto simp: kept_def)
    then show ?thesis using b' kept_error by auto
  next
    case None
    let ?i = "(computeCRC32C env, env)"
    let ?st = "(stats b)\<lparr>bytesUsed := bytesUsed (stats b) + int (length env) + 8\<rparr>"
    let ?b = "b\<lparr>segments := xs @ [touch now s'], stats := ?st\<rparr>"
    let ?b1 = "enforceMaxSize now ?b" let ?b2 = "enforceMaxAge now ?b1"
    have b': "b' = ?b2\<lparr>stats := (stats ?b2)\<lparr>bufferFull := False\<rparr>\<rparr>" "e = None"
      using app sa None by (auto simp: append_active_def xs_def [symmetric] s_def [symmetric] Let_def)
    have val: "valid ?i" using env(1) by (simp add: valid_def)
    note r = replace_last [OF inv segs, of "touch now s'" "[?i]" ?b ?st]
    have rr: "buf_inv ?b" "unacked ?b = unacked b @ [env]" "pending ?b = pending b @ [env]"
      "dropped_total ?b = dropped_total b" "intact b \<Longrightarrow> intact ?b" "\<And>tok. at_cursor b tok \<Longrightarrow> at_cursor ?b tok"
      using r ok cnt rch None val by auto
    have t1: "trim ?b ?b1" using rr(1) enforceMaxSize_trim by (simp add: buf_inv_def)
    then have t2: "trim ?b1 ?b2" using enforceMaxAge_trim by (simp add: trim_def)
    note t = trim_trans [OF t1 t2]
    have bound: "bytesUsed (stats ?b2) \<le> opt_maxSize b \<or> segments ?b2 = []"
      using enforceMaxSize_bound [of now ?b] trim_bytes [OF _ t2] t1 t2 by (auto simp: trim_def)
    have "appended env b ?b2"
      using t rr bound by (auto simp: appended_def trim_def buf_inv_def)
    then show ?thesis using b' t by (simp add: appended_def trim_def)
  qed
  then show "if e = None then appended env b b' else kept b b'" "nextSegID b' = nextSegID b" by simp_all
qed

lemma appended_kept: "kept b b1 \<Longrightarrow> appended env b1 b2 \<Longrightarrow> appended env b b2"
  by (auto simp: kept_def appended_def)

lemma roll_segment_ok:
  assumes "buf_inv b" and "segments b \<noteq> []" and "nextSegID b \<noteq> - 1" and "roll_segment io now env b = (b', e)"
  shows "kept b b' \<and> segments b' \<noteq> [] \<and> (nextSegID b' = nextSegID b \<or> nextSegID b' = nextSegID b + 1)"
  using assms add_segment_ok [OF assms(1,3), of "io_create io" now] kept_refl [OF assms(1)] kept_error [OF kept_refl [OF assms(1)]]
  by (cases e) (auto simp: roll_segment_def split: if_splits option.splits)

lemma nextSegID_room: "unat w + 2 < 2 ^ 32 \<Longrightarrow> w \<noteq> - 1 \<and> w + 1 \<noteq> - 1" for w :: "32 word"
proof -
  assume a: "unat w + 2 < 2 ^ 32"
  have max: "unat (- 1 :: 32 word) = 2 ^ 32 - 1" by (simp add: unsigned_minus_1_eq_mask mask_eq_exp_minus_1)
  then have n: "w \<noteq> - 1" using a by auto
  then have inc: "unat (w + 1) = unat w + 1" by (metis Suc_eq_plus1 add.commute add_eq_0_iff unatSuc)
  have "w + 1 \<noteq> - 1"
  proof
    assume "w + 1 = - 1"
    from arg_cong [OF this, of unat] inc max a show False by linarith
  qed
  with n show ?thesis by blast
qed

text \<open>
  An append in full. Two segment identifiers must be left: one for a first segment, one for a roll.
\<close>

lemma buf_append_ok:
  assumes inv: "buf_inv b" and room: "unat (nextSegID b) + 2 < 2 ^ 32"
    and env: "length env + 8 < 2 ^ 32" "io_sane (io_append io) env" and app: "buf_append io now env b = (b', e)"
  shows "if e = None then appended env b b' else kept b b'"
    "unat (nextSegID b') \<le> unat (nextSegID b) + 2"
proof -
  note ids = nextSegID_room [OF room]
  have step: "unat (w + 1) \<le> unat w + 1" for w :: "32 word" by (simp add: unat_word_ariths)
  have "(if e = None then appended env b b' else kept b b') \<and> unat (nextSegID b') \<le> unat (nextSegID b) + 2"
  proof (cases "env = []")
    case True
    then show ?thesis using app kept_refl [OF inv] by (auto simp: buf_append_def)
  next
    case ne: False
    obtain b1 e1 where b1: "(if segments b = [] then add_segment (io_create io) now b else (b, None)) = (b1, e1)"
      by fastforce
    have k1: "kept b b1" "e1 = None \<Longrightarrow> segments b1 \<noteq> []" "nextSegID b1 = nextSegID b \<or> nextSegID b1 = nextSegID b + 1"
      using b1 add_segment_ok [OF inv, of "io_create io" now] ids kept_refl [OF inv] by (auto split: if_splits)
    show ?thesis
    proof (cases e1)
      case (Some x)
      then show ?thesis using app ne b1 k1 step [of "nextSegID b"] by (auto simp: buf_append_def)
    next
      case None
      have inv1: "buf_inv b1" "nextSegID b1 \<noteq> - 1" using k1(1,3) ids by (auto simp: kept_def)
      obtain b2 e2 where b2: "roll_segment io now env b1 = (b2, e2)" by fastforce
      note k2 = roll_segment_ok [OF inv1(1) k1(2) [OF None] inv1(2) b2]
      have id2: "unat (nextSegID b2) \<le> unat (nextSegID b) + 2"
        using k1(3) k2 step [of "nextSegID b"] step [of "nextSegID b + 1"] by auto
      show ?thesis
      proof (cases e2)
        case (Some x)
        then show ?thesis using app ne b1 b2 None k1(1) k2 kept_trans id2 by (auto simp: buf_append_def)
      next
        case e2: None
        have act: "append_active (io_append io) now env b2 = (b', e)"
          using app ne b1 b2 None e2 by (simp add: buf_append_def)
        have "buf_inv b2" "segments b2 \<noteq> []" using k2 by (auto simp: kept_def)
        note a = append_active_ok [OF this ne env act]
        have kb: "kept b b2" using kept_trans [OF k1(1)] k2 by blast
        show ?thesis using a kept_trans [OF kb] appended_kept [OF kb] id2 by (auto split: if_splits)
      qed
    qed
  qed
  then show "if e = None then appended env b b' else kept b b'" "unat (nextSegID b') \<le> unat (nextSegID b) + 2" by simp_all
qed

end
