(* ===== verification/Delivery_Queue.thy ===== *)
theory Delivery_Queue
  imports Prelude
begin

text \<open>
  The interface between the pusher and the queue it drains. \<open>drain\<close> is the loop of
  \<^verbatim>\<open>Pusher.pushFromBuffer\<close> over the operations of a queue; the locale \<open>delivery_queue\<close> is what it relies
  on, and what it gets is \<open>deliver_all\<close>: the list of unacknowledged records, sent in order until one
  is to be kept.
\<close>

datatype send_result = Consumed | ConsumedStop | KeepStop

datatype drain_end = Drained | Stopped

text \<open>
  A step of the loop takes the next record, sends it, and acknowledges it or moves the cursor back.
  The operations and the sending share the world \<open>'w\<close>, which has the clock and what the file system
  and the server answer.
\<close>

partial_function (option) drain ::
  "('w \<Rightarrow> 's \<Rightarrow> 's \<times> ('a \<times> 't) option) \<Rightarrow> ('w \<Rightarrow> 't \<Rightarrow> 's \<Rightarrow> 's) \<Rightarrow> ('s \<Rightarrow> 's) \<Rightarrow>
   ('a \<Rightarrow> 'w \<Rightarrow> 'w \<times> send_result) \<Rightarrow> 's \<Rightarrow> 'w \<Rightarrow> ('s \<times> 'w \<times> drain_end) option" where
  "drain nxt ak rew send s w =
     (case nxt w s of
        (s1, None) \<Rightarrow> Some (s1, w, Drained)
      | (s1, Some (x, t)) \<Rightarrow>
          (case send x w of
             (w1, KeepStop) \<Rightarrow> Some (rew s1, w1, Stopped)
           | (w1, ConsumedStop) \<Rightarrow> Some (ak w1 t s1, w1, Stopped)
           | (w1, Consumed) \<Rightarrow> drain nxt ak rew send (ak w1 t s1) w1))"

fun deliver_all :: "('a \<Rightarrow> 'w \<Rightarrow> 'w \<times> send_result) \<Rightarrow> 'a list \<Rightarrow> 'w \<Rightarrow> 'a list \<times> 'w \<times> drain_end" where
  "deliver_all send [] w = ([], w, Drained)"
| "deliver_all send (x # xs) w =
     (case send x w of
        (w1, KeepStop) \<Rightarrow> (x # xs, w1, Stopped)
      | (w1, ConsumedStop) \<Rightarrow> (xs, w1, Stopped)
      | (w1, Consumed) \<Rightarrow> deliver_all send xs w1)"

lemma deliver_all_suffix: "deliver_all send xs w = (ys, w', e) \<Longrightarrow> \<exists>zs. xs = zs @ ys"
  by (induction send xs w rule: deliver_all.induct) (fastforce split: prod.splits send_result.splits)+

text \<open>Two ways of sending that differ in the form of the items and of the world.\<close>

lemma deliver_all_sim:
  assumes "\<And>x y w. R x y \<Longrightarrow> send1 x (f w) = (case send2 y w of (w', r) \<Rightarrow> (f w', r))" and "list_all2 R xs ys"
    and "deliver_all send2 ys w = (rest, w', e)"
  shows "\<exists>rest1. deliver_all send1 xs (f w) = (rest1, f w', e) \<and> list_all2 R rest1 rest"
  using assms(2,3)
proof (induction xs ys arbitrary: w rule: list_all2_induct)
  case (Cons x xs y ys)
  obtain w1 r where r: "send2 y w = (w1, r)" by (cases "send2 y w")
  then have "send1 x (f w) = (f w1, r)" using assms(1) [OF Cons.hyps(1), of w] by simp
  then show ?case using Cons r by (cases r) auto
qed simp

locale delivery_queue =
  fixes inv :: "'s \<Rightarrow> bool" and pend :: "'s \<Rightarrow> 'a list" and unack :: "'s \<Rightarrow> 'a list"
    and held :: "'s \<Rightarrow> 't \<Rightarrow> bool"
    and nxt :: "'w \<Rightarrow> 's \<Rightarrow> 's \<times> ('a \<times> 't) option" and ak :: "'w \<Rightarrow> 't \<Rightarrow> 's \<Rightarrow> 's" and rew :: "'s \<Rightarrow> 's"
  assumes next_empty: "inv s \<Longrightarrow> pend s = [] \<Longrightarrow>
      \<exists>s'. nxt w s = (s', None) \<and> inv s' \<and> pend s' = [] \<and> unack s' = unack s"
    and next_record: "inv s \<Longrightarrow> pend s = x # xs \<Longrightarrow>
      \<exists>s' t. nxt w s = (s', Some (x, t)) \<and> inv s' \<and> pend s' = xs \<and> unack s' = unack s \<and> held s' t"
    and ack_held: "inv s \<Longrightarrow> held s t \<Longrightarrow> inv (ak w t s) \<and> unack (ak w t s) = pend s \<and> pend (ak w t s) = pend s"
    and rewind_all: "inv s \<Longrightarrow> inv (rew s) \<and> pend (rew s) = unack s \<and> unack (rew s) = unack s"
begin

definition aligned :: "'s \<Rightarrow> bool" where
  "aligned s \<longleftrightarrow> inv s \<and> pend s = unack s"

lemma drain_delivers:
  assumes "aligned s" and "deliver_all send (unack s) w = (ys, w', e)"
  shows "\<exists>s'. drain nxt ak rew send s w = Some (s', w', e) \<and> aligned s' \<and> unack s' = ys"
  using assms
proof (induction "unack s" arbitrary: s w)
  case Nil
  then obtain s' where "nxt w s = (s', None)" "inv s'" "pend s' = []" "unack s' = unack s"
    using next_empty [of s w] by (auto simp: aligned_def)
  with Nil show ?case by (subst drain.simps) (auto simp: aligned_def)
next
  case (Cons x xs)
  have "inv s" "pend s = x # xs" using Cons.prems(1) Cons.hyps(2) by (simp_all add: aligned_def)
  then obtain s1 t where s1: "nxt w s = (s1, Some (x, t))" "inv s1" "pend s1 = xs" "unack s1 = x # xs" "held s1 t"
    using next_record [of s x xs w] Cons.hyps(2) by metis
  note acked = ack_held [OF s1(2,5)] and rewound = rewind_all [OF s1(2)]
  obtain w1 r where r: "send x w = (w1, r)" by (cases "send x w")
  have step: "deliver_all send (x # xs) w = (ys, w', e)" using Cons.prems(2) Cons.hyps(2) by simp
  show ?case
  proof (cases r)
    case Consumed
    have "aligned (ak w1 t s1)" and un: "unack (ak w1 t s1) = xs" using acked [of w1] s1(3) by (simp_all add: aligned_def)
    with Cons.hyps(1) [of "ak w1 t s1" w1] step r Consumed s1(1)
    show ?thesis by (subst drain.simps) simp
  next
    case ConsumedStop
    with step r s1(1,3) acked [of w1] show ?thesis by (subst drain.simps) (simp add: aligned_def)
  next
    case KeepStop
    with step r s1(1,4) rewound show ?thesis by (subst drain.simps) (simp add: aligned_def)
  qed
qed

end

end
