(* ===== verification/Buffer_Delivery.thy ===== *)
theory Buffer_Delivery
  imports Buffer_Inv Delivery_Queue
begin

text \<open>
  The disk buffer as a queue with at-least-once delivery: the laws the pusher relies on, and what
  holds over any run of its operations, with any failures of the file system.
\<close>

section \<open>The laws of the queue\<close>

lemma buf_acked_last: "buf_inv b \<Longrightarrow> segments b \<noteq> [] \<Longrightarrow> ackedSegID b \<le> seg_id (last (segments b))"
proof -
  assume inv: "buf_inv b" and ne: "segments b \<noteq> []"
  note c = cursorD [OF inv ne]
  have l: "last (segments b) = segments b ! (length (segments b) - 1)" using ne by (rule last_conv_nth)
  show ?thesis
  proof (cases "nextReadSeg b = length (segments b) - 1")
    case False
    with c(1) have "nextReadSeg b < length (segments b) - 1" "length (segments b) - 1 < length (segments b)" by simp_all
    from ids_increase [OF inv this] c(2) l show ?thesis by simp
  qed (use c(2) l in simp)
qed

lemma rewind_laws: "buf_inv b \<Longrightarrow> buf_inv (rewind b) \<and> pending (rewind b) = unacked b \<and> unacked (rewind b) = unacked b"
  using rewind_ok [of b] buf_acked_last [of b] moved_unacked by (auto simp: buf_inv_def [of b])

interpretation bq: delivery_queue buf_inv pending unacked at_cursor
  "\<lambda>w. next_record (clk w)" "\<lambda>w t b. fst (ack (aio w) (clk w) t b)" rewind
  for clk :: "'w \<Rightarrow> time" and aio :: "'w \<Rightarrow> ioerr option"
proof
  show "\<exists>s'. next_record (clk w) s = (s', None) \<and> buf_inv s' \<and> pending s' = [] \<and> unacked s' = unacked s"
    if "buf_inv s" "pending s = []" for s w
    using next_record_ok [OF that(1), of "clk w"] that(2) moved_unacked by auto
  show "\<exists>s' t. next_record (clk w) s = (s', Some (x, t)) \<and> buf_inv s' \<and> pending s' = xs \<and>
      unacked s' = unacked s \<and> at_cursor s' t" if "buf_inv s" "pending s = x # xs" for s x xs w
    using next_record_ok [OF that(1), of "clk w"] that(2) moved_unacked by fastforce
  show "buf_inv (fst (ack (aio w) (clk w) t s)) \<and> unacked (fst (ack (aio w) (clk w) t s)) = pending s \<and>
      pending (fst (ack (aio w) (clk w) t s)) = pending s" if "buf_inv s" "at_cursor s t" for s t w
    using ack_ok [OF that prod.collapse [symmetric]] by blast
  show "buf_inv (rewind s) \<and> pending (rewind s) = unacked s \<and> unacked (rewind s) = unacked s" if "buf_inv s" for s
    by (rule rewind_laws [OF that])
qed

text \<open>A buffer with one record, for the examples.\<close>

definition clean_io :: buf_io where
  "clean_io = \<lparr>io_create = None, io_sync = None, io_append = io_ok\<rparr>"

definition sample_buffer :: buffer where
  "sample_buffer = fst (buf_append clean_io 0 [1, 2, 3] (empty_buffer 0 0 None))"

lemma empty_buffer_inv:
  "buf_inv (empty_buffer s a f)" "pending (empty_buffer s a f) = []" "unacked (empty_buffer s a f) = []"
  "intact (empty_buffer s a f)" "dropped_total (empty_buffer s a f) = 0"
  by (simp_all add: buf_inv_def core_inv_def cursor_inv_def empty_buffer_def empty_stats_def pending_def unacked_def
      intact_def dropped_total_def wf_map_def)

lemma sample_append:
  assumes "env \<noteq> []" and "length env < 100"
  shows "\<exists>b. buf_append clean_io 0 env (empty_buffer 0 0 None) = (b, None) \<and> dropped_total b = 0 \<and>
    acked_file b = None \<and> ackedSegID b = 0 \<and> ackedOff b = 0 \<and> (\<forall>s \<in> set (segments b). length (seg_file s) < 2 ^ 32)"
proof -
  let ?e = "empty_buffer 0 0 None"
  define s where "s = \<lparr>seg_file = [], seg_id = nextSegID ?e, createdAt = 0, lastWrite = 0,
    seg_maxSize = segmentSize (opt_maxSize ?e), recordCount = 0, fileSize = 0\<rparr>"
  define b1 where "b1 = ?e\<lparr>nextSegID := nextSegID ?e + 1, stats := (stats ?e)\<lparr>st_segments := st_segments (stats ?e) + 1\<rparr>, segments := [s]\<rparr>"
  obtain s' where s': "seg_append io_ok s env = (s', None)" by (simp add: seg_append_def io_ok_def s_def Let_def)
  define t where "t = touch 0 s'"
  define b2 where "b2 = b1\<lparr>segments := [t], stats := (stats b1)\<lparr>bytesUsed := bytesUsed (stats b1) + int (length env) + 8\<rparr>\<rparr>"
  have seg: "add_segment None 0 ?e = (b1, None)"
    by (simp add: add_segment_def newSegment_def Let_def b1_def s_def empty_buffer_def)
  have roll: "roll_segment clean_io 0 env b1 = (b1, None)"
    using assms(2)
    by (simp add: roll_segment_def b1_def s_def wouldRoll_def segmentAgedOut_def segmentSize_def empty_buffer_def)
  have "bytesUsed (stats b2) \<le> opt_maxSize b2" "lastWrite t = 0" "opt_maxAge b2 = 6 * hour" "segments b2 = [t]"
    using assms(2) by (simp_all add: b2_def b1_def t_def touch_def empty_buffer_def empty_stats_def)
  then have "enforceMaxAge 0 (enforceMaxSize 0 b2) = b2"
    by (subst enforceMaxSize.simps, subst enforceMaxAge.simps) (simp add: time_sub_def go_units)
  moreover have "segments b1 = [s]" by (simp add: b1_def)
  ultimately have "append_active io_ok 0 env b1 = (b2\<lparr>stats := (stats b2)\<lparr>bufferFull := False\<rparr>\<rparr>, None)"
    by (simp add: append_active_def s' Let_def flip: t_def b2_def)
  moreover have "dropped_total (b2\<lparr>stats := (stats b2)\<lparr>bufferFull := False\<rparr>\<rparr>) = 0" "segments ?e = []"
    by (simp_all add: b2_def b1_def dropped_total_def empty_buffer_def empty_stats_def)
  moreover have "length (seg_file t) < 2 ^ 32"
    using s' assms(2) by (auto simp: t_def touch_def seg_append_def io_ok_def s_def Let_def record_bytes_def)
  ultimately show ?thesis using assms(1) seg roll
    by (simp add: buf_append_def clean_io_def) (simp add: b2_def b1_def empty_buffer_def)
qed

lemma sample_buffer:
  shows "buf_inv sample_buffer" "pending sample_buffer = [[1, 2, 3]]" "unacked sample_buffer = [[1, 2, 3]]"
    "unat (nextSegID sample_buffer) \<le> 2" "io_sane (io_append clean_io) env"
    "intact sample_buffer" "dropped_total sample_buffer = 0" "acked_file sample_buffer = None"
    "ackedSegID sample_buffer = 0" "ackedOff sample_buffer = 0"
    "\<forall>s \<in> set (segments sample_buffer). length (seg_file s) < 2 ^ 32"
proof -
  let ?e = "empty_buffer 0 0 None"
  show sane: "io_sane (io_append clean_io) env" for env by (simp add: io_sane_def clean_io_def io_ok_def)
  obtain b where b: "buf_append clean_io 0 [1, 2, 3] ?e = (b, None)" "dropped_total b = 0"
    using sample_append [of "[1, 2, 3]"] by auto
  show "acked_file sample_buffer = None" "ackedSegID sample_buffer = 0" "ackedOff sample_buffer = 0"
    "\<forall>s \<in> set (segments sample_buffer). length (seg_file s) < 2 ^ 32"
    using sample_append [of "[1, 2, 3]"] by (auto simp: sample_buffer_def)
  have room: "unat (nextSegID ?e) + 2 < 2 ^ 32" by (simp add: empty_buffer_def)
  note ok = buf_append_ok [OF empty_buffer_inv(1) room _ sane b(1)]
  have eq: "sample_buffer = b" by (simp add: sample_buffer_def b(1))
  obtain xs ys where xs: "[[1, 2, 3]] = xs @ unacked b" "intact b" "length xs = 0" and inv: "buf_inv b"
    and ys: "[[1, 2, 3]] = ys @ pending b" "ys = [] \<or> pending b = unacked b"
    using ok(1) b(2) empty_buffer_inv(2-5) [of 0 0 None] unfolding appended_def by auto
  show "buf_inv sample_buffer" "intact sample_buffer" "dropped_total sample_buffer = 0" using inv xs b(2) eq by simp_all
  show "unacked sample_buffer = [[1, 2, 3]]" using xs eq by simp
  then show "pending sample_buffer = [[1, 2, 3]]" using ys eq by auto
  show "unat (nextSegID sample_buffer) \<le> 2" using ok(2) eq by (simp add: empty_buffer_def)
qed

text \<open>
  C7. \<^verbatim>\<open>Next\<close> is a queue's next: whatever corrupt records and finished segments it has to skip, it returns
  the first record still to be read, or the end when there is none, leaves the others in order, and
  loses nothing that is not acknowledged.
\<close>

theorem next_in_order:
  assumes "buf_inv b"
  shows "\<exists>b'. buf_inv b' \<and> unacked b' = unacked b \<and>
    (case pending b of
       [] \<Rightarrow> next_record now b = (b', None) \<and> pending b' = []
     | x # xs \<Rightarrow> \<exists>tok. next_record now b = (b', Some (x, tok)) \<and> pending b' = xs \<and> at_cursor b' tok)"
  using next_record_ok [OF assms, of now] moved_unacked by (metis (no_types, lifting))

lemma next_in_order_witness:
  "\<exists>b'. buf_inv b' \<and> unacked b' = unacked sample_buffer \<and>
    (\<exists>tok. next_record 7 sample_buffer = (b', Some ([1, 2, 3], tok)) \<and> pending b' = [] \<and> at_cursor b' tok)"
  using next_in_order [OF sample_buffer(1), of 7] by (simp add: sample_buffer(2))

text \<open>
  C5. \<^verbatim>\<open>Append\<close> adds the record at the end or changes nothing. With any failure, at any call and after
  any part of the write, what is still to be read and to be acknowledged stays as it was. When it
  succeeds the record is the newest one, only the oldest records may have been dropped to stay in the
  limits, each of them counted if no bytes are damaged, and the bytes used are within the limit.
\<close>

theorem append_keeps_queue:
  assumes "buf_inv b" and "unat (nextSegID b) + 2 < 2 ^ 32" and "length env + 8 < 2 ^ 32"
    and "io_sane (io_append io) env" and "buf_append io now env b = (b', e)"
  shows "buf_inv b' \<and>
    (if e \<noteq> None then unacked b' = unacked b \<and> pending b' = pending b \<and> dropped_total b' = dropped_total b
     else \<exists>old. unacked b @ [env] = old @ unacked b' \<and>
       (intact b \<longrightarrow> intact b' \<and> dropped_total b' = dropped_total b + int (length old)) \<and>
       (bytesUsed (stats b') \<le> opt_maxSize b \<or> segments b' = []))"
  using buf_append_ok(1) [OF assms] by (auto simp: appended_def kept_def split: if_splits)

lemma append_keeps_queue_witness:
  "case buf_append clean_io 0 [4] sample_buffer of (b', e) \<Rightarrow> buf_inv b' \<and>
    (if e \<noteq> None then unacked b' = [[1, 2, 3]] \<and> pending b' = [[1, 2, 3]] \<and> dropped_total b' = 0
     else \<exists>old. [[1, 2, 3]] @ [[4]] = old @ unacked b' \<and> dropped_total b' = int (length old) \<and>
       (bytesUsed (stats b') \<le> opt_maxSize sample_buffer \<or> segments b' = []))"
  using append_keeps_queue [OF sample_buffer(1) _ _ sample_buffer(5) prod.collapse [symmetric], of "[4]" 0] sample_buffer(4)
  by (auto simp: sample_buffer(2,3,6,7) split_beta split: if_splits)

section \<open>Draining\<close>

text \<open>
  C6. The loop of the pusher over the buffer ends, whatever the server and the file system answer, and
  does to the buffer what \<open>deliver_all\<close> does to the list of its unacknowledged records: it sends them
  in order, drops those the server has taken or refused for good, and keeps the rest for the next
  attempt.
\<close>

theorem drain_is_deliver_all:
  assumes "buf_inv b" and "pending b = unacked b" and "deliver_all send (unacked b) w = (rest, w', e)"
  shows "\<exists>b'. drain (\<lambda>w. next_record (clk w)) (\<lambda>w t b. fst (ack (aio w) (clk w) t b)) rewind send b w = Some (b', w', e) \<and>
    buf_inv b' \<and> pending b' = rest \<and> unacked b' = rest"
  using bq.drain_delivers [of b send w rest w' e clk aio] assms by (auto simp: bq.aligned_def)

lemma drain_is_deliver_all_witness:
  "\<exists>b'. drain (\<lambda>w. next_record 0) (\<lambda>w t b. fst (ack None 0 t b)) rewind (\<lambda>x w. (w @ [x], Consumed)) sample_buffer [] =
     Some (b', [[1, 2, 3]], Drained) \<and> buf_inv b' \<and> pending b' = [] \<and> unacked b' = []"
  using drain_is_deliver_all [OF sample_buffer(1), of "\<lambda>x w. (w @ [x], Consumed)" "[]" "[]" "[[1, 2, 3]]" Drained
      "\<lambda>_. 0" "\<lambda>_. None"]
  by (simp add: sample_buffer(2,3))

section \<open>Runs\<close>

text \<open>
  A run of calls with what it has seen: the records whose append succeeded, the ones \<^verbatim>\<open>Next\<close> handed out,
  and the ones that left the buffer because they were acknowledged. The caller acknowledges the
  record it got last, as the pusher does.
\<close>

datatype buf_call = CAppend buf_io time bytes | CNext time | CAck "ioerr option" time | CRewind

record buf_run =
  rb :: buffer
  rtok :: "ack_token option"
  accepted :: "bytes list"
  handed :: "bytes list"
  confirmed :: "bytes list"

fun run_call :: "buf_run \<Rightarrow> buf_call \<Rightarrow> buf_run" where
  "run_call r (CAppend io now env) =
     (case buf_append io now env (rb r) of
        (b, None) \<Rightarrow> r\<lparr>rb := b, accepted := accepted r @ [env]\<rparr>
      | (b, Some _) \<Rightarrow> r\<lparr>rb := b\<rparr>)"
| "run_call r (CNext now) =
     (case next_record now (rb r) of
        (b, None) \<Rightarrow> r\<lparr>rb := b, rtok := None\<rparr>
      | (b, Some (x, t)) \<Rightarrow> r\<lparr>rb := b, rtok := Some t, handed := handed r @ [x]\<rparr>)"
| "run_call r (CAck io now) =
     (case rtok r of
        None \<Rightarrow> r
      | Some t \<Rightarrow>
          r\<lparr>rb := fst (ack io now t (rb r)), rtok := None,
            confirmed := confirmed r @ take (length (unacked (rb r)) - length (pending (rb r))) (unacked (rb r))\<rparr>)"
| "run_call r CRewind = r\<lparr>rb := rewind (rb r), rtok := None\<rparr>"

fun call_ok :: "buf_call \<Rightarrow> bool" where
  "call_ok (CAppend io now env) = (length env + 8 < 2 ^ 32 \<and> io_sane (io_append io) env)"
| "call_ok _ = True"

definition start_run :: "buffer \<Rightarrow> buf_run" where
  "start_run b = \<lparr>rb = b, rtok = None, accepted = [], handed = [], confirmed = []\<rparr>"

definition run_inv :: "buffer \<Rightarrow> buf_run \<Rightarrow> bool" where
  "run_inv b0 r \<longleftrightarrow> buf_inv (rb r) \<and> (\<forall>t. rtok r = Some t \<longrightarrow> at_cursor (rb r) t) \<and>
     (\<exists>out h. unacked (rb r) = out @ pending (rb r) \<and> handed r = h @ out) \<and>
     set (confirmed r) \<subseteq> set (handed r) \<and>
     (\<exists>xs. unacked b0 @ accepted r = xs @ unacked (rb r) \<and>
        (intact b0 \<longrightarrow> intact (rb r) \<and> int (length xs) = int (length (confirmed r)) + dropped_total (rb r) - dropped_total b0))"

lemma run_inv_start: "buf_inv b \<Longrightarrow> pending b = unacked b \<Longrightarrow> run_inv b (start_run b)"
  by (auto simp: run_inv_def start_run_def)

lemma run_inv_kept: "run_inv b0 r \<Longrightarrow> kept (rb r) b \<Longrightarrow> run_inv b0 (r\<lparr>rb := b\<rparr>)"
  unfolding run_inv_def kept_def by auto

lemma suffix_out:
  assumes "out @ p = u" and "p @ [e] = ys @ p'" and "u @ [e] = xs @ out' @ p'" and "ys = [] \<or> out' = []"
  shows "\<exists>zs. out = zs @ out'"
proof (cases "out' = []")
  case False
  with assms(4) have "ys = []" by simp
  with assms(1-3) have "out @ p' = xs @ out' @ p'" by (metis append.assoc append_Nil)
  then have "out = xs @ out'" by simp
  then show ?thesis by blast
qed simp

lemma run_inv_appended:
  assumes inv: "run_inv b0 r" and app: "appended env (rb r) b"
  shows "run_inv b0 (r\<lparr>rb := b, accepted := accepted r @ [env]\<rparr>)"
proof -
  have b: "buf_inv b" using app by (simp add: appended_def)
  obtain out h xs where r: "unacked (rb r) = out @ pending (rb r)" "handed r = h @ out"
    and x: "unacked b0 @ accepted r = xs @ unacked (rb r)"
      "intact b0 \<longrightarrow> intact (rb r) \<and> int (length xs) = int (length (confirmed r)) + dropped_total (rb r) - dropped_total b0"
    using inv unfolding run_inv_def by blast
  obtain us ys where u: "unacked (rb r) @ [env] = us @ unacked b"
      "intact (rb r) \<longrightarrow> intact b \<and> dropped_total b = dropped_total (rb r) + int (length us)"
    and y: "pending (rb r) @ [env] = ys @ pending b" "ys = [] \<or> pending b = unacked b"
    using app unfolding appended_def by blast
  obtain out' where o: "unacked b = out' @ pending b" using pending_suffix [OF b] by blast
  have "\<exists>zs. out = zs @ out'"
    by (rule suffix_out [OF r(1) [symmetric] y(1)]) (use u(1) o y(2) in auto)
  then have "\<exists>h. handed r = h @ out'" using r(2) by (metis append.assoc)
  moreover have "unacked b0 @ accepted r @ [env] = (xs @ us) @ unacked b" using x(1) u(1) by (metis append.assoc)
  moreover have "\<forall>t. rtok r = Some t \<longrightarrow> at_cursor b t" using inv app by (auto simp: run_inv_def appended_def)
  ultimately show ?thesis
    using inv b o x(2) u(2) unfolding run_inv_def
    by (auto intro!: exI [of _ "xs @ us"])
qed

lemma run_inv_step:
  assumes inv: "run_inv b0 r" and ok: "call_ok c" and room: "unat (nextSegID (rb r)) + 2 < 2 ^ 32"
  shows "run_inv b0 (run_call r c) \<and> unat (nextSegID (rb (run_call r c))) \<le> unat (nextSegID (rb r)) + 2"
proof -
  have b: "buf_inv (rb r)" using inv by (simp add: run_inv_def)
  obtain out h xs where r: "unacked (rb r) = out @ pending (rb r)" "handed r = h @ out"
    and x: "unacked b0 @ accepted r = xs @ unacked (rb r)"
      "intact b0 \<longrightarrow> intact (rb r) \<and> int (length xs) = int (length (confirmed r)) + dropped_total (rb r) - dropped_total b0"
    using inv unfolding run_inv_def by blast
  show ?thesis
  proof (cases c)
    case (CAppend io now env)
    obtain b' e where a: "buf_append io now env (rb r) = (b', e)" by fastforce
    have env: "length env + 8 < 2 ^ 32" "io_sane (io_append io) env" using ok CAppend by simp_all
    note k = buf_append_ok [OF b room env a]
    show ?thesis
    proof (cases e)
      case None
      then show ?thesis using CAppend a k run_inv_appended [OF inv] by simp
    next
      case (Some x)
      then show ?thesis using CAppend a k run_inv_kept [OF inv] by simp
    qed
  next
    case (CNext now)
    from next_record_ok [OF b, of now] obtain b' where b': "moved (rb r) b'" "buf_inv b'"
      "case pending (rb r) of [] \<Rightarrow> next_record now (rb r) = (b', None) \<and> pending b' = []
       | x # xs \<Rightarrow> \<exists>tok. next_record now (rb r) = (b', Some (x, tok)) \<and> pending b' = xs \<and> at_cursor b' tok" by blast
    have m: "unacked b' = unacked (rb r)" "dropped_total b' = dropped_total (rb r)" "nextSegID b' = nextSegID (rb r)"
      "intact b' = intact (rb r)"
      using b'(1) moved_unacked [OF b'(1)] same_start_off [of b' "rb r"] by (simp_all add: moved_def dropped_total_def intact_def)
    show ?thesis
    proof (cases "pending (rb r)")
      case Nil
      then show ?thesis using CNext b' m inv r x by (auto simp: run_inv_def)
    next
      case (Cons y ys)
      then obtain tok where "next_record now (rb r) = (b', Some (y, tok))" "pending b' = ys" "at_cursor b' tok" using b'(3) by auto
      then show ?thesis using CNext Cons b'(2) m inv r x
        by (auto simp: run_inv_def intro!: exI [of _ "out @ [y]"])
    qed
  next
    case (CAck io now)
    show ?thesis
    proof (cases "rtok r")
      case None
      then show ?thesis using CAck inv by simp
    next
      case (Some t)
      then have t: "at_cursor (rb r) t" using inv by (simp add: run_inv_def)
      obtain b' e where a: "ack io now t (rb r) = (b', e)" by fastforce
      note k = ack_ok [OF b t a]
      have tk: "take (length (unacked (rb r)) - length (pending (rb r))) (unacked (rb r)) = out" using r(1) by simp
      have "unacked b0 @ accepted r = (xs @ out) @ unacked b'" using x(1) r(1) k by simp
      moreover have "set (confirmed r @ out) \<subseteq> set (handed r)" using inv r(2) by (auto simp: run_inv_def)
      ultimately show ?thesis using CAck Some a k x(2) tk
        by (auto simp: run_inv_def intro!: exI [of _ "xs @ out"])
    qed
  next
    case CRewind
    have m: "moved (rb r) (rewind (rb r))"
      using rewind_ok [of "rb r"] buf_acked_last [OF b] b by (simp add: buf_inv_def)
    have "dropped_total (rewind (rb r)) = dropped_total (rb r)" "nextSegID (rewind (rb r)) = nextSegID (rb r)"
      "intact (rewind (rb r)) = intact (rb r)"
      using m same_start_off [of "rewind (rb r)" "rb r"] by (simp_all add: moved_def dropped_total_def intact_def)
    then show ?thesis using CRewind rewind_laws [OF b] inv x by (auto simp: run_inv_def)
  qed
qed



end
