(* ===== verification/Buffer_Open.thy ===== *)
theory Buffer_Open
  imports Buffer_Delivery
begin

text \<open>
  Opening the buffer again on the directory an earlier run left: the names of the segment files sort
  by identifier and scan back to it, and the segments come back with every record that was not
  acknowledged.
\<close>

section \<open>File names\<close>

lemma hex_char_value: "d < 16 \<Longrightarrow> hex_value (hex_char d) = Some d"
proof -
  assume "d < 16"
  then have "d \<in> set [0..<16]" by simp
  moreover have "\<forall>d \<in> set [0..<16]. hex_value (hex_char d) = Some d" by code_simp
  ultimately show ?thesis by blast
qed

lemma hex_char_mono: "c < d \<Longrightarrow> d < 16 \<Longrightarrow> hex_char c < hex_char d"
proof -
  assume "c < d" "d < 16"
  then have "c \<in> set [0..<16]" "d \<in> set [0..<16]" by simp_all
  moreover have "\<forall>c \<in> set [0..<16]. \<forall>d \<in> set [0..<16]. c < d \<longrightarrow> hex_char c < hex_char d" by code_simp
  ultimately show ?thesis using \<open>c < d\<close> by blast
qed

lemma length_hex_digits [simp]: "length (hex_digits k n) = k"
  by (induction k arbitrary: n) simp_all

lemma hex_digits_value:
  "\<forall>c \<in> set (hex_digits k n). hex_value c \<noteq> None"
  "foldl (\<lambda>n c. 16 * n + the (hex_value c)) a (hex_digits k n) = 16 ^ k * a + n mod 16 ^ k"
proof (induction k arbitrary: n a)
  case (Suc k)
  { case 1 show ?case using Suc(1) [of "n div 16"] by (auto simp: hex_char_value)
  next
    case 2
    have "n mod 16 ^ Suc k = 16 * (n div 16 mod 16 ^ k) + n mod 16"
      by (simp add: mod_mult2_eq)
    then show ?case using Suc(2) [of a "n div 16"] by (simp add: hex_char_value algebra_simps) }
qed simp_all

lemma append_less: "xs < ys \<Longrightarrow> length xs = length ys \<Longrightarrow> xs @ as < ys @ bs" for xs ys :: "'a :: linorder list"
proof (induction xs arbitrary: ys)
  case (Cons x xs)
  then show ?case by (cases ys) auto
qed simp

lemma append_less_right: "as < bs \<Longrightarrow> xs @ as < xs @ bs" for xs :: "'a :: linorder list"
  by (induction xs) simp_all

lemma hex_digits_mono: "n < m \<Longrightarrow> m < 16 ^ k \<Longrightarrow> hex_digits k n < hex_digits k m"
proof (induction k arbitrary: n m)
  case (Suc k)
  show ?case
  proof (cases "n div 16 < m div 16")
    case True
    then have "hex_digits k (n div 16) < hex_digits k (m div 16)" using Suc by (intro Suc.IH) auto
    then show ?thesis by (simp add: append_less)
  next
    case False
    with Suc.prems have eq: "n div 16 = m div 16" by (metis div_le_mono le_antisym less_or_eq_imp_le not_less)
    then have "n mod 16 < m mod 16" using Suc.prems(1) by (metis div_mult_mod_eq nat_add_left_cancel_less)
    then have "hex_char (n mod 16) < hex_char (m mod 16)" by (rule hex_char_mono) simp
    then show ?thesis using eq by (simp add: append_less_right)
  qed
qed simp

lemma seg_name_mono: "v < w \<Longrightarrow> seg_name v < seg_name w"
proof -
  assume "v < w"
  moreover have "unat w < 16 ^ 8" using unsigned_less [of w] by simp
  ultimately have "hex_digits 8 (unat v) < hex_digits 8 (unat w)" by (intro hex_digits_mono) (auto simp: word_less_nat_alt)
  then show ?thesis by (simp add: seg_name_def append_less)
qed

lemma scan_seg_name: "scan_seg_name (seg_name w) = Some w"
proof -
  let ?ds = "hex_digits 8 (unat w)"
  have sp: "c \<noteq> CHR '' ''" if "hex_value c \<noteq> None" for c
    using that by (auto simp: hex_value_def)
  have a: "dropWhile (\<lambda>c. c = CHR '' '') (seg_name w) = seg_name w"
    using hex_digits_value(1) [of 8 "unat w"] sp by (cases ?ds) (auto simp: seg_name_def)
  have b: "take 8 (seg_name w) = ?ds" by (simp add: seg_name_def)
  have c: "takeWhile (\<lambda>c. hex_value c \<noteq> None) ?ds = ?ds" using hex_digits_value(1) by (simp add: takeWhile_eq_all_conv)
  have d: "foldl (\<lambda>n c. 16 * n + the (hex_value c)) 0 ?ds = unat w"
  proof -
    have "unat w < 16 ^ 8" using unsigned_less [of w] by simp
    then show ?thesis using hex_digits_value(2) [of 0 8 "unat w"] by simp
  qed
  have "?ds \<noteq> []" using length_hex_digits [of 8 "unat w"] by (metis length_0_conv zero_neq_numeral)
  moreover have "drop (length ?ds) (seg_name w) = ''.seg''" by (simp add: seg_name_def)
  ultimately show ?thesis unfolding scan_seg_name_def Let_def a b c d by simp
qed

lemma is_seg_file_name [simp]: "is_seg_file (seg_name w)"
  by (simp add: is_seg_file_def seg_name_def)

lemma sort_slice_sorted: "sorted_wrt lt xs \<Longrightarrow> (\<And>x y. lt x y \<Longrightarrow> \<not> lt y x) \<Longrightarrow> sort_slice lt xs = xs"
proof (induction xs)
  case (Cons x xs)
  then show ?case by (cases xs) auto
qed simp

section \<open>Loading the segments\<close>

text \<open>What a run leaves in the directory; \<open>mt\<close> are the modification times of the files.\<close>

definition seg_entry :: "(segment \<Rightarrow> time) \<Rightarrow> segment \<Rightarrow> dir_entry" where
  "seg_entry mt s = \<lparr>e_name = seg_name (seg_id s), e_bytes = seg_file s, e_mtime = mt s\<rparr>"

definition disk_of :: "(segment \<Rightarrow> time) \<Rightarrow> buffer \<Rightarrow> dir_entry list" where
  "disk_of mt b = map (seg_entry mt) (segments b)"

text \<open>The segment a file gives, with the checkpoint of \<open>b\<close>.\<close>

definition reopened :: "(segment \<Rightarrow> time) \<Rightarrow> int \<Rightarrow> buffer \<Rightarrow> segment \<Rightarrow> segment" where
  "reopened mt msize b s =
     (fst (openSegment (seg_file s) (mt s) (start_off b s)))\<lparr>seg_id := seg_id s, seg_maxSize := segmentSize msize\<rparr>"

lemma disk_of_files:
  assumes "sorted_wrt (<) (map seg_id (segments b))"
  shows "sort_slice (\<lambda>x y. e_name x < e_name y) (filter (\<lambda>e. is_seg_file (e_name e)) (disk_of mt b)) = disk_of mt b"
proof -
  have "filter (\<lambda>e. is_seg_file (e_name e)) (disk_of mt b) = disk_of mt b"
    by (simp add: disk_of_def seg_entry_def filter_id_conv)
  moreover have "sorted_wrt (\<lambda>x y. e_name x < e_name y) (disk_of mt b)"
    using assms seg_name_mono
    by (auto simp: disk_of_def sorted_wrt_map seg_entry_def intro: sorted_wrt_mono_rel [rotated])
  ultimately show ?thesis by (simp add: sort_slice_sorted)
qed

lemma load_segments_ok:
  assumes "\<And>n. io_openseg io n = None"
    and "start_off b0 = start_off b" and "ackedSegID b0 = ackedSegID b" and "ackedOff b0 = ackedOff b"
    and "sorted_wrt (<) (map seg_id ss)" and "\<forall>s \<in> set ss. nextSegID b0 \<le> seg_id s"
    and "\<forall>s \<in> set ss. seg_id s \<noteq> - 1"
  shows "\<exists>b1. load_segments io now (map (seg_entry mt) ss) b0 = Inr b1 \<and>
    segments b1 = segments b0 @ map (reopened mt (opt_maxSize b0) b) ss \<and>
    nextSegID b1 = (if ss = [] then nextSegID b0 else seg_id (last ss) + 1) \<and>
    ackedSegID b1 = ackedSegID b0 \<and> ackedOff b1 = ackedOff b0 \<and> opt_maxSize b1 = opt_maxSize b0 \<and>
    opt_maxAge b1 = opt_maxAge b0 \<and> acked_file b1 = acked_file b0 \<and>
    samplesDropped (stats b1) = samplesDropped (stats b0)"
  using assms
proof (induction ss arbitrary: b0)
  case (Cons s ss)
  obtain t cut where t: "openSegment (seg_file s) (mt s) (start_off b s) = (t, cut)" by fastforce
  have keep: "(if seg_id s = ackedSegID b0 then ackedOff b0 else 0) = start_off b s"
    using Cons.prems(3,4) by (simp add: start_off_def)
  obtain b1 where b1: "load_segment io now (seg_entry mt s) b0 = Inr b1"
      "segments b1 = segments b0 @ [reopened mt (opt_maxSize b0) b s]" "nextSegID b1 = seg_id s + 1"
      "ackedSegID b1 = ackedSegID b0" "ackedOff b1 = ackedOff b0" "opt_maxSize b1 = opt_maxSize b0"
      "opt_maxAge b1 = opt_maxAge b0" "acked_file b1 = acked_file b0" "samplesDropped (stats b1) = samplesDropped (stats b0)"
    using Cons.prems(1,6) t keep
    by (simp add: load_segment_def seg_entry_def scan_seg_name reopened_def Let_def)
  have so: "start_off b1 = start_off b" using same_start_off [OF b1(4,5)] Cons.prems(2) by simp
  have nxt: "\<forall>s' \<in> set ss. nextSegID b1 \<le> seg_id s'"
  proof
    fix s' assume "s' \<in> set ss"
    then have "seg_id s < seg_id s'" using Cons.prems(5) by simp
    then show "nextSegID b1 \<le> seg_id s'" unfolding b1(3) by (simp add: inc_le)
  qed
  from Cons.IH [of b1] so nxt b1 Cons.prems obtain b2 where
    "load_segments io now (map (seg_entry mt) ss) b1 = Inr b2"
    "segments b2 = segments b1 @ map (reopened mt (opt_maxSize b1) b) ss"
    "nextSegID b2 = (if ss = [] then nextSegID b1 else seg_id (last ss) + 1)"
    "ackedSegID b2 = ackedSegID b1" "ackedOff b2 = ackedOff b1" "opt_maxSize b2 = opt_maxSize b1"
    "opt_maxAge b2 = opt_maxAge b1" "acked_file b2 = acked_file b1" "samplesDropped (stats b2) = samplesDropped (stats b1)"
    by auto
  then show ?case using b1 by (intro exI [of _ b2]) auto
qed simp

lemma reopened_facts:
  assumes "length (seg_file s) < 2 ^ 32"
  shows "seg_ok (reopened mt msize b s)" "seg_id (reopened mt msize b s) = seg_id s"
  using openSegment_ok(1) [OF assms prod.collapse [symmetric], of "mt s" "start_off b s"]
  by (simp_all add: reopened_def seg_ok_def)

text \<open>A segment the checkpoint has not passed comes back with its records.\<close>

lemma reopened_items:
  assumes "seg_ok s" and "boundary s (start_off b s)" and "length (seg_file s) < 2 ^ 32"
  shows "counted (reopened mt msize b s) (start_off b s)"
    "seg_items (reopened mt msize b s) (start_off b s) = strip (seg_items s (start_off b s))"
proof -
  let ?k = "start_off b s" and ?t = "drop (fileSize s) (seg_file s)"
  obtain t c where t: "openSegment (seg_file s) (mt s) ?k = (t, c)" by fastforce
  have k: "?k \<le> fileSize s" "fileSize s \<le> length (seg_file s)"
    using boundaryD(3) [OF assms(2)] assms(1) by (auto simp: seg_ok_def)
  have "seg_file s = seg_body s @ ?t" by (simp add: seg_body_def)
  then have "drop ?k (seg_file s) = drop ?k (seg_body s) @ ?t"
    using k length_seg_body [OF assms(1)] by (metis append_Nil diff_is_0_eq' drop_0 drop_append)
  then have "drop ?k (seg_file s) = enc (seg_items s ?k) @ ?t" using boundaryD(1) [OF assms(2)] by simp
  then have f: "found (seg_file s) ?k = seg_items s ?k"
    using parse_enc [OF boundaryD(2) [OF assms(2)]] assms(1) k by (simp add: found_def seg_ok_def)
  have "min ?k (length (seg_file s)) = ?k" using k by simp
  with openSegment_ok(2,3) [OF assms(3) t] f
  show "counted (reopened mt msize b s) ?k" "seg_items (reopened mt msize b s) ?k = strip (seg_items s ?k)"
    by (simp_all add: reopened_def t counted_def boundary_def seg_items_def seg_body_def)
qed

section \<open>Reopening\<close>

text \<open>The checkpoint file holds the position; without the file nothing is acknowledged.\<close>

definition checkpointed :: "buffer \<Rightarrow> bool" where
  "checkpointed b \<longleftrightarrow>
     (case loadAckedPosition (acked_file b) of
        None \<Rightarrow> ackedSegID b = 0 \<and> ackedOff b = 0
      | Some cp \<Rightarrow> cp = (ackedSegID b, ackedOff b))"

lemma checkpoint_saved:
  assumes "ackedOff b < 2 ^ 64" and "saveAckedPosition io b = (b', None)"
  shows "checkpointed b'"
proof -
  have "unat (of_nat (ackedOff b) :: 64 word) = ackedOff b"
    using assms(1) by (simp add: unsigned_of_nat take_bit_nat_eq_self)
  moreover have "get_u32 (put_u32 (ackedSegID b) @ put_u64 w) = ackedSegID b"
    "get_u64 (drop 4 (put_u32 (ackedSegID b) @ put_u64 w)) = w" for w
    using get_put_u64 [of w "[]"] by simp_all
  ultimately show ?thesis
    using assms(2) by (auto simp: saveAckedPosition_def checkpointed_def loadAckedPosition_def split: option.splits)
qed

lemma strip_valid: "list_all valid is \<Longrightarrow> strip is = is"
  by (rule strip_id) (auto simp: list_all_iff valid_def)

text \<open>The state after the segments are loaded stands for the same records.\<close>

lemma loaded_core:
  assumes inv: "buf_inv b" and small: "\<forall>s \<in> set (segments b). length (seg_file s) < 2 ^ 32"
    and segs: "segments c = map (reopened mt msize b) (segments b)"
    and acked: "ackedSegID c = ackedSegID b" "ackedOff c = ackedOff b"
    and ids: "segments b \<noteq> [] \<Longrightarrow> nextSegID c = seg_id (last (segments b)) + 1" "nextSegID b \<noteq> - 1"
      "segments b = [] \<Longrightarrow> ackedSegID c < nextSegID c \<or> ackedSegID c = nextSegID c \<and> ackedOff c = 0"
    and st: "bytesUsed (stats c) = sum_list (map (int \<circ> fileSize) (segments c))" "samplesDropped (stats c) = []"
  shows "core_inv c" "unacked c = unacked b" "intact b \<Longrightarrow> intact c" "dropped_total c = 0"
    "segments c \<noteq> [] \<Longrightarrow> ackedSegID c \<le> seg_id (last (segments c))"
proof -
  let ?r = "reopened mt msize b"
  have same: "start_off c = start_off b" using same_start_off [OF acked] by simp
  have inv_s: "seg_inv b s" if "s \<in> set (segments b)" for s
    using inv that by (auto simp: buf_inv_def core_inv_def list_all_iff)
  have start: "start_off b (?r s) = start_off b s" if "s \<in> set (segments b)" for s
    using reopened_facts(2) small that by (simp add: start_off_def)
  have again: "counted (?r s) (start_off b s) \<and> seg_items (?r s) (start_off b s) = strip (seg_items s (start_off b s))"
    if "s \<in> set (segments b)" "ackedSegID b \<le> seg_id s" for s
    using reopened_items inv_s [OF that(1)] that small by (auto simp: seg_inv_def)
  have segi: "seg_inv c (?r s)" if s: "s \<in> set (segments b)" for s
  proof -
    have "start_off b s = 0" if "ackedSegID b < seg_id s" using that by (auto simp: start_off_def)
    with again [OF s] start [OF s] same reopened_facts small s show ?thesis
      by (auto simp: seg_inv_def acked counted_def order_less_imp_le)
  qed
  have mono: "seg_id s \<le> seg_id (last (segments b))" if "s \<in> set (segments b)" for s
  proof -
    obtain i where i: "i < length (segments b)" "s = segments b ! i" using \<open>s \<in> set (segments b)\<close> by (metis in_set_conv_nth)
    then have l: "last (segments b) = segments b ! (length (segments b) - 1)" by (metis last_conv_nth length_0_conv not_less0)
    show ?thesis
    proof (cases "i = length (segments b) - 1")
      case False
      with i have j: "i < length (segments b) - 1" "length (segments b) - 1 < length (segments b)" by simp_all
      from ids_increase [OF inv j] i l show ?thesis by simp
    qed (use i l in simp)
  qed
  have lastid: "seg_id (last (segments b)) < nextSegID c" if "segments b \<noteq> []"
  proof -
    have "seg_id (last (segments b)) < nextSegID b"
      using inv last_in_set [OF that] by (auto simp: buf_inv_def core_inv_def list_all_iff)
    then have "seg_id (last (segments b)) \<noteq> - 1" by (metis leD word_n1_ge)
    then show ?thesis using ids(1) that next_id by simp
  qed
  have ack_last: "ackedSegID b \<le> seg_id (last (segments b))" if ne: "segments b \<noteq> []"
    using cursorD(1,2) [OF inv ne] mono [of "segments b ! nextReadSeg b"] nth_mem by force
  have idmap: "map seg_id (segments c) = map seg_id (segments b)"
    using segs reopened_facts(2) small by simp
  show "core_inv c"
    unfolding core_inv_def
  proof (intro conjI)
    show "list_all (seg_inv c) (segments c)" using segs segi by (simp add: list_all_iff)
    show "sorted_wrt (<) (map seg_id (segments c))" using idmap inv by (simp add: buf_inv_def core_inv_def)
    show "list_all (\<lambda>s. seg_id s < nextSegID c) (segments c)"
      using segs reopened_facts(2) small mono lastid by (fastforce simp: list_all_iff)
    show "ackedSegID c < nextSegID c \<or> ackedSegID c = nextSegID c \<and> ackedOff c = 0"
      using ids(3) lastid ack_last acked by (cases "segments b = []") auto
  qed (use st in simp_all)
  have "seg_unacked c (?r s) = seg_unacked b s" if s: "s \<in> set (segments b)" for s
    using again [OF s] start [OF s] same reopened_facts small s by (auto simp: seg_unacked_def acked)
  then show "unacked c = unacked b" using segs by (simp add: unacked_def comp_def cong: map_cong)
  show "intact c" if "intact b"
    using that segs again start same reopened_facts small strip_valid by (fastforce simp: intact_def list_all_iff acked)
  show "dropped_total c = 0" using st by (simp add: dropped_total_def)
  show "ackedSegID c \<le> seg_id (last (segments c))" if "segments c \<noteq> []"
    using that segs ack_last acked reopened_facts(2) small by (simp add: last_map)
qed

lemma fix_past_end_id:
  assumes "\<forall>s \<in> set (segments b). seg_id s = ackedSegID b \<longrightarrow> ackedOff b \<le> fileSize s"
  shows "fix_past_end b = b"
proof -
  have "\<forall>s \<in> set ss. seg_id s = ackedSegID b \<longrightarrow> ackedOff b \<le> fileSize s \<Longrightarrow>
    foldl (\<lambda>b s. if seg_id s = ackedSegID b \<and> fileSize s < ackedOff b then b\<lparr>ackedOff := fileSize s\<rparr> else b) b ss = b" for ss
    by (induction ss) auto
  then show ?thesis using assms by (simp add: fix_past_end_def)
qed

text \<open>The retention policies have nothing to do.\<close>

definition within_limits :: "time \<Rightarrow> buffer \<Rightarrow> bool" where
  "within_limits now b \<longleftrightarrow> bytesUsed (stats b) \<le> opt_maxSize b \<and>
     list_all (\<lambda>s. time_sub now (lastWrite s) \<le> opt_maxAge b) (segments b)"

lemma within_limits_kept:
  assumes "within_limits now b"
  shows "enforceMaxSize now b = b" "enforceMaxAge now b = b"
proof -
  show "enforceMaxSize now b = b" using assms by (subst enforceMaxSize.simps) (simp add: within_limits_def)
  show "enforceMaxAge now b = b"
    using assms by (subst enforceMaxAge.simps) (cases "segments b", auto simp: within_limits_def)
qed

lemma within_limits_shed:
  assumes "core_inv b" and "within_limits now b" and "shed b b'"
  shows "within_limits now b'"
proof -
  obtain n where n: "segments b' = drop n (segments b)" using assms(3) by (auto simp: shed_def)
  have opts: "core_inv b'" "opt_maxSize b' = opt_maxSize b" "opt_maxAge b' = opt_maxAge b"
    using assms(3) by (simp_all add: shed_def)
  have "bytesUsed (stats b') \<le> bytesUsed (stats b)"
    using assms(1) opts(1) sum_drop_le [of n "segments b"] n by (simp add: core_inv_def)
  moreover have "list_all (\<lambda>s. time_sub now (lastWrite s) \<le> opt_maxAge b) (segments b')"
    using assms(2) unfolding n by (auto simp: within_limits_def list_all_iff dest: in_set_dropD)
  ultimately show ?thesis using assms(2) opts by (simp add: within_limits_def)
qed

text \<open>The end of \<^verbatim>\<open>Open\<close>, once the checkpoint is settled.\<close>

lemma open_tail:
  assumes core: "core_inv b" and last: "segments b \<noteq> [] \<Longrightarrow> ackedSegID b \<le> seg_id (last (segments b))"
    and b'_def: "b' = rewind (enforceMaxSize now (enforceMaxAge now (dropAckedSegments now b)))"
  shows "buf_inv b'" "pending b' = unacked b'"
    "\<exists>xs. unacked b = xs @ unacked b' \<and> (intact b \<longrightarrow> dropped_total b' = dropped_total b + int (length xs))"
    "within_limits now b \<Longrightarrow> unacked b' = unacked b"
proof -
  define x where "x = dropAckedSegments now b"
  define y where "y = enforceMaxAge now x"
  define z where "z = enforceMaxSize now y"
  have x: "shed b x" unfolding x_def by (rule dropAckedSegments_shed [OF core])
  note dx = shedD [OF x]
  have y: "trim x y" unfolding y_def by (rule enforceMaxAge_trim [OF dx(1)])
  have "trim y z" unfolding z_def by (rule enforceMaxSize_trim [OF trimD(1) [OF y]])
  with y have z: "trim x z" by (rule trim_trans)
  note dz = trimD [OF z]
  obtain m n where mn: "segments x = drop m (segments b)" "segments z = drop n (segments x)"
    using dx(3) dz(5) by blast
  have ack: "ackedSegID z = ackedSegID b" using dx(2) dz(2) by simp
  have lz: "segments z \<noteq> [] \<Longrightarrow> ackedSegID z \<le> seg_id (last (segments z))"
    unfolding ack mn using last by (cases "segments b = []") (simp_all add: last_drop)
  have b': "b' = rewind z" by (simp add: b'_def z_def y_def x_def)
  from rewind_ok [OF dz(1) lz] have r: "moved z b'" "buf_inv b'" "pending b' = unacked z"
    unfolding b' by blast+
  have un: "unacked b' = unacked z" "dropped_total b' = dropped_total z"
    using r(1) moved_unacked [OF r(1)] by (simp_all add: moved_def dropped_total_def)
  show "buf_inv b'" "pending b' = unacked b'" using r un by simp_all
  obtain xs where "unacked x = xs @ unacked z" "intact x \<longrightarrow> dropped_total z = dropped_total x + int (length xs)"
    using dz(6) by blast
  then show "\<exists>xs. unacked b = xs @ unacked b' \<and> (intact b \<longrightarrow> dropped_total b' = dropped_total b + int (length xs))"
    using un dx(4-6) by auto
  show "unacked b' = unacked b" if "within_limits now b"
    using within_limits_kept [OF within_limits_shed [OF core that x]] un dx(4) by (simp add: z_def y_def)
qed

lemma settle_total:
  assumes "io_save io = None \<or> io_remove io = None"
  shows "\<exists>f. settle_checkpoint io cp c = Inr (c\<lparr>acked_file := f\<rparr>)"
proof (cases "(ackedSegID c, ackedOff c) = cp")
  case True
  then have "settle_checkpoint io cp c = Inr (c\<lparr>acked_file := acked_file c\<rparr>)" by (simp add: settle_checkpoint_def)
  then show ?thesis by blast
next
  case False
  then show ?thesis using assms
    by (cases "io_save io") (auto simp: settle_checkpoint_def saveAckedPosition_def)
qed

text \<open>Opening what \<open>b\<close> left gets to a settled state that stands for the same records.\<close>

lemma open_settled:
  assumes inv: "buf_inv b" and cp: "checkpointed b" and room: "nextSegID b \<noteq> - 1"
    and small: "\<forall>s \<in> set (segments b). length (seg_file s) < 2 ^ 32"
    and io: "\<And>n. io_openseg io n = None" "io_save io = None \<or> io_remove io = None"
  shows "\<exists>c. open_buffer msize mage io now (disk_of mt b) (acked_file b) =
      Inr (rewind (enforceMaxSize now (enforceMaxAge now (dropAckedSegments now c)))) \<and>
    core_inv c \<and> unacked c = unacked b \<and> (intact b \<longrightarrow> intact c) \<and> dropped_total c = 0 \<and>
    (segments c \<noteq> [] \<longrightarrow> ackedSegID c \<le> seg_id (last (segments c))) \<and>
    segments c = map (reopened mt (opt_maxSize c) b) (segments b) \<and>
    opt_maxSize c = (if msize = 0 then 512 * 1024 * 1024 else msize) \<and>
    opt_maxAge c = (if mage = 0 then 6 * hour else mage)"
proof -
  let ?cp = "loadAckedPosition (acked_file b)" and ?b0 = "empty_buffer msize mage (acked_file b)"
  define b1 where "b1 = (case ?cp of None \<Rightarrow> ?b0 | Some (sid, off) \<Rightarrow> ?b0\<lparr>ackedSegID := sid, ackedOff := off\<rparr>)"
  have "b1 = ?b0\<lparr>ackedSegID := ackedSegID b, ackedOff := ackedOff b\<rparr>"
  proof (cases ?cp)
    case None
    then show ?thesis using cp by (simp add: checkpointed_def b1_def empty_buffer_def)
  next
    case (Some p)
    then show ?thesis using cp by (simp add: checkpointed_def b1_def)
  qed
  then have b1: "segments b1 = []" "nextSegID b1 = 0" "ackedSegID b1 = ackedSegID b" "ackedOff b1 = ackedOff b"
    "acked_file b1 = acked_file b" "samplesDropped (stats b1) = []"
    "opt_maxSize b1 = (if msize = 0 then 512 * 1024 * 1024 else msize)"
    "opt_maxAge b1 = (if mage = 0 then 6 * hour else mage)"
    by (simp_all add: empty_buffer_def empty_stats_def)
  have sorted: "sorted_wrt (<) (map seg_id (segments b))" and ids: "\<forall>s \<in> set (segments b). seg_id s < nextSegID b"
    using inv by (auto simp: buf_inv_def core_inv_def list_all_iff)
  have max: "\<forall>s \<in> set (segments b). seg_id s \<noteq> - 1" using ids by (metis leD word_n1_ge)
  have so: "start_off b1 = start_off b" using same_start_off [OF b1(3,4)] by simp
  have z: "\<forall>s \<in> set (segments b). nextSegID b1 \<le> seg_id s" using b1(2) by simp
  obtain b2 where b2: "load_segments io now (disk_of mt b) b1 = Inr b2"
    "segments b2 = map (reopened mt (opt_maxSize b1) b) (segments b)"
    "nextSegID b2 = (if segments b = [] then 0 else seg_id (last (segments b)) + 1)"
    "ackedSegID b2 = ackedSegID b" "ackedOff b2 = ackedOff b" "opt_maxSize b2 = opt_maxSize b1"
    "opt_maxAge b2 = opt_maxAge b1" "acked_file b2 = acked_file b" "samplesDropped (stats b2) = []"
    using load_segments_ok [OF io(1) so b1(3,4) sorted z max, of now mt] unfolding b1 disk_of_def by auto
  define b3 where "b3 = recalculateStats b2"
  define b4 where "b4 = (if ?cp \<noteq> None \<and> nextSegID b3 \<le> ackedSegID b3 then b3\<lparr>nextSegID := ackedSegID b3 + 1\<rparr> else b3)"
  have b3: "segments b3 = segments b2" "nextSegID b3 = nextSegID b2" "ackedSegID b3 = ackedSegID b" "ackedOff b3 = ackedOff b"
    "opt_maxSize b3 = opt_maxSize b1" "opt_maxAge b3 = opt_maxAge b1" "samplesDropped (stats b3) = []"
    "bytesUsed (stats b3) = sum_list (map (int \<circ> fileSize) (segments b2))"
    using b2 by (simp_all add: b3_def recalculateStats_def)
  have run: "open_buffer msize mage io now (disk_of mt b) (acked_file b) =
    (case settle_checkpoint io (ackedSegID b, ackedOff b) (fix_past_end (fix_past_all b4)) of
       Inl e \<Rightarrow> Inl e
     | Inr c \<Rightarrow> Inr (rewind (enforceMaxSize now (enforceMaxAge now (dropAckedSegments now c)))))"
    unfolding open_buffer_def disk_of_files [OF sorted] Let_def b1_def [symmetric] b2(1) b4_def b3_def
    using b2(4,5) by (simp add: recalculateStats_def)
  show ?thesis
  proof (cases "segments b = []")
    case True
    define c where "c = fix_past_end (fix_past_all b4)"
    have c: "segments c = []" "ackedSegID c = 0" "ackedOff c = 0" "stats c = stats b3"
      "opt_maxSize c = opt_maxSize b1" "opt_maxAge c = opt_maxAge b1"
      using True b2(2) b3 by (simp_all add: c_def fix_past_all_def fix_past_end_def b4_def)
    obtain f where f: "settle_checkpoint io (ackedSegID b, ackedOff b) c = Inr (c\<lparr>acked_file := f\<rparr>)"
      using settle_total [OF io(2)] by blast
    have "core_inv (c\<lparr>acked_file := f\<rparr>)"
      using c b3(7,8) True b2(2) by (auto simp: core_inv_def word_neq_0_conv)
    moreover have "unacked (c\<lparr>acked_file := f\<rparr>) = unacked b" using c(1) True by (simp add: unacked_def)
    moreover have "dropped_total (c\<lparr>acked_file := f\<rparr>) = 0" using c(4) b3(7) by (simp add: dropped_total_def)
    ultimately show ?thesis
      using run f c True b1(7,8) unfolding c_def [symmetric]
      by (intro exI [of _ "c\<lparr>acked_file := f\<rparr>"]) (simp add: intact_def)
  next
    case False
    have l: "core_inv b3" "unacked b3 = unacked b" "intact b \<Longrightarrow> intact b3" "dropped_total b3 = 0"
      "ackedSegID b3 \<le> seg_id (last (segments b3))"
      using loaded_core [OF inv small, of b3 mt "opt_maxSize b1"] b2(2,3) b3 room False by simp_all
    have ne: "segments b3 \<noteq> []" using False b2(2) b3(1) by simp
    have "seg_id (last (segments b3)) < nextSegID b3"
      using l(1) last_in_set [OF ne] by (auto simp: core_inv_def list_all_iff)
    then have b4: "b4 = b3" using l(5) by (auto simp: b4_def)
    have "fix_past_all b3 = b3" using l(5) ne by (simp add: fix_past_all_def leD)
    moreover have "fix_past_end b3 = b3"
    proof (rule fix_past_end_id, intro ballI impI)
      fix s assume s: "s \<in> set (segments b3)" "seg_id s = ackedSegID b3"
      then have "seg_inv b3 s" using l(1) by (auto simp: core_inv_def list_all_iff)
      then have "boundary s (start_off b3 s)" using s(2) by (simp add: seg_inv_def)
      then show "ackedOff b3 \<le> fileSize s" using s(2) boundaryD(3) by (fastforce simp: start_off_def)
    qed
    ultimately have "settle_checkpoint io (ackedSegID b, ackedOff b) (fix_past_end (fix_past_all b4)) = Inr b3"
      using b4 b3(3,4) by (simp add: settle_checkpoint_def)
    then show ?thesis using run l b2(2) b3 b1(7,8) by (intro exI [of _ b3]) simp
  qed
qed

lemma reopened_within:
  assumes small: "\<forall>s \<in> set ss. length (seg_file s) < 2 ^ 32"
  shows "sum_list (map (int \<circ> fileSize) (map (reopened mt m b) ss)) \<le> sum_list (map (int \<circ> length \<circ> seg_file) ss)"
    "list_all (\<lambda>s. P (mt s)) ss \<Longrightarrow> list_all (\<lambda>s. P (lastWrite s)) (map (reopened mt m b) ss)"
proof -
  have eq: "fileSize (reopened mt m b s) \<le> length (seg_file s)" "lastWrite (reopened mt m b s) = mt s"
    if "s \<in> set ss" for s
    using openSegment_eq(5,6) [OF _ prod.collapse [symmetric], of "seg_file s" "mt s" "start_off b s"] small that
    by (auto simp: reopened_def)
  show "sum_list (map (int \<circ> fileSize) (map (reopened mt m b) ss)) \<le> sum_list (map (int \<circ> length \<circ> seg_file) ss)"
    unfolding map_map by (rule sum_list_mono) (simp add: eq(1))
  show "list_all (\<lambda>s. P (lastWrite s)) (map (reopened mt m b) ss)" if "list_all (\<lambda>s. P (mt s)) ss"
    using that eq(2) by (simp add: list_all_iff)
qed

text \<open>
  C4. A restart keeps the queue. Close a buffer whose checkpoint is on disk and open the directory
  again, with the files as they are and any modification times: the open succeeds, every record that
  was not acknowledged is there to be read again, in order and from the first one, except the oldest
  ones the limits of the new options take away, which are counted; within the limits nothing is lost.
\<close>

theorem reopen_keeps_unacked:
  assumes "buf_inv b" and "checkpointed b" and "nextSegID b \<noteq> - 1"
    and "\<forall>s \<in> set (segments b). length (seg_file s) < 2 ^ 32"
    and "\<And>n. io_openseg io n = None" and "io_save io = None \<or> io_remove io = None"
  shows "\<exists>b' old. open_buffer msize mage io now (disk_of mt b) (acked_file b) = Inr b' \<and>
    buf_inv b' \<and> pending b' = unacked b' \<and> unacked b = old @ unacked b' \<and>
    (intact b \<longrightarrow> dropped_total b' = int (length old)) \<and>
    (sum_list (map (int \<circ> length \<circ> seg_file) (segments b)) \<le> (if msize = 0 then 512 * 1024 * 1024 else msize) \<and>
     list_all (\<lambda>s. time_sub now (mt s) \<le> (if mage = 0 then 6 * hour else mage)) (segments b) \<longrightarrow> old = [])"
proof -
  from open_settled [OF assms, of msize mage now mt] obtain c where
    c: "open_buffer msize mage io now (disk_of mt b) (acked_file b) =
      Inr (rewind (enforceMaxSize now (enforceMaxAge now (dropAckedSegments now c))))"
    "core_inv c" "unacked c = unacked b" "intact b \<longrightarrow> intact c" "dropped_total c = 0"
    "segments c \<noteq> [] \<longrightarrow> ackedSegID c \<le> seg_id (last (segments c))"
    "segments c = map (reopened mt (opt_maxSize c) b) (segments b)"
    "opt_maxSize c = (if msize = 0 then 512 * 1024 * 1024 else msize)"
    "opt_maxAge c = (if mage = 0 then 6 * hour else mage)" by blast
  define b' where "b' = rewind (enforceMaxSize now (enforceMaxAge now (dropAckedSegments now c)))"
  note tail = open_tail [OF c(2) _ b'_def]
  obtain old where old: "unacked c = old @ unacked b'" "intact c \<longrightarrow> dropped_total b' = dropped_total c + int (length old)"
    using tail(3) c(6) by blast
  have "old = []" if lim: "sum_list (map (int \<circ> length \<circ> seg_file) (segments b)) \<le> opt_maxSize c"
    "list_all (\<lambda>s. time_sub now (mt s) \<le> opt_maxAge c) (segments b)"
  proof -
    note w = reopened_within [OF assms(4)]
    have "bytesUsed (stats c) \<le> opt_maxSize c"
      using c(2) order_trans [OF w(1) lim(1), of mt "opt_maxSize c" b] unfolding c(7) [symmetric] by (simp add: core_inv_def)
    moreover have "list_all (\<lambda>s. time_sub now (lastWrite s) \<le> opt_maxAge c) (segments c)"
      by (subst c(7)) (rule w(2) [of "\<lambda>t. time_sub now t \<le> opt_maxAge c", OF lim(2)])
    ultimately show ?thesis using tail(4) c(6) old(1) by (simp add: within_limits_def)
  qed
  then show ?thesis
    using c(1,3-5,8,9) tail(1,2) c(6) old unfolding b'_def [symmetric] by (intro exI [of _ b'] exI [of _ old]) auto
qed

lemma reopen_keeps_unacked_witness:
  "\<exists>b'. open_buffer 0 0 \<lparr>io_openseg = \<lambda>_. None, io_save = None, io_remove = None\<rparr> 7 (disk_of (\<lambda>_. 0) sample_buffer) None = Inr b' \<and>
    buf_inv b' \<and> (\<exists>old. [[1, 2, 3]] = old @ unacked b' \<and> pending b' = unacked b' \<and> dropped_total b' = int (length old))"
proof -
  have "nextSegID sample_buffer \<noteq> - 1" using sample_buffer(4) by (auto simp: unsigned_minus_1_eq_mask mask_eq_exp_minus_1)
  moreover have "checkpointed sample_buffer"
    by (simp add: checkpointed_def sample_buffer(8-10) loadAckedPosition_def)
  ultimately show ?thesis
    using reopen_keeps_unacked [OF sample_buffer(1) _ _ sample_buffer(11),
        of "\<lparr>io_openseg = \<lambda>_. None, io_save = None, io_remove = None\<rparr>" 0 0 7 "\<lambda>_. 0"]
    by (auto simp: sample_buffer(3,6,8))
qed

end
