(* ===== verification/Pusher.thy ===== *)
theory Pusher
  imports Go_Text Buffer_Delivery
begin

text \<open>
  The pusher of the agent (\<^verbatim>\<open>internal/agent/pusher.go\<close>): the queue of envelopes, one push attempt with
  its retries, and draining the queue, from memory or from the disk buffer.

  An envelope is of a type of its own; encoding and decoding it are arguments. What happens during a
  push is a script with an entry per attempt: the reading of the clock, the random number of the
  backoff and what the request came to. The context is cancelled when the script ends. The queue in
  memory and the buffer change only through the operations here; a push and a \<^verbatim>\<open>Queue\<close> call of another
  goroutine do not interleave.
\<close>

section \<open>State\<close>

datatype health = HealthOK | HealthIncompatible | HealthRevoked | HealthUnauthorized | HealthUnreachable

definition maxPendingEnvelopes :: nat where "maxPendingEnvelopes = 1024"
definition maxRetryAfter :: duration where "maxRetryAfter = 60 * second"
definition pushAttemptTimeout :: duration where "pushAttemptTimeout = 10 * second"
definition maxPushAttemptTimeout :: duration where "maxPushAttemptTimeout = 2 * minute"

record 'e pusher =
  push_url :: string
  health :: health
  lastSuccessfulPush :: "time option"
  clockSkew :: duration
  lastError :: string
  stopped :: bool
  attemptTimeout :: duration
  maxAttemptTimeout :: duration
  queue :: "'e list"
  nAcked :: int
  nDropped :: int
  lastDropTotal :: int
  lastDropAt :: time
  disk :: "buffer option"

definition newPusher :: "string \<Rightarrow> 'e pusher" where
  "newPusher serverURL =
     \<lparr>push_url = trim_right_char (CHR ''/'') serverURL, health = HealthOK, lastSuccessfulPush = None, clockSkew = 0,
      lastError = [], stopped = False, attemptTimeout = pushAttemptTimeout, maxAttemptTimeout = maxPushAttemptTimeout,
      queue = [], nAcked = 0, nDropped = 0, lastDropTotal = 0, lastDropAt = 0, disk = None\<rparr>"

text \<open>\<^verbatim>\<open>Queue\<close>: \<open>marshal\<close> is \<^verbatim>\<open>json.Marshal\<close>.\<close>

definition queue_env :: "('e \<Rightarrow> bytes option) \<Rightarrow> buf_io \<Rightarrow> time \<Rightarrow> 'e \<Rightarrow> 'e pusher \<Rightarrow> 'e pusher" where
  "queue_env marshal io now env p =
     (case disk p of
        Some b \<Rightarrow>
          (case marshal env of
             None \<Rightarrow> p\<lparr>nDropped := nDropped p + 1\<rparr>
           | Some data \<Rightarrow>
               (case buf_append io now data b of
                  (b', Some _) \<Rightarrow> p\<lparr>disk := Some b', nDropped := nDropped p + 1\<rparr>
                | (b', None) \<Rightarrow> p\<lparr>disk := Some b'\<rparr>))
      | None \<Rightarrow>
          (let p1 = (if maxPendingEnvelopes \<le> length (queue p) then
                       (let n = length (queue p) - maxPendingEnvelopes + 1
                        in p\<lparr>queue := drop n (queue p), nDropped := nDropped p + int n\<rparr>)
                     else p)
           in p1\<lparr>queue := queue p1 @ [env]\<rparr>))"

section \<open>Waiting\<close>

text \<open>
  \<^verbatim>\<open>backoffDelay\<close>: \<open>rnd\<close> is what \<^verbatim>\<open>rand.Int63n\<close> returned. The power is a float that saturates; under the
  minimum with 60 it is exact.
\<close>

definition backoff_half :: "nat \<Rightarrow> duration" where
  "backoff_half attempt = (min (2 ^ attempt) 60 * second) div 2"

definition backoffDelay :: "int \<Rightarrow> nat \<Rightarrow> duration" where
  "backoffDelay rnd attempt = (if attempt = 0 then 0 else backoff_half attempt + rnd)"

fun double_until :: "duration \<Rightarrow> nat \<Rightarrow> duration \<Rightarrow> duration" where
  "double_until cap 0 d = d"
| "double_until cap (Suc k) d = (if d < cap then double_until cap k (wrap64 (d * 2)) else d)"

definition attemptTimeoutAfter :: "'e pusher \<Rightarrow> nat \<Rightarrow> duration" where
  "attemptTimeoutAfter p stalls = min (double_until (maxAttemptTimeout p) stalls (attemptTimeout p)) (maxAttemptTimeout p)"

text \<open>\<^verbatim>\<open>parseRetryAfter\<close>: \<open>date\<close> is what \<^verbatim>\<open>http.ParseTime\<close> makes of the header.\<close>

definition parseRetryAfter :: "string \<Rightarrow> time option \<Rightarrow> time \<Rightarrow> duration" where
  "parseRetryAfter v date now =
     (case parse_int64 (trim_space v) of
        Some secs \<Rightarrow>
          if secs \<le> 0 then 0
          else if quot_trunc maxRetryAfter second \<le> secs then maxRetryAfter
          else secs * second
      | None \<Rightarrow>
          (case date of
             Some t \<Rightarrow> (let wait = time_sub t now in if 0 < wait then min wait maxRetryAfter else 0)
           | None \<Rightarrow> 0))"

section \<open>One attempt\<close>

record response =
  r_status :: int
  r_date :: "time option"
  r_retry :: string
  r_retry_date :: "time option"
  r_body :: string

datatype request_result =
    Unbuilt string
  | NetErr bool bool string
  | Answered response

record attempt =
  a_now :: time
  a_rnd :: int
  a_result :: request_result

text \<open>What \<^verbatim>\<open>doRequest\<close> reads of the response: the skew of the clocks and the wait it asks for.\<close>

definition maxPushResponseBytes :: nat where "maxPushResponseBytes = 65536"

definition resp_skew :: "time \<Rightarrow> response \<Rightarrow> duration option" where
  "resp_skew now r = map_option (\<lambda>t. time_sub t now) (r_date r)"

definition resp_wait :: "time \<Rightarrow> response \<Rightarrow> duration" where
  "resp_wait now r = parseRetryAfter (r_retry r) (r_retry_date r) now"

definition resp_text :: "response \<Rightarrow> string" where
  "resp_text r = take maxPushResponseBytes (r_body r)"

datatype push_outcome = PushConsumed | PushRetryLater

text \<open>The end of an attempt: an outcome, or another attempt after a wait with the number of stalls.\<close>

datatype attempt_end = Ends push_outcome "string option" | Again duration nat

definition net_failed :: "string \<Rightarrow> 'e pusher \<Rightarrow> 'e pusher" where
  "net_failed err p =
     (if health p = HealthOK \<or> health p = HealthUnreachable
      then p\<lparr>health := HealthUnreachable, lastError := ''push failed: '' @ err\<rparr> else p)"

definition status_text :: "response \<Rightarrow> string" where
  "status_text r = ''push returned '' @ format_int (r_status r) @ '': '' @ resp_text r"

definition drop_one :: "'e pusher \<Rightarrow> 'e pusher" where
  "drop_one p = p\<lparr>nDropped := nDropped p + 1\<rparr>"

definition handle_status :: "time \<Rightarrow> response \<Rightarrow> nat \<Rightarrow> 'e pusher \<Rightarrow> 'e pusher \<times> attempt_end" where
  "handle_status now r stalls p =
     (let st = r_status r in
      if st = 202 then
        (p\<lparr>lastSuccessfulPush := Some now, health := HealthOK, nAcked := nAcked p + 1,
           clockSkew := (case resp_skew now r of Some s \<Rightarrow> s | None \<Rightarrow> clockSkew p)\<rparr>,
         Ends PushConsumed None)
      else if st = 400 then
        (drop_one (p\<lparr>health := HealthIncompatible, lastError := resp_text r\<rparr>), Ends PushConsumed None)
      else if st = 401 then
        (p\<lparr>health := (if contains_text ''revoked'' (resp_text r) then HealthRevoked else HealthUnauthorized),
           lastError := resp_text r\<rparr>,
         Ends PushRetryLater None)
      else if st = 413 then (drop_one p, Ends PushConsumed None)
      else if st = 408 \<or> st = 425 \<or> st = 429 then (p, Again (resp_wait now r) stalls)
      else if st = 404 \<or> st = 405 then
        (p\<lparr>health := HealthIncompatible, lastError := status_text r\<rparr>, Ends PushRetryLater None)
      else if 500 \<le> st then (p, Again (resp_wait now r) stalls)
      else (drop_one p\<lparr>lastError := status_text r\<rparr>, Ends PushConsumed None))"

definition try_once :: "attempt \<Rightarrow> nat \<Rightarrow> 'e pusher \<Rightarrow> 'e pusher \<times> attempt_end" where
  "try_once a stalls p =
     (case a_result a of
        Unbuilt err \<Rightarrow> (drop_one p, Ends PushConsumed (Some (''encode envelope: '' @ err)))
      | NetErr sent timedout err \<Rightarrow>
          (let timeout = attemptTimeoutAfter p stalls; p1 = net_failed err p in
           if sent \<and> timedout then
             if maxAttemptTimeout p \<le> timeout then
               (drop_one p1\<lparr>lastError := ''push timed out after '' @ duration_string timeout @ '', envelope dropped: '' @ err\<rparr>,
                Ends PushConsumed None)
             else (p1, Again 0 (stalls + 1))
           else (p1, Again 0 stalls))
      | Answered r \<Rightarrow> handle_status (a_now a) r stalls p)"

text \<open>
  \<^verbatim>\<open>pushOne\<close>. A context that is cancelled before the first attempt fails its request, unsent, and then
  the sleep before the second one. The world of a push has the pusher, the script, the errors a
  cancelled context gives, the error returned, and two records of what happened: the delays slept and the
  envelopes the server answered 202 for.
\<close>

record 'e world =
  pu :: "'e pusher"
  script :: "attempt list"
  ret_err :: "string option"
  ctx_err :: string
  unsent_err :: string
  slept :: "duration list"
  stored :: "'e list"

definition retry_delay :: "duration \<Rightarrow> attempt \<Rightarrow> nat \<Rightarrow> duration" where
  "retry_delay wait a n = (let delay = backoffDelay (a_rnd a) n in if delay < wait then wait else delay)"

definition accepted_by :: "attempt \<Rightarrow> bool" where
  "accepted_by a \<longleftrightarrow> (case a_result a of Answered r \<Rightarrow> r_status r = 202 | _ \<Rightarrow> False)"

definition log_attempt :: "'e \<Rightarrow> nat \<Rightarrow> duration \<Rightarrow> attempt \<Rightarrow> 'e world \<Rightarrow> 'e world" where
  "log_attempt env n wait a w =
     w\<lparr>slept := slept w @ (if 0 < n then [retry_delay wait a n] else []),
       stored := stored w @ (if accepted_by a then [env] else [])\<rparr>"

fun push_loop :: "'e \<Rightarrow> nat \<Rightarrow> duration \<Rightarrow> nat \<Rightarrow> attempt list \<Rightarrow> 'e world \<Rightarrow> 'e world \<times> push_outcome" where
  "push_loop env n wait stalls [] w =
     (w\<lparr>pu := (if n = 0 then net_failed (unsent_err w) (pu w) else pu w), script := [], ret_err := Some (ctx_err w)\<rparr>,
      PushRetryLater)"
| "push_loop env n wait stalls (a # as) w =
     (let w1 = log_attempt env n wait a w in
      case try_once a stalls (pu w1) of
        (p, Ends oc err) \<Rightarrow> (w1\<lparr>pu := p, script := as, ret_err := err\<rparr>, oc)
      | (p, Again wait1 stalls1) \<Rightarrow> push_loop env (n + 1) wait1 stalls1 as (w1\<lparr>pu := p\<rparr>))"

definition pushOne :: "'e \<Rightarrow> 'e world \<Rightarrow> 'e world \<times> push_outcome" where
  "pushOne env w = push_loop env 0 0 0 (script w) w"

section \<open>Pushing\<close>

definition send_env :: "'e \<Rightarrow> 'e world \<Rightarrow> 'e world \<times> send_result" where
  "send_env env w =
     (case pushOne env w of
        (w1, PushRetryLater) \<Rightarrow> (w1, KeepStop)
      | (w1, PushConsumed) \<Rightarrow> (w1, if ret_err w1 = None then Consumed else ConsumedStop))"

text \<open>One record of the buffer: \<open>unmarshal\<close> is \<^verbatim>\<open>json.Unmarshal\<close>.\<close>

definition send_data :: "('d \<Rightarrow> 'e option) \<Rightarrow> 'd \<Rightarrow> 'e world \<Rightarrow> 'e world \<times> send_result" where
  "send_data unmarshal data w =
     (case unmarshal data of
        None \<Rightarrow> (w\<lparr>pu := drop_one (pu w)\<rparr>, Consumed)
      | Some env \<Rightarrow> send_env env w)"

text \<open>
  \<^verbatim>\<open>pushFromBuffer\<close>: the loop over the buffer, with the clock and the answers to saving the checkpoint as
  they are at the time. \<open>None\<close> would be a loop without end.
\<close>

definition pushFromBuffer ::
  "('e world \<Rightarrow> time) \<Rightarrow> ('e world \<Rightarrow> ioerr option) \<Rightarrow> (bytes \<Rightarrow> 'e option) \<Rightarrow> buffer \<Rightarrow> 'e world \<Rightarrow>
   ('e world \<times> string option) option" where
  "pushFromBuffer clk aio unmarshal b w =
     map_option (\<lambda>(b', w', e). (w'\<lparr>pu := (pu w')\<lparr>disk := Some b'\<rparr>\<rparr>, case e of Drained \<Rightarrow> None | Stopped \<Rightarrow> ret_err w'))
       (drain (\<lambda>w. next_record (clk w)) (\<lambda>w t b. fst (ack (aio w) (clk w) t b)) rewind (send_data unmarshal) b w)"

lemma handle_status_queue: "handle_status now r stalls p = (p', e) \<Longrightarrow> queue p' = queue p \<and> disk p' = disk p"
  by (auto simp: handle_status_def Let_def drop_one_def split: if_splits)

lemma try_once_queue: "try_once a stalls p = (p', e) \<Longrightarrow> queue p' = queue p \<and> disk p' = disk p"
  by (auto simp: try_once_def Let_def drop_one_def net_failed_def split: request_result.splits if_splits
      dest: handle_status_queue)

lemma push_loop_queue: "push_loop env n wait stalls as w = (w', oc) \<Longrightarrow> queue (pu w') = queue (pu w) \<and> disk (pu w') = disk (pu w)"
proof (induction env n wait stalls as w rule: push_loop.induct)
  case (1 env n wait stalls w)
  then show ?case by (auto simp: net_failed_def)
next
  case (2 env n wait stalls a as w)
  obtain p e where pe: "try_once a stalls (pu w) = (p, e)" by fastforce
  then show ?case using 2 try_once_queue [OF pe] by (cases e) (fastforce simp: Let_def log_attempt_def)+
qed

text \<open>The loop of \<^verbatim>\<open>Push\<close> over the queue in memory.\<close>

function push_queue :: "'e world \<Rightarrow> 'e world \<times> string option" where
  "push_queue w =
     (case queue (pu w) of
        [] \<Rightarrow> (w, None)
      | env # rest \<Rightarrow>
          (case pushOne env (w\<lparr>pu := (pu w)\<lparr>queue := rest\<rparr>\<rparr>) of
             (w1, PushRetryLater) \<Rightarrow> (w1\<lparr>pu := (pu w1)\<lparr>queue := env # queue (pu w1)\<rparr>\<rparr>, ret_err w1)
           | (w1, PushConsumed) \<Rightarrow> if ret_err w1 \<noteq> None then (w1, ret_err w1) else push_queue w1))"
  by pat_completeness auto
termination
  by (relation "measure (\<lambda>w. length (queue (pu w)))") (auto simp: pushOne_def dest!: push_loop_queue [OF sym])

declare push_queue.simps [simp del]

definition push :: 
  "('e world \<Rightarrow> time) \<Rightarrow> ('e world \<Rightarrow> ioerr option) \<Rightarrow> (bytes \<Rightarrow> 'e option) \<Rightarrow> 'e world \<Rightarrow>
   ('e world \<times> string option) option" where
  "push clk aio unmarshal w =
     (if stopped (pu w) then Some (w, None)
      else case disk (pu w) of
             Some b \<Rightarrow> pushFromBuffer clk aio unmarshal b w
           | None \<Rightarrow> Some (push_queue w))"

section \<open>Reports\<close>

definition droppedSamples :: "'e pusher \<Rightarrow> int" where
  "droppedSamples p =
     nDropped p + (case disk p of None \<Rightarrow> 0 | Some b \<Rightarrow> sum_list (map snd (samplesDropped (stats_copy b))))"

definition samplesDroppedRate :: "time \<Rightarrow> 'e pusher \<Rightarrow> 'e pusher \<times> f64" where
  "samplesDroppedRate now p =
     (let total = droppedSamples p; elapsed = time_sub now (lastDropAt p);
          p1 = p\<lparr>lastDropTotal := total, lastDropAt := now\<rparr>
      in (p1,
          if is_zero (lastDropAt p) then Fin 0
          else if elapsed \<le> 0 \<or> total \<le> lastDropTotal p then Fin 0
          else Fin (real_of_int (total - lastDropTotal p) / (real_of_int elapsed / real_of_int second))))"

definition stop_pusher :: "'e pusher \<Rightarrow> 'e pusher" where
  "stop_pusher p = p\<lparr>stopped := True\<rparr>"

definition healthz_code :: "'e pusher \<Rightarrow> int" where
  "healthz_code p =
     (if health p = HealthIncompatible \<or> health p = HealthRevoked \<or> health p = HealthUnauthorized then 503 else 200)"

end
