(* ===== verification/Push_Props.thy ===== *)
theory Push_Props
  imports Pusher "HOL-Library.Sublist"
begin

text \<open>
  What a push does with each envelope, and the pusher and its queue as one: nothing is lost
  uncounted, the server gets the envelopes in order, and the queue in memory and the disk buffer are
  the same queue to it.
\<close>

section \<open>One envelope\<close>

definition refused :: "attempt \<Rightarrow> bool" where
  "refused a \<longleftrightarrow> (case a_result a of Answered r \<Rightarrow> r_status r \<in> {401, 404, 405} | _ \<Rightarrow> False)"

definition stalled :: "attempt \<Rightarrow> bool" where
  "stalled a \<longleftrightarrow> (case a_result a of NetErr sent timedout _ \<Rightarrow> sent \<and> timedout | _ \<Rightarrow> False)"

text \<open>What an attempt does to the counters.\<close>

definition counted_as :: "bool \<Rightarrow> push_outcome option \<Rightarrow> 'e pusher \<Rightarrow> 'e pusher \<Rightarrow> bool" where
  "counted_as acc oc p p' \<longleftrightarrow>
     nAcked p' = nAcked p + (if acc then 1 else 0) \<and>
     nDropped p' = nDropped p + (if oc = Some PushConsumed \<and> \<not> acc then 1 else 0) \<and>
     (acc \<longrightarrow> oc = Some PushConsumed) \<and>
     attemptTimeout p' = attemptTimeout p \<and> maxAttemptTimeout p' = maxAttemptTimeout p"

fun end_outcome :: "attempt_end \<Rightarrow> push_outcome option" where
  "end_outcome (Ends oc err) = Some oc"
| "end_outcome (Again d k) = None"

lemma net_failed_counts [simp]:
  "nAcked (net_failed e p) = nAcked p" "nDropped (net_failed e p) = nDropped p"
  "attemptTimeout (net_failed e p) = attemptTimeout p" "maxAttemptTimeout (net_failed e p) = maxAttemptTimeout p"
  by (simp_all add: net_failed_def)

lemma handle_status_counts:
  "case handle_status now r stalls p of (p', e) \<Rightarrow> counted_as (r_status r = 202) (end_outcome e) p p'"
  by (simp add: handle_status_def counted_as_def drop_one_def Let_def)

lemma try_once_counts:
  assumes "try_once a stalls p = (p', e)"
  shows "counted_as (accepted_by a) (end_outcome e) p p'"
proof (cases "a_result a")
  case (Answered r)
  then show ?thesis using assms handle_status_counts [where now = "a_now a" and r = r and stalls = stalls and p = p]
    by (simp add: try_once_def accepted_by_def)
next
  case (NetErr sent timedout err)
  then show ?thesis using assms
    by (auto simp: try_once_def accepted_by_def counted_as_def drop_one_def Let_def split: if_splits)
next
  case (Unbuilt err)
  then show ?thesis using assms by (auto simp: try_once_def accepted_by_def counted_as_def drop_one_def)
qed

lemma log_attempt_simps [simp]:
  "pu (log_attempt env n wait a w) = pu w" "stored (log_attempt env n wait a w) = stored w @ (if accepted_by a then [env] else [])"
  "slept (log_attempt env n wait a w) = slept w @ (if 0 < n then [retry_delay wait a n] else [])"
  "ctx_err (log_attempt env n wait a w) = ctx_err w" "unsent_err (log_attempt env n wait a w) = unsent_err w"
  "ret_err (log_attempt env n wait a w) = ret_err w" "script (log_attempt env n wait a w) = script w"
  by (simp_all add: log_attempt_def)

lemma push_loop_step:
  assumes "try_once a stalls (pu w) = (p, e)"
  shows "push_loop env n wait stalls (a # as) w =
    (case e of
       Ends oc err \<Rightarrow> ((log_attempt env n wait a w)\<lparr>pu := p, script := as, ret_err := err\<rparr>, oc)
     | Again wait1 stalls1 \<Rightarrow> push_loop env (n + 1) wait1 stalls1 as ((log_attempt env n wait a w)\<lparr>pu := p\<rparr>))"
  using assms by (simp add: push_loop.simps(2) Let_def split: attempt_end.split)

declare push_loop.simps(2) [simp del]

lemma push_loop_counts:
  assumes "push_loop env n wait stalls as w = (w', oc)"
  shows "\<exists>acc. stored w' = stored w @ (if acc then [env] else []) \<and> counted_as acc (Some oc) (pu w) (pu w')"
  using assms
proof (induction as arbitrary: n wait stalls w)
  case Nil
  then show ?case by (intro exI [of _ False]) (auto simp: counted_as_def)
next
  case (Cons a as)
  obtain p e where pe: "try_once a stalls (pu w) = (p, e)" by (cases "try_once a stalls (pu w)")
  note c = try_once_counts [OF pe]
  show ?case
  proof (cases e)
    case (Ends oc' err)
    then have "w' = (log_attempt env n wait a w)\<lparr>pu := p, script := as, ret_err := err\<rparr>" "oc = oc'"
      using Cons.prems push_loop_step [OF pe] by simp_all
    then show ?thesis using c Ends by (intro exI [of _ "accepted_by a"]) simp
  next
    case (Again d k)
    then have na: "\<not> accepted_by a" using c by (auto simp: counted_as_def)
    have "push_loop env (n + 1) d k as ((log_attempt env n wait a w)\<lparr>pu := p\<rparr>) = (w', oc)"
      using Cons.prems push_loop_step [OF pe] Again by simp
    from Cons.IH [OF this] na
    obtain acc where "stored w' = stored w @ (if acc then [env] else [])" "counted_as acc (Some oc) p (pu w')" by auto
    then show ?thesis using c na Again by (intro exI [of _ acc]) (simp add: counted_as_def)
  qed
qed

section \<open>The queue does not matter to a push\<close>

definition with_store :: "'e list \<Rightarrow> buffer option \<Rightarrow> 'e world \<Rightarrow> 'e world" where
  "with_store q d w = w\<lparr>pu := (pu w)\<lparr>queue := q, disk := d\<rparr>\<rparr>"

lemma with_store_simps [simp]:
  "script (with_store q d w) = script w" "ret_err (with_store q d w) = ret_err w" "ctx_err (with_store q d w) = ctx_err w"
  "unsent_err (with_store q d w) = unsent_err w" "slept (with_store q d w) = slept w" "stored (with_store q d w) = stored w"
  "pu (with_store q d w) = (pu w)\<lparr>queue := q, disk := d\<rparr>" "with_store q d (with_store q' d' w) = with_store q d w"
  by (simp_all add: with_store_def)

lemma attemptTimeoutAfter_frame [simp]: "attemptTimeoutAfter (p\<lparr>queue := q, disk := d\<rparr>) = attemptTimeoutAfter p"
  by (simp add: attemptTimeoutAfter_def fun_eq_iff)

lemma net_failed_frame [simp]: "net_failed e (p\<lparr>queue := q, disk := d\<rparr>) = (net_failed e p)\<lparr>queue := q, disk := d\<rparr>"
  by (simp add: net_failed_def)

lemma handle_status_frame:
  "handle_status now r st (p\<lparr>queue := q, disk := d\<rparr>) =
     (case handle_status now r st p of (p', e) \<Rightarrow> (p'\<lparr>queue := q, disk := d\<rparr>, e))"
  by (cases "resp_skew now r") (simp_all add: handle_status_def drop_one_def Let_def)

lemma try_once_frame:
  "try_once a st (p\<lparr>queue := q, disk := d\<rparr>) = (case try_once a st p of (p', e) \<Rightarrow> (p'\<lparr>queue := q, disk := d\<rparr>, e))"
  by (cases "a_result a") (simp_all add: try_once_def handle_status_frame drop_one_def Let_def)

lemma log_attempt_frame: "log_attempt env n wait a (with_store q d w) = with_store q d (log_attempt env n wait a w)"
  by (simp add: log_attempt_def with_store_def)

lemma push_loop_frame:
  "push_loop env n wait st as (with_store q d w) = (case push_loop env n wait st as w of (w', oc) \<Rightarrow> (with_store q d w', oc))"
proof (induction as arbitrary: n wait st w)
  case Nil
  then show ?case by (simp add: with_store_def)
next
  case (Cons a as)
  obtain p e where pe: "try_once a st (pu w) = (p, e)" by (cases "try_once a st (pu w)")
  then have pe': "try_once a st (pu (with_store q d w)) = (p\<lparr>queue := q, disk := d\<rparr>, e)" by (simp add: try_once_frame)
  have upd: "(with_store q d (log_attempt env n wait a w))\<lparr>pu := p\<lparr>queue := q, disk := d\<rparr>\<rparr> =
    with_store q d ((log_attempt env n wait a w)\<lparr>pu := p\<rparr>)" by (simp add: with_store_def)
  note step = push_loop_step [OF pe] push_loop_step [OF pe']
  show ?case
  proof (cases e)
    case (Ends oc err)
    then show ?thesis by (simp add: step log_attempt_frame)
  next
    case (Again wait1 st1)
    then show ?thesis by (simp add: step log_attempt_frame upd Cons.IH)
  qed
qed

lemma send_env_frame: "send_env env (with_store q d w) = (case send_env env w of (w', r) \<Rightarrow> (with_store q d w', r))"
proof -
  obtain w' oc where "push_loop env 0 0 0 (script w) w = (w', oc)" by (cases "push_loop env 0 0 0 (script w) w")
  then show ?thesis by (cases oc) (simp_all add: send_env_def pushOne_def push_loop_frame)
qed

lemma send_data_frame:
  "send_data val x (with_store q d w) = (case send_data val x w of (w', r) \<Rightarrow> (with_store q d w', r))"
proof (cases "val x")
  case None
  then show ?thesis by (simp add: send_data_def drop_one_def with_store_def)
next
  case (Some env)
  then show ?thesis by (simp add: send_data_def send_env_frame)
qed

lemma send_data_Some: "send_data Some = send_env"
  by (simp add: send_data_def fun_eq_iff)

lemma deliver_frame:
  assumes "deliver_all (send_data val) xs w = (rest, w', e)"
  shows "deliver_all (send_data val) xs (with_store q d w) = (rest, with_store q d w', e)"
  using deliver_all_sim [of "(=)" "send_data val" "with_store q d" "send_data val" xs xs w rest w' e] assms
  by (auto simp: send_data_frame list_all2_eq [symmetric])

section \<open>Draining either queue\<close>

lemma with_store_id: "with_store (queue (pu w)) (disk (pu w)) w = w"
  by (simp add: with_store_def)

lemma requeue: "(with_store q d w)\<lparr>pu := (pu (with_store q d w))\<lparr>queue := q'\<rparr>\<rparr> = with_store q' d w"
  by (simp add: with_store_def)

lemma push_queue_deliver:
  assumes "deliver_all send_env (queue (pu w)) w = (rest, w', e)"
  shows "push_queue w = (with_store rest (disk (pu w)) w', case e of Drained \<Rightarrow> None | Stopped \<Rightarrow> ret_err w')"
  using assms
proof (induction "queue (pu w)" arbitrary: w w')
  case Nil
  then have q: "queue (pu w) = []" and r: "rest = []" "w' = w" "e = Drained" by simp_all
  have "with_store [] (disk (pu w)) w = w" using with_store_id [of w] unfolding q .
  moreover have "push_queue w = (w, None)" by (subst push_queue.simps) (simp only: q list.case)
  ultimately show ?case by (simp only: r drain_end.case)
next
  case (Cons env envs)
  let ?w0 = "with_store envs (disk (pu w)) w"
  have w0: "w\<lparr>pu := (pu w)\<lparr>queue := envs\<rparr>\<rparr> = ?w0" by (simp add: with_store_def)
  obtain w1 oc where w1: "pushOne env w = (w1, oc)" by (cases "pushOne env w")
  have f: "pushOne env ?w0 = (with_store envs (disk (pu w)) w1, oc)"
    using w1 by (simp add: pushOne_def push_loop_frame)
  have q: "queue (pu w1) = queue (pu w)" "disk (pu w1) = disk (pu w)"
    using push_loop_queue [OF w1 [unfolded pushOne_def]] by simp_all
  have run: "deliver_all send_env (env # envs) w = (rest, w', e)" using Cons.prems Cons.hyps(2) by simp
  show ?case
  proof (cases "oc = PushConsumed \<and> ret_err w1 = None")
    case True
    then have "send_env env w = (w1, Consumed)" using w1 by (simp add: send_env_def)
    then have "deliver_all send_env envs w1 = (rest, w', e)" using run by simp
    from deliver_frame [of Some, unfolded send_data_Some, OF this]
    have "deliver_all send_env envs (with_store envs (disk (pu w)) w1) = (rest, with_store envs (disk (pu w)) w', e)" .
    with Cons.hyps(1) [of "with_store envs (disk (pu w)) w1" "with_store envs (disk (pu w)) w'"]
    have "push_queue (with_store envs (disk (pu w)) w1) =
        (with_store rest (disk (pu w)) w', case e of Drained \<Rightarrow> None | Stopped \<Rightarrow> ret_err w')"
      by (simp split: drain_end.split)
    moreover have "push_queue w = push_queue (with_store envs (disk (pu w)) w1)"
      using True by (subst push_queue.simps) (simp add: w0 f flip: Cons.hyps(2))
    ultimately show ?thesis by (rule trans [rotated])
  next
    case False
    then have "send_env env w = (w1, if oc = PushConsumed then ConsumedStop else KeepStop)"
      using w1 by (cases oc) (auto simp: send_env_def)
    then have r: "w' = w1" "e = Stopped" "rest = (if oc = PushConsumed then envs else env # envs)"
      using run by (auto split: if_splits)
    show ?thesis
    proof (cases oc)
      case PushConsumed
      then show ?thesis using False
        by (subst push_queue.simps) (simp add: w0 f r flip: Cons.hyps(2))
    next
      case PushRetryLater
      then show ?thesis
        by (subst push_queue.simps) (simp add: w0 f r requeue del: with_store_simps(7) flip: Cons.hyps(2), simp)
    qed
  qed
qed

text \<open>The envelopes a drain takes off the queue: some stored, in order, the others counted as dropped.\<close>

definition accounts :: "'e list \<Rightarrow> nat \<Rightarrow> 'e world \<Rightarrow> 'e world \<Rightarrow> bool" where
  "accounts envs n w w' \<longleftrightarrow>
     (\<exists>acc. subseq acc envs \<and> stored w' = stored w @ acc \<and> nAcked (pu w') = nAcked (pu w) + int (length acc) \<and>
        nDropped (pu w') = nDropped (pu w) + int n - int (length acc))"

lemma accounts_refl: "accounts [] 0 w w"
  by (simp add: accounts_def)

lemma accounts_trans:
  assumes "accounts e n u v" and "accounts f m v w"
  shows "accounts (e @ f) (n + m) u w"
proof -
  obtain a b where "subseq a e" "stored v = stored u @ a" "nAcked (pu v) = nAcked (pu u) + int (length a)"
    "nDropped (pu v) = nDropped (pu u) + int n - int (length a)" "subseq b f" "stored w = stored v @ b"
    "nAcked (pu w) = nAcked (pu v) + int (length b)" "nDropped (pu w) = nDropped (pu v) + int m - int (length b)"
    using assms unfolding accounts_def by blast
  then show ?thesis unfolding accounts_def by (intro exI [of _ "a @ b"]) (simp add: list_emb_append_mono)
qed

lemma send_data_accounts:
  assumes "send_data val x w = (w', r)"
  shows "r = KeepStop \<Longrightarrow> accounts [] 0 w w'" "r \<noteq> KeepStop \<Longrightarrow> accounts (List.map_filter val [x]) 1 w w'"
proof -
  have "if r = KeepStop then accounts [] 0 w w' else accounts (List.map_filter val [x]) 1 w w'"
  proof (cases "val x")
    case None
    then have "w' = w\<lparr>pu := drop_one (pu w)\<rparr>" "r = Consumed" using assms by (auto simp: send_data_def)
    then show ?thesis using None
      by (simp add: accounts_def List.map_filter_simps drop_one_def)
  next
    case (Some env)
    obtain oc where oc: "push_loop env 0 0 0 (script w) w = (w', oc)" "r = KeepStop \<longleftrightarrow> oc = PushRetryLater"
      using assms Some by (auto simp: send_data_def send_env_def pushOne_def split: prod.splits push_outcome.splits)
    obtain acc where acc: "stored w' = stored w @ (if acc then [env] else [])" "counted_as acc (Some oc) (pu w) (pu w')"
      using push_loop_counts [OF oc(1)] by blast
    show ?thesis
    proof (cases acc)
      case True
      then show ?thesis using acc oc(2) Some
        by (simp add: accounts_def List.map_filter_simps counted_as_def)
    next
      case False
      then show ?thesis using acc oc(2) Some
        by (cases oc) (auto simp: accounts_def List.map_filter_simps counted_as_def)
    qed
  qed
  then show "r = KeepStop \<Longrightarrow> accounts [] 0 w w'" "r \<noteq> KeepStop \<Longrightarrow> accounts (List.map_filter val [x]) 1 w w'" by auto
qed

lemma map_filter_Cons: "List.map_filter val (x # xs) = List.map_filter val [x] @ List.map_filter val xs"
  by (simp add: List.map_filter_def)

lemma deliver_accounts:
  assumes "deliver_all (send_data val) xs w = (rest, w', e)"
  shows "\<exists>gone. xs = gone @ rest \<and> accounts (List.map_filter val gone) (length gone) w w'"
  using assms
proof (induction xs arbitrary: w)
  case Nil
  then show ?case by (auto simp: List.map_filter_simps accounts_refl)
next
  case (Cons x xs)
  obtain w1 r where r: "send_data val x w = (w1, r)" by (cases "send_data val x w")
  note a = send_data_accounts [OF r]
  show ?case
  proof (cases r)
    case Consumed
    then have "deliver_all (send_data val) xs w1 = (rest, w', e)" using Cons.prems r by simp
    from Cons.IH [OF this] obtain gone where g: "xs = gone @ rest" "accounts (List.map_filter val gone) (length gone) w1 w'" by blast
    have "accounts (List.map_filter val (x # gone)) (length (x # gone)) w w'"
      using accounts_trans [OF a(2) g(2)] Consumed by (subst map_filter_Cons) simp
    then show ?thesis using g(1) by (metis append_Cons)
  next
    case ConsumedStop
    then have "w' = w1" "rest = xs" using Cons.prems r by auto
    then show ?thesis using a(2) ConsumedStop by (intro exI [of _ "[x]"]) simp
  next
    case KeepStop
    then have "w' = w1" "rest = x # xs" using Cons.prems r by auto
    then show ?thesis using a(1) KeepStop by (intro exI [of _ "[]"]) (simp add: List.map_filter_simps)
  qed
qed

section \<open>The pusher and its queue\<close>

text \<open>The envelopes that wait: the queue in memory, or what the records of the buffer decode to.\<close>

definition waiting :: "'e pusher \<Rightarrow> nat" where
  "waiting p = (case disk p of None \<Rightarrow> length (queue p) | Some b \<Rightarrow> length (unacked b))"

definition waiting_envs :: "(bytes \<Rightarrow> 'e option) \<Rightarrow> 'e pusher \<Rightarrow> 'e list" where
  "waiting_envs unmarshal p = (case disk p of None \<Rightarrow> queue p | Some b \<Rightarrow> List.map_filter unmarshal (unacked b))"

definition store_ok :: "nat \<Rightarrow> 'e pusher \<Rightarrow> bool" where
  "store_ok n p \<longleftrightarrow>
     (case disk p of
        None \<Rightarrow> True
      | Some b \<Rightarrow> buf_inv b \<and> pending b = unacked b \<and> intact b \<and> unat (nextSegID b) + 2 * n + 2 < 2 ^ 32)"

text \<open>A buffer that a drain does not damage, with the drops it has counted and its next identifier.\<close>

abbreviation steady :: "int \<Rightarrow> 32 word \<Rightarrow> buffer \<Rightarrow> bool" where
  "steady dr i b \<equiv> buf_inv b \<and> intact b \<and> dropped_total b = dr \<and> nextSegID b = i"

lemma moved_steady: "moved b b' \<Longrightarrow> steady dr i b \<Longrightarrow> buf_inv b' \<Longrightarrow> steady dr i b'"
  using same_start_off [of b' b] by (simp add: moved_def dropped_total_def intact_def)

interpretation sq: delivery_queue "steady dr i" pending unacked at_cursor
  "\<lambda>w. next_record (clk w)" "\<lambda>w t b. fst (ack (aio w) (clk w) t b)" rewind
  for dr :: int and i :: "32 word" and clk :: "'w \<Rightarrow> time" and aio :: "'w \<Rightarrow> ioerr option"
proof
  show "\<exists>s'. next_record (clk w) s = (s', None) \<and> steady dr i s' \<and> pending s' = [] \<and> unacked s' = unacked s"
    if "steady dr i s" "pending s = []" for s w
  proof -
    from that(1) have "buf_inv s" by blast
    from next_record_ok [OF this, of "clk w"] that(2) obtain b where
      "moved s b" "buf_inv b" "next_record (clk w) s = (b, None)" "pending b = []" by auto
    then show ?thesis using moved_steady [of s b dr i] moved_unacked [of s b] that(1) by blast
  qed
  show "\<exists>s' t. next_record (clk w) s = (s', Some (x, t)) \<and> steady dr i s' \<and> pending s' = xs \<and>
      unacked s' = unacked s \<and> at_cursor s' t" if "steady dr i s" "pending s = x # xs" for s x xs w
  proof -
    from that(1) have "buf_inv s" by blast
    from next_record_ok [OF this, of "clk w"] that(2) obtain b tok where
      "moved s b" "buf_inv b" "next_record (clk w) s = (b, Some (x, tok))" "pending b = xs" "at_cursor b tok" by auto
    then show ?thesis using moved_steady [of s b dr i] moved_unacked [of s b] that(1) by blast
  qed
  show "steady dr i (fst (ack (aio w) (clk w) t s)) \<and> unacked (fst (ack (aio w) (clk w) t s)) = pending s \<and>
      pending (fst (ack (aio w) (clk w) t s)) = pending s" if "steady dr i s" "at_cursor s t" for s t w
    using ack_ok [OF _ that(2) prod.collapse [symmetric], of "aio w" "clk w"] that(1) by blast
  show "steady dr i (rewind s) \<and> pending (rewind s) = unacked s \<and> unacked (rewind s) = unacked s" if "steady dr i s" for s
  proof -
    have inv: "buf_inv s" using that by blast
    have "moved s (rewind s)" using rewind_ok [of s] buf_acked_last [OF inv] inv by (simp add: buf_inv_def)
    then show ?thesis using moved_steady [of s "rewind s"] rewind_laws [OF inv] that by blast
  qed
qed

text \<open>Either path of \<^verbatim>\<open>Push\<close> returns, and delivers what waits in order.\<close>

lemma push_disk:
  assumes "disk (pu w) = Some b" and "\<not> stopped (pu w)" and "steady dr i b" and "pending b = unacked b"
    and "deliver_all (send_data unmarshal) (unacked b) w = (rest, w', e)"
  shows "\<exists>b'. push clk aio unmarshal w =
      Some (with_store (queue (pu w')) (Some b') w', case e of Drained \<Rightarrow> None | Stopped \<Rightarrow> ret_err w') \<and>
    steady dr i b' \<and> pending b' = rest \<and> unacked b' = rest"
proof -
  obtain b' where b': "drain (\<lambda>w. next_record (clk w)) (\<lambda>w t b. fst (ack (aio w) (clk w) t b)) rewind (send_data unmarshal) b w =
      Some (b', w', e)" "sq.aligned dr i b'" "unacked b' = rest"
    using sq.drain_delivers [of dr i b "send_data unmarshal" w rest w' e clk aio] assms(3-5) by (auto simp: sq.aligned_def)
  then show ?thesis using assms(1,2)
    by (auto simp: push_def pushFromBuffer_def sq.aligned_def with_store_def)
qed

lemma push_memory:
  assumes "disk (pu w) = None" and "\<not> stopped (pu w)" and "deliver_all send_env (queue (pu w)) w = (rest, w', e)"
  shows "push clk aio unmarshal w = Some (with_store rest None w', case e of Drained \<Rightarrow> None | Stopped \<Rightarrow> ret_err w')"
  using push_queue_deliver [OF assms(3)] assms(1,2) by (simp add: push_def)

text \<open>
  C3. The queue in memory and the disk buffer are the same queue. Give one pusher a buffer whose
  records decode to some envelopes and the other the envelopes in memory: with the same answers of the
  server both pushes end, return the same error, leave the same health, counters and delays, have the
  server store the same envelopes in the same order, and keep the same envelopes for the next push.
\<close>

theorem push_paths_agree:
  assumes "buf_inv b" and "intact b" and "pending b = unacked b" and "map unmarshal (unacked b) = map Some envs"
    and "\<not> stopped (pu w)"
  shows "\<exists>b' rest w' err.
    push clk aio unmarshal (with_store q (Some b) w) = Some (with_store q (Some b') w', err) \<and>
    push clk aio unmarshal (with_store envs None w) = Some (with_store rest None w', err) \<and>
    buf_inv b' \<and> pending b' = unacked b' \<and> map unmarshal (unacked b') = map Some rest"
proof -
  obtain rest w1 e where d: "deliver_all send_env envs w = (rest, w1, e)" by (cases "deliver_all send_env envs w")
  define f where "f = with_store q (Some b)"
  have "list_all2 (\<lambda>x env. unmarshal x = Some env) (unacked b) envs"
    using assms(4) by (simp add: list_all2_conv_all_nth) (metis length_map nth_map)
  then obtain rest1 where r1: "deliver_all (send_data unmarshal) (unacked b) (f w) = (rest1, f w1, e)"
    "list_all2 (\<lambda>x env. unmarshal x = Some env) rest1 rest"
    using deliver_all_sim [of "\<lambda>x env. unmarshal x = Some env" "send_data unmarshal" f send_env "unacked b" envs w rest w1 e] d
    by (auto simp: f_def send_env_frame send_data_def)
  from push_disk [of "f w" b "dropped_total b" "nextSegID b" unmarshal rest1 "f w1" e clk aio] r1(1) assms
  obtain b' where b': "push clk aio unmarshal (f w) = Some (with_store q (Some b') (f w1), case e of Drained \<Rightarrow> None | Stopped \<Rightarrow> ret_err (f w1))"
    "buf_inv b'" "pending b' = rest1" "unacked b' = rest1" by (auto simp: f_def)
  have "deliver_all send_env envs (with_store envs None w) = (rest, with_store envs None w1, e)"
    using deliver_frame [of Some, unfolded send_data_Some, OF d] .
  then have "push clk aio unmarshal (with_store envs None w) = Some (with_store rest None w1, case e of Drained \<Rightarrow> None | Stopped \<Rightarrow> ret_err w1)"
    using push_memory [of "with_store envs None w" rest "with_store envs None w1" e clk aio unmarshal] assms(5)
    by (simp split: drain_end.splits)
  moreover have "map unmarshal rest1 = map Some rest"
    using r1(2) by (simp add: list_all2_conv_all_nth list_eq_iff_nth_eq)
  ultimately show ?thesis
    using b' by (intro exI [of _ b'] exI [of _ rest] exI [of _ w1]) (simp add: f_def split: drain_end.splits)
qed

lemma push_paths_agree_witness:
  "\<exists>b' rest w' err.
    push (\<lambda>_. 0) (\<lambda>_. None) (\<lambda>d. Some (length d))
      \<lparr>pu = (newPusher ''http://s'')\<lparr>disk := Some sample_buffer\<rparr>, script = [], ret_err = None, ctx_err = [],
       unsent_err = [], slept = [], stored = []\<rparr> = Some (with_store [] (Some b') w', err) \<and>
    push (\<lambda>_. 0) (\<lambda>_. None) (\<lambda>d. Some (length d))
      \<lparr>pu = (newPusher ''http://s'')\<lparr>queue := [3]\<rparr>, script = [], ret_err = None, ctx_err = [],
       unsent_err = [], slept = [], stored = []\<rparr> = Some (with_store rest None w', err) \<and>
    map (\<lambda>d. Some (length d)) (unacked b') = map Some rest"
  using push_paths_agree [OF sample_buffer(1,6), of "\<lambda>d. Some (length d)" "[3]"
      "\<lparr>pu = newPusher ''http://s'', script = [], ret_err = None, ctx_err = [], unsent_err = [], slept = [], stored = []\<rparr>"
      "\<lambda>_. 0" "\<lambda>_. None" "[]"]
  by (auto simp: sample_buffer(2,3) with_store_def newPusher_def)

end
