(* ===== verification/Push_Runs.thy ===== *)
theory Push_Runs
  imports Push_Props
begin

text \<open>
  Runs of the pusher: any sequence of queued envelopes and pushes, with any failures of the file system
  and any answers of the server, and the time a push takes.
\<close>

section \<open>Steps\<close>

datatype 'e push_call = QueueCall buf_io time 'e | PushCall "attempt list"

text \<open>
  A step of the agent's loop. What a push needs of its surroundings are the arguments \<open>clk\<close> and \<open>aio\<close>;
  a push that does not return would leave \<open>None\<close>.
\<close>

fun push_step ::
  "('e \<Rightarrow> bytes option) \<Rightarrow> (bytes \<Rightarrow> 'e option) \<Rightarrow> ('e world \<Rightarrow> time) \<Rightarrow> ('e world \<Rightarrow> ioerr option) \<Rightarrow>
   'e push_call \<Rightarrow> 'e world \<Rightarrow> 'e world option" where
  "push_step marshal unmarshal clk aio (QueueCall io now env) w = Some (w\<lparr>pu := queue_env marshal io now env (pu w)\<rparr>)"
| "push_step marshal unmarshal clk aio (PushCall s) w = map_option fst (push clk aio unmarshal (w\<lparr>script := s\<rparr>))"

fun push_run ::
  "('e \<Rightarrow> bytes option) \<Rightarrow> (bytes \<Rightarrow> 'e option) \<Rightarrow> ('e world \<Rightarrow> time) \<Rightarrow> ('e world \<Rightarrow> ioerr option) \<Rightarrow>
   'e push_call list \<Rightarrow> 'e world \<Rightarrow> 'e world option" where
  "push_run marshal unmarshal clk aio [] w = Some w"
| "push_run marshal unmarshal clk aio (c # cs) w =
     Option.bind (push_step marshal unmarshal clk aio c w) (push_run marshal unmarshal clk aio cs)"

fun queued_by :: "'e push_call \<Rightarrow> 'e list" where
  "queued_by (QueueCall io now env) = [env]"
| "queued_by (PushCall s) = []"

fun call_fits :: "('e \<Rightarrow> bytes option) \<Rightarrow> 'e push_call \<Rightarrow> bool" where
  "call_fits marshal (QueueCall io now env) \<longleftrightarrow>
     (\<forall>data. marshal env = Some data \<longrightarrow> length data + 8 < 2 ^ 32 \<and> io_sane (io_append io) data)"
| "call_fits marshal (PushCall s) \<longleftrightarrow> True"

text \<open>
  What a run keeps: the envelopes queued are the ones acknowledged, the ones counted as dropped and the
  ones that wait; what the server has and what waits are in the order of the queue; and the queue in
  memory is bounded.
\<close>

definition push_inv :: "(bytes \<Rightarrow> 'e option) \<Rightarrow> nat \<Rightarrow> 'e list \<Rightarrow> 'e world \<Rightarrow> bool" where
  "push_inv unmarshal n queued w \<longleftrightarrow>
     store_ok n (pu w) \<and> length (queue (pu w)) \<le> maxPendingEnvelopes \<and>
     int (length queued) = nAcked (pu w) + droppedSamples (pu w) + int (waiting (pu w)) \<and>
     subseq (stored w @ waiting_envs unmarshal (pu w)) queued"

lemma droppedSamples_eq: "droppedSamples p = nDropped p + (case disk p of None \<Rightarrow> 0 | Some b \<Rightarrow> dropped_total b)"
  by (simp add: droppedSamples_def dropped_total_def stats_copy_def split: option.split)

lemma subseq_drop_mid: "subseq (a @ b @ c) xs \<Longrightarrow> subseq (a @ c) xs"
  by (rule subseq_order.trans [rotated]) (auto intro: list_emb_append_mono)

lemma append_aligned:
  assumes "appended d b b'" and "pending b = unacked b"
  shows "pending b' = unacked b'"
proof -
  obtain xs ys where x: "unacked b @ [d] = xs @ unacked b'" "pending b @ [d] = ys @ pending b'"
    "ys = [] \<or> pending b' = unacked b'" and inv: "buf_inv b'"
    using assms(1) unfolding appended_def by blast
  obtain out where "unacked b' = out @ pending b'" using pending_suffix [OF inv] by blast
  then have "length (unacked b') \<ge> length (pending b')" by simp
  show ?thesis
  proof (cases "ys = []")
    case True
    then have "pending b' = xs @ unacked b'" using x(1,2) assms(2) by simp
    then have "xs = []" using \<open>length (unacked b') \<ge> _\<close> by simp
    then show ?thesis using \<open>pending b' = xs @ unacked b'\<close> by simp
  qed (use x(3) in simp)
qed

lemma queue_memory:
  assumes inv: "push_inv unm n queued w" and d: "disk (pu w) = None"
  shows "push_inv unm m (queued @ [env]) (w\<lparr>pu := queue_env marshal io now env (pu w)\<rparr>)"
proof -
  let ?q = "queue (pu w)"
  have l: "length ?q \<le> 1024" "subseq (stored w @ ?q) queued"
    "int (length queued) = nAcked (pu w) + nDropped (pu w) + int (length ?q)"
    using inv d by (simp_all add: push_inv_def maxPendingEnvelopes_def waiting_def waiting_envs_def droppedSamples_eq)
  show ?thesis
  proof (cases "length ?q = 1024")
    case True
    have "subseq (stored w @ drop 1 ?q) queued" using l(2) subseq_drop_mid [of "stored w" "take 1 ?q" "drop 1 ?q"] by simp
    then have "subseq ((stored w @ drop 1 ?q) @ [env]) (queued @ [env])" by (rule list_emb_append_mono) simp
    then show ?thesis using True l d
      by (simp add: push_inv_def queue_env_def maxPendingEnvelopes_def waiting_def waiting_envs_def store_ok_def droppedSamples_eq Let_def)
  next
    case False
    have "subseq ((stored w @ ?q) @ [env]) (queued @ [env])" by (rule list_emb_append_mono [OF l(2)]) simp
    then show ?thesis using False l d
      by (simp add: push_inv_def queue_env_def maxPendingEnvelopes_def waiting_def waiting_envs_def store_ok_def droppedSamples_eq Let_def)
  qed
qed

lemma store_okD: "store_ok n p \<Longrightarrow> disk p = Some b \<Longrightarrow>
    steady (dropped_total b) (nextSegID b) b \<and> pending b = unacked b \<and> unat (nextSegID b) + 2 * n + 2 < 2 ^ 32"
  by (simp add: store_ok_def)

lemma queue_disk:
  assumes inv: "push_inv unm (Suc n) queued w" and d: "disk (pu w) = Some b"
    and fits: "call_fits marshal (QueueCall io now env)"
    and json: "\<And>data. marshal env = Some data \<Longrightarrow> unm data = Some env"
  shows "push_inv unm n (queued @ [env]) (w\<lparr>pu := queue_env marshal io now env (pu w)\<rparr>)"
proof -
  have b: "buf_inv b" "intact b" "pending b = unacked b" "unat (nextSegID b) + 2 * n + 4 < 2 ^ 32"
    using inv store_okD [OF _ d, of "Suc n"] by (simp_all add: push_inv_def)
  have l: "length (queue (pu w)) \<le> maxPendingEnvelopes" "subseq (stored w @ List.map_filter unm (unacked b)) queued"
    "int (length queued) = nAcked (pu w) + nDropped (pu w) + dropped_total b + int (length (unacked b))"
    using inv d by (simp_all add: push_inv_def waiting_def waiting_envs_def droppedSamples_eq)
  have weak: "subseq (stored w @ xs) (queued @ [env])" if "subseq (stored w @ xs) queued" for xs
    using list_emb_append_mono [OF that, of "[]" "[env]"] by simp
  note defs = push_inv_def queue_env_def waiting_def waiting_envs_def store_ok_def droppedSamples_eq
  show ?thesis
  proof (cases "marshal env")
    case None
    then show ?thesis using d b l weak by (simp add: defs)
  next
    case (Some data)
    obtain b' e where a: "buf_append io now data b = (b', e)" by (cases "buf_append io now data b")
    have ok: "if e = None then appended data b b' else kept b b'" "unat (nextSegID b') \<le> unat (nextSegID b) + 2"
      using buf_append_ok [OF b(1) _ _ _ a] fits Some b(4) by simp_all
    show ?thesis
    proof (cases e)
      case (Some x)
      then have "kept b b'" using ok(1) by simp
      then show ?thesis using Some \<open>marshal env = Some data\<close> a d b l weak ok(2) by (simp add: defs kept_def)
    next
      case None
      then have app: "appended data b b'" using ok(1) by simp
      obtain xs where x: "unacked b @ [data] = xs @ unacked b'" "intact b'" "dropped_total b' = dropped_total b + int (length xs)"
        and inv': "buf_inv b'" using app b(2) unfolding appended_def by blast
      have "List.map_filter unm (unacked b) @ [env] = List.map_filter unm xs @ List.map_filter unm (unacked b')"
        using arg_cong [OF x(1), of "List.map_filter unm"] json [OF Some] by (simp add: List.map_filter_def)
      moreover have "subseq ((stored w @ List.map_filter unm (unacked b)) @ [env]) (queued @ [env])"
        by (rule list_emb_append_mono [OF l(2)]) simp
      ultimately have "subseq (stored w @ List.map_filter unm xs @ List.map_filter unm (unacked b')) (queued @ [env])" by simp
      from subseq_drop_mid [OF this] have "subseq (stored w @ List.map_filter unm (unacked b')) (queued @ [env])" .
      moreover have "int (length (unacked b)) + 1 = int (length xs) + int (length (unacked b'))"
        using arg_cong [OF x(1), of length] by simp
      ultimately show ?thesis
        using None Some a d b l ok(2) x inv' append_aligned [OF app b(3)] by (simp add: defs)
    qed
  qed
qed

lemma deliver_keeps:
  assumes "deliver_all (send_data val) xs w = (rest, w', e)"
  shows "queue (pu w') = queue (pu w)" "disk (pu w') = disk (pu w)"
proof -
  have "deliver_all (send_data val) xs (with_store (queue (pu w)) (disk (pu w)) w) =
      (rest, with_store (queue (pu w)) (disk (pu w)) w', e)" by (rule deliver_frame [OF assms])
  then have "w' = with_store (queue (pu w)) (disk (pu w)) w'" using assms by (simp add: with_store_id)
  then show "queue (pu w') = queue (pu w)" "disk (pu w') = disk (pu w)" by (metis with_store_simps(7) pusher.select_convs pusher.surjective pusher.update_convs)+
qed

lemma push_keeps_inv:
  assumes inv: "push_inv unm n queued w"
  shows "\<exists>w' err. push clk aio unm (w\<lparr>script := s\<rparr>) = Some (w', err) \<and> push_inv unm n queued w'"
proof (cases "stopped (pu w)")
  case True
  then show ?thesis using inv by (simp add: push_def push_inv_def)
next
  case False
  let ?w = "w\<lparr>script := s\<rparr>"
  show ?thesis
  proof (cases "disk (pu w)")
    case None
    obtain rest w' e where d: "deliver_all send_env (queue (pu ?w)) ?w = (rest, w', e)"
      by (cases "deliver_all send_env (queue (pu ?w)) ?w")
    obtain gone acc where g: "queue (pu w) = gone @ rest" "subseq acc gone" "stored w' = stored w @ acc"
      "nAcked (pu w') = nAcked (pu w) + int (length acc)" "nDropped (pu w') = nDropped (pu w) + int (length gone) - int (length acc)"
      using deliver_accounts [of Some, unfolded send_data_Some, OF d] by (auto simp: accounts_def List.map_filter_def)
    have "subseq (stored w @ acc @ rest) (stored w @ gone @ rest)"
      using g(2) by (simp add: list_emb_append_mono)
    then have "subseq ((stored w @ acc) @ rest) queued"
      using inv None g(1) subseq_order.trans unfolding push_inv_def waiting_envs_def by fastforce
    then show ?thesis
      using push_memory [of ?w, OF _ _ d, of clk aio unm] None False inv g
      by (simp add: push_inv_def store_ok_def waiting_def waiting_envs_def droppedSamples_eq)
  next
    case (Some b)
    have b: "steady (dropped_total b) (nextSegID b) b" "pending b = unacked b" "unat (nextSegID b) + 2 * n + 2 < 2 ^ 32"
      using inv store_okD [OF _ Some, of n] by (simp_all add: push_inv_def)
    obtain rest w' e where d: "deliver_all (send_data unm) (unacked b) ?w = (rest, w', e)"
      by (cases "deliver_all (send_data unm) (unacked b) ?w")
    obtain gone acc where g: "unacked b = gone @ rest" "subseq acc (List.map_filter unm gone)" "stored w' = stored w @ acc"
      "nAcked (pu w') = nAcked (pu w) + int (length acc)" "nDropped (pu w') = nDropped (pu w) + int (length gone) - int (length acc)"
      using deliver_accounts [OF d] by (auto simp: accounts_def)
    obtain b' where b': "push clk aio unm ?w = Some (with_store (queue (pu w')) (Some b') w', case e of Drained \<Rightarrow> None | Stopped \<Rightarrow> ret_err w')"
      "steady (dropped_total b) (nextSegID b) b'" "pending b' = rest" "unacked b' = rest"
      using push_disk [of ?w b, OF _ _ b(1,2) d, of clk aio] Some False by auto
    have "subseq (stored w @ acc @ List.map_filter unm rest) (stored w @ List.map_filter unm gone @ List.map_filter unm rest)"
      using g(2) by (simp add: list_emb_append_mono)
    moreover have "List.map_filter unm (unacked b) = List.map_filter unm gone @ List.map_filter unm rest"
      using g(1) by (simp add: List.map_filter_def)
    ultimately have "subseq ((stored w @ acc) @ List.map_filter unm rest) queued"
      using inv Some subseq_order.trans unfolding push_inv_def waiting_envs_def by fastforce
    then show ?thesis
      using b' b Some inv g deliver_keeps(1) [OF d]
      by (simp add: push_inv_def store_ok_def waiting_def waiting_envs_def droppedSamples_eq)
  qed
qed

lemma push_step_inv:
  assumes inv: "push_inv unm (Suc n) queued w" and fits: "call_fits marshal c"
    and json: "\<And>env data. marshal env = Some data \<Longrightarrow> unm data = Some env"
  shows "\<exists>w'. push_step marshal unm clk aio c w = Some w' \<and> push_inv unm n (queued @ queued_by c) w'"
proof (cases c)
  case (QueueCall io now env)
  then show ?thesis
    using queue_memory [OF inv] queue_disk [OF inv _ _ json] fits by (cases "disk (pu w)") auto
next
  case (PushCall s)
  have less: "push_inv unm n queued x" if "push_inv unm (Suc n) queued x" for x
    using that by (auto simp: push_inv_def store_ok_def split: option.splits)
  show ?thesis using PushCall push_keeps_inv [OF inv, of clk aio s] less by fastforce
qed



section \<open>The time of a push\<close>

lemma parseRetryAfter_bounds: "0 \<le> parseRetryAfter v t now \<and> parseRetryAfter v t now \<le> 60 * second"
  by (auto simp: parseRetryAfter_def maxRetryAfter_def quot_trunc_def Let_def go_units split: option.split)

lemma backoff_half_bounds:
  assumes "0 < n"
  shows "second \<le> backoff_half n" "backoff_half n \<le> 30 * second"
proof -
  have "(2 :: int) \<le> 2 ^ n" using assms by (cases n) simp_all
  then show "second \<le> backoff_half n" "backoff_half n \<le> 30 * second" by (auto simp: backoff_half_def min_def go_units)
qed

lemma retry_delay_bounds:
  assumes "0 < n" and "0 \<le> a_rnd a" and "a_rnd a \<le> backoff_half n" and "wait \<le> 60 * second"
  shows "second \<le> retry_delay wait a n" "retry_delay wait a n \<le> 60 * second"
  using backoff_half_bounds [OF assms(1)] assms by (auto simp: retry_delay_def backoffDelay_def Let_def)

lemma try_once_again:
  assumes "try_once a k p = (p', Again d k')"
  shows "0 \<le> d \<and> d \<le> 60 * second" "k' = k + (if stalled a then 1 else 0)"
    "stalled a \<Longrightarrow> attemptTimeoutAfter p k < maxAttemptTimeout p"
  using assms parseRetryAfter_bounds
  by (auto simp: try_once_def handle_status_def stalled_def resp_wait_def Let_def go_units
      split: request_result.splits if_splits)

lemma try_once_refused:
  assumes "try_once a k p = (p', Ends PushRetryLater err)"
  shows "refused a"
  using assms by (auto simp: try_once_def handle_status_def refused_def Let_def split: request_result.splits if_splits)

lemma push_loop_delays:
  assumes "push_loop env n wait st as w = (w', oc)" and "wait \<le> 60 * second"
    and "\<forall>i < length as. 0 \<le> a_rnd (as ! i) \<and> a_rnd (as ! i) \<le> backoff_half (n + i)"
  shows "\<exists>ds. slept w' = slept w @ ds \<and> (\<forall>d \<in> set ds. second \<le> d \<and> d \<le> 60 * second)"
  using assms
proof (induction as arbitrary: n wait st w)
  case Nil
  then show ?case by auto
next
  case (Cons a as)
  obtain p e where pe: "try_once a st (pu w) = (p, e)" by (cases "try_once a st (pu w)")
  have r: "0 \<le> a_rnd a" "a_rnd a \<le> backoff_half n" using Cons.prems(3) by auto
  define ds where "ds = (if 0 < n then [retry_delay wait a n] else [])"
  have ds: "\<forall>d \<in> set ds. second \<le> d \<and> d \<le> 60 * second"
    using retry_delay_bounds [OF _ r Cons.prems(2)] by (simp add: ds_def)
  show ?case
  proof (cases e)
    case (Ends oc' err)
    then have "slept w' = slept w @ ds" using Cons.prems(1) push_loop_step [OF pe] by (auto simp: ds_def)
    then show ?thesis using ds by blast
  next
    case (Again d k)
    have run: "push_loop env (n + 1) d k as ((log_attempt env n wait a w)\<lparr>pu := p\<rparr>) = (w', oc)"
      using Cons.prems(1) push_loop_step [OF pe] Again by simp
    have "\<forall>i < length as. 0 \<le> a_rnd (as ! i) \<and> a_rnd (as ! i) \<le> backoff_half (n + 1 + i)" using Cons.prems(3) by force
    with Cons.IH [OF run] try_once_again(1) [OF pe [unfolded Again]]
    obtain ds' where "slept w' = (slept w @ ds) @ ds'" "\<forall>d \<in> set ds'. second \<le> d \<and> d \<le> 60 * second"
      by (auto simp: ds_def)
    then show ?thesis using ds by (intro exI [of _ "ds @ ds'"]) auto
  qed
qed

text \<open>
  C25. No wait between two attempts is shorter than a second or longer than a minute, whatever the number
  of the attempt and whatever the server asks for in \<^verbatim>\<open>Retry-After\<close>. The hypothesis is what
  \<^verbatim>\<open>rand.Int63n\<close> promises of the random numbers.
\<close>

theorem retry_waits_bounded:
  assumes "\<forall>i < length (script w). 0 \<le> a_rnd (script w ! i) \<and> a_rnd (script w ! i) \<le> backoff_half i"
    and "pushOne env w = (w', oc)"
  shows "\<exists>ds. slept w' = slept w @ ds \<and> (\<forall>d \<in> set ds. second \<le> d \<and> d \<le> 60 * second)"
  using push_loop_delays [OF assms(2) [unfolded pushOne_def]] assms(1) by (simp add: go_units)

definition sample_world :: "attempt list \<Rightarrow> nat world" where
  "sample_world s = \<lparr>pu = newPusher ''http://s'', script = s, ret_err = None, ctx_err = [], unsent_err = [], slept = [], stored = []\<rparr>"

definition busy :: attempt where
  "busy = \<lparr>a_now = 5, a_rnd = 0, a_result = Answered \<lparr>r_status = 503, r_date = None, r_retry = ''30'', r_retry_date = None, r_body = []\<rparr>\<rparr>"

lemma retry_waits_bounded_witness:
  "\<exists>ds. slept (fst (pushOne 7 (sample_world [busy, busy]))) = ds \<and> (\<forall>d \<in> set ds. second \<le> d \<and> d \<le> 60 * second)"
  using retry_waits_bounded [of "sample_world [busy, busy]" 7, OF _ prod.collapse [symmetric]]
  by (auto simp: sample_world_def busy_def less_Suc_eq backoff_half_def go_units)

lemma push_loop_stalls:
  assumes "push_loop env n wait k as w = (w', oc)" and "k + length (filter stalled as) \<ge> 5" and "k < 5"
    and "attemptTimeout (pu w) = pushAttemptTimeout" and "maxAttemptTimeout (pu w) = maxPushAttemptTimeout"
    and "\<forall>a \<in> set as. \<not> refused a"
  shows "oc = PushConsumed"
  using assms
proof (induction as arbitrary: n wait k w)
  case (Cons a as)
  obtain p e where pe: "try_once a k (pu w) = (p, e)" by (cases "try_once a k (pu w)")
  show ?case
  proof (cases e)
    case (Ends oc' err)
    then have "oc' \<noteq> PushRetryLater" using try_once_refused [of a k "pu w" p err] pe Cons.prems(6) by auto
    then show ?thesis using Cons.prems(1) push_loop_step [OF pe] Ends by (cases oc') auto
  next
    case (Again d k')
    note ag = try_once_again [OF pe [unfolded Again]]
    have "attemptTimeoutAfter (pu w) 4 = maxPushAttemptTimeout"
      using Cons.prems(4,5)
      by (simp add: attemptTimeoutAfter_def pushAttemptTimeout_def maxPushAttemptTimeout_def eval_nat_numeral go_units
          max_duration_def min_duration_def)
    then have "k \<noteq> 4 \<or> \<not> stalled a" using ag(3) Cons.prems(5) by auto
    then have k': "k' < 5" "5 \<le> k' + length (filter stalled as)" using ag(2) Cons.prems(2,3) by auto
    have "push_loop env (n + 1) d k' as ((log_attempt env n wait a w)\<lparr>pu := p\<rparr>) = (w', oc)"
      using Cons.prems(1) push_loop_step [OF pe] Again by simp
    then show ?thesis
      using Cons.IH k' Cons.prems(4-6) try_once_counts [OF pe] by (simp add: counted_as_def)
  qed
qed simp

text \<open>
  C24. One envelope cannot hold the queue forever. With the standard timeouts, of five attempts that the
  server receives in full and does not answer in time the last one ends the push of the envelope: it
  is acknowledged or dropped and counted, and the queue moves on, unless the server refuses it in a way
  that a later push may resolve.
\<close>

theorem stalled_envelope_leaves:
  assumes "5 \<le> length (filter stalled (script w))" and "\<forall>a \<in> set (script w). \<not> refused a"
    and "attemptTimeout (pu w) = pushAttemptTimeout" and "maxAttemptTimeout (pu w) = maxPushAttemptTimeout"
  shows "\<exists>w'. pushOne env w = (w', PushConsumed) \<and>
    nAcked (pu w') + nDropped (pu w') = nAcked (pu w) + nDropped (pu w) + 1"
proof -
  obtain w' oc where r: "push_loop env 0 0 0 (script w) w = (w', oc)" by (cases "push_loop env 0 0 0 (script w) w")
  have "oc = PushConsumed" using push_loop_stalls [OF r] assms by simp
  then show ?thesis using push_loop_counts [OF r] r by (auto simp: pushOne_def counted_as_def)
qed

definition silent :: attempt where
  "silent = \<lparr>a_now = 5, a_rnd = 0, a_result = NetErr True True ''timeout''\<rparr>"

lemma stalled_envelope_leaves_witness:
  "\<exists>w'. pushOne 7 (sample_world (replicate 5 silent)) = (w', PushConsumed) \<and> nAcked (pu w') + nDropped (pu w') = 1"
  using stalled_envelope_leaves [of "sample_world (replicate 5 silent)" 7]
  by (auto simp: sample_world_def silent_def stalled_def refused_def newPusher_def)

text \<open>
  C23. What one push does with its envelope. A consumed envelope is counted once: as acknowledged exactly
  when the server has answered 202 for it, and as dropped otherwise. An envelope to be retried is not
  counted, and that outcome has one of two causes: the context was cancelled, whose error is returned,
  or the server refused it with 401, 404 or 405.
\<close>

theorem push_outcome_counted:
  assumes "pushOne env w = (w', oc)"
  shows "case oc of
      PushConsumed \<Rightarrow>
        (stored w' = stored w @ [env] \<and> nAcked (pu w') = nAcked (pu w) + 1 \<and> nDropped (pu w') = nDropped (pu w)) \<or>
        (stored w' = stored w \<and> nAcked (pu w') = nAcked (pu w) \<and> nDropped (pu w') = nDropped (pu w) + 1)
    | PushRetryLater \<Rightarrow>
        stored w' = stored w \<and> nAcked (pu w') = nAcked (pu w) \<and> nDropped (pu w') = nDropped (pu w) \<and>
        (ret_err w' = Some (ctx_err w) \<and> script w' = [] \<or> (\<exists>a \<in> set (script w). refused a))"
proof -
  note run = assms [unfolded pushOne_def]
  have "ret_err w' = Some (ctx_err w) \<and> script w' = [] \<or> (\<exists>a \<in> set as. refused a)"
    if "push_loop env n wait k as w = (w', PushRetryLater)" for n wait k as w
    using that
  proof (induction as arbitrary: n wait k w)
    case (Cons a as)
    obtain p e where pe: "try_once a k (pu w) = (p, e)" by (cases "try_once a k (pu w)")
    show ?case
    proof (cases e)
      case (Ends oc' err)
      then show ?thesis using Cons.prems push_loop_step [OF pe] try_once_refused [of a k "pu w" p err] pe by auto
    next
      case (Again d k')
      then show ?thesis using Cons.IH [of "n + 1" d k' "(log_attempt env n wait a w)\<lparr>pu := p\<rparr>"] Cons.prems push_loop_step [OF pe] by auto
    qed
  qed auto
  then show ?thesis using push_loop_counts [OF run] run by (cases oc) (auto simp: counted_as_def split: if_splits)
qed

lemma push_outcome_counted_witness:
  "\<exists>w'. pushOne 7 (sample_world []) = (w', PushRetryLater) \<and> stored w' = [] \<and> ret_err w' = Some []"
  using push_outcome_counted [of 7 "sample_world []", OF prod.collapse [symmetric]]
  by (simp add: sample_world_def pushOne_def)

end
