(* ===== verification/Alert_Rules.thy ===== *)
theory Alert_Rules
  imports Go_Text
begin

text \<open>
  Rules, samples, alerts and silences (\<^verbatim>\<open>internal/alert/types.go\<close>, \<^verbatim>\<open>key.go\<close>, \<^verbatim>\<open>silence.go\<close>,
  \<^verbatim>\<open>builtin.go\<close>). The string types of the code have their named values as constructors and any other
  text as one more. An instance identifier is the text of its uuid.
\<close>

section \<open>Types\<close>

datatype severity = SeverityCritical | SeverityWarning | SeverityInfo | OtherSeverity string

datatype scope = ScopeInstance | ScopeCluster | ScopeDatabase | OtherScope string

datatype alert_state = StatePending | StateFiring | StateResolved | OtherState string

datatype comparator = GT | GE | LT | LE | EQ | NE | OtherComparator string

record rule =
  rl_id :: string
  rl_tier :: int
  rl_enabled :: bool
  rl_severity :: severity
  rl_scope :: scope
  rl_metric :: string
  rl_comparator :: comparator
  rl_threshold :: f64
  rl_for :: duration
  rl_event :: string
  rl_summary :: string

record alert_sample =
  sm_cluster :: "int option"
  sm_instance :: "string option"
  sm_datname :: string
  sm_labels :: labels
  sm_value :: f64
  sm_ts :: time
  sm_inapplicable :: bool

record alert =
  al_key :: string
  al_rule :: string
  al_severity :: severity
  al_state :: alert_state
  al_cluster :: "int option"
  al_instance :: "string option"
  al_datname :: string
  al_labels :: labels
  al_value :: f64
  al_summary :: string
  al_started :: time
  al_lastEval :: time
  al_resolved :: "time option"
  al_suppressed :: bool

text \<open>\<^verbatim>\<open>Rule.Validate\<close>; an error is a value.\<close>

datatype rule_err = NoId | UnknownSeverity | UnknownScope | NoInput | TwoInputs | UnknownComparator | NegativeFor

definition rule_validate :: "rule \<Rightarrow> rule_err option" where
  "rule_validate r =
     (if rl_id r = [] then Some NoId
      else if rl_severity r \<notin> {SeverityCritical, SeverityWarning, SeverityInfo} then Some UnknownSeverity
      else if rl_scope r \<notin> {ScopeInstance, ScopeCluster, ScopeDatabase} then Some UnknownScope
      else if rl_metric r = [] \<and> rl_event r = [] then Some NoInput
      else if rl_metric r \<noteq> [] \<and> rl_event r \<noteq> [] then Some TwoInputs
      else if rl_metric r \<noteq> [] \<and> rl_comparator r \<notin> {GT, GE, LT, LE, EQ, NE} then Some UnknownComparator
      else if rl_for r < 0 then Some NegativeFor
      else None)"

definition metric_rule :: "string \<Rightarrow> severity \<Rightarrow> string \<Rightarrow> comparator \<Rightarrow> f64 \<Rightarrow> duration \<Rightarrow> string \<Rightarrow> rule" where
  "metric_rule i sev mt c t f s =
     \<lparr>rl_id = i, rl_tier = 0, rl_enabled = True, rl_severity = sev, rl_scope = ScopeInstance, rl_metric = mt,
      rl_comparator = c, rl_threshold = t, rl_for = f, rl_event = [], rl_summary = s\<rparr>"

definition event_rule :: "string \<Rightarrow> severity \<Rightarrow> scope \<Rightarrow> string \<Rightarrow> rule" where
  "event_rule i sev sc s =
     \<lparr>rl_id = i, rl_tier = 0, rl_enabled = True, rl_severity = sev, rl_scope = sc, rl_metric = [],
      rl_comparator = OtherComparator [], rl_threshold = Fin 0, rl_for = 0, rl_event = i, rl_summary = s\<rparr>"

definition builtin :: "rule list" where
  "builtin =
     [metric_rule ''agent_down'' SeverityCritical ''up'' LT (Fin 1) (90 * second) ''No payload received from the agent'',
      event_rule ''instance_unreachable'' SeverityCritical ScopeInstance
        ''The server has received no report from the instance agent within the staleness window; agent_down is raised with it'',
      metric_rule ''check_failing'' SeverityWarning ''pglens_check_error_rate'' GT (Fin 0) (5 * minute)
        ''A check has been failing for over five minutes'',
      event_rule ''no_primary_in_cluster'' SeverityCritical ScopeCluster ''No instance in the cluster reports the primary role'',
      metric_rule ''agent_buffer_full'' SeverityWarning ''pglens_samples_dropped_rate'' GT (Fin 0) minute
        ''The agent is dropping samples'',
      metric_rule ''clock_skew'' SeverityWarning ''pglens_agent_clock_skew_seconds'' GT (Fin 30) minute
        ''Agent clock skew above 30 seconds'',
      metric_rule ''cardinality_budget_exceeded'' SeverityWarning ''pglens_cardinality_truncated_rate'' GT (Fin 0) (5 * minute)
        ''Series are being truncated by the cardinality budget'',
      event_rule ''failover_detected'' SeverityCritical ScopeCluster ''A failover was observed'',
      event_rule ''split_brain_detected'' SeverityCritical ScopeCluster ''More than one primary in the cluster'',
      event_rule ''slot_inactive'' SeverityWarning ScopeInstance ''A replication slot has been inactive and is retaining WAL'',
      event_rule ''slot_lost'' SeverityCritical ScopeInstance
        ''A replication slot has lost WAL its consumer still needed; a physical standby must be rebuilt, a logical slot recreated and its subscriber resynchronised'']"

section \<open>Keys\<close>

text \<open>
  The argument of \<^verbatim>\<open>uuidText\<close> is an interface that holds a pointer, so it is never the nil interface: a
  sample without an instance prints as \<^verbatim>\<open><nil>\<close>.
\<close>

definition uuidText :: "string option \<Rightarrow> string" where
  "uuidText v = (case v of None \<Rightarrow> ''<nil>'' | Some s \<Rightarrow> s)"

definition alert_key :: "rule \<Rightarrow> alert_sample \<Rightarrow> string" where
  "alert_key r s =
     rl_id r @ ''/'' @
     (case rl_scope r of
        ScopeCluster \<Rightarrow> (case sm_cluster s of None \<Rightarrow> [] | Some c \<Rightarrow> format_int c)
      | ScopeDatabase \<Rightarrow> uuidText (sm_instance s) @ '':'' @ sm_datname s
      | _ \<Rightarrow> uuidText (sm_instance s) @ (if sm_datname s \<noteq> [] then '':'' @ sm_datname s else [])) @
     ''/'' @ canonicalLabels (sm_labels s)"

text \<open>\<^verbatim>\<open>Time.Truncate\<close> counts from the zero time, so a microsecond is cut off at a multiple of it.\<close>

definition trunc_us :: "time \<Rightarrow> time" where
  "trunc_us t = t - t mod microsecond"

text \<open>\<open>fmt\<close> is \<^verbatim>\<open>Time.Format\<close> with the layout of the code.\<close>

definition dedupID :: "(time \<Rightarrow> string) \<Rightarrow> alert \<Rightarrow> string" where
  "dedupID fmt a = al_key a @ ''/'' @ fmt (trunc_us (al_started a))"

section \<open>Silences\<close>

record matcher =
  mt_name :: string
  mt_value :: string
  mt_regex :: bool
  mt_negate :: bool

record silence =
  si_matchers :: "matcher list"
  si_reason :: string
  si_starts :: time
  si_ends :: time

text \<open>\<open>compile\<close> is \<^verbatim>\<open>regexp.Compile\<close>: the texts an expression matches, or \<open>None\<close> when it is not one.\<close>

type_synonym regexp = "string \<Rightarrow> (string \<Rightarrow> bool) option"

definition anchored :: "regexp \<Rightarrow> string \<Rightarrow> (string \<Rightarrow> bool) option" where
  "anchored compile v = (case compile v of None \<Rightarrow> None | Some _ \<Rightarrow> compile (''^(?:'' @ v @ '')$''))"

datatype silence_err = NoMatchers | EndsBeforeStart | EmptyName | BadRegex

definition matcher_err :: "regexp \<Rightarrow> matcher \<Rightarrow> silence_err option" where
  "matcher_err compile m =
     (if mt_name m = [] then Some EmptyName
      else if mt_regex m \<and> anchored compile (mt_value m) = None then Some BadRegex
      else None)"

definition silence_validate :: "regexp \<Rightarrow> silence \<Rightarrow> silence_err option" where
  "silence_validate compile s =
     (if si_matchers s = [] then Some NoMatchers
      else if si_ends s < si_starts s then Some EndsBeforeStart
      else case List.find (\<lambda>m. matcher_err compile m \<noteq> None) (si_matchers s) of
             None \<Rightarrow> None
           | Some m \<Rightarrow> matcher_err compile m)"

definition silence_active :: "time \<Rightarrow> silence \<Rightarrow> bool" where
  "silence_active now s \<longleftrightarrow> \<not> now < si_starts s \<and> now < si_ends s"

fun severity_text :: "severity \<Rightarrow> string" where
  "severity_text SeverityCritical = ''critical''"
| "severity_text SeverityWarning = ''warning''"
| "severity_text SeverityInfo = ''info''"
| "severity_text (OtherSeverity s) = s"

definition reserved :: "string \<Rightarrow> alert \<Rightarrow> string" where
  "reserved k a =
     (if k = ''rule_id'' then al_rule a
      else if k = ''severity'' then severity_text (al_severity a)
      else if k = ''cluster_id'' then (case al_cluster a of None \<Rightarrow> [] | Some c \<Rightarrow> format_int c)
      else if k = ''instance_id'' then (case al_instance a of None \<Rightarrow> [] | Some i \<Rightarrow> i)
      else if k = ''datname'' then al_datname a
      else [])"

definition matcher_holds :: "regexp \<Rightarrow> alert \<Rightarrow> matcher \<Rightarrow> bool" where
  "matcher_holds compile a m =
     (let v0 = reserved (mt_name m) a;
          v = (if v0 = [] then get_or [] (al_labels a) (mt_name m) else v0);
          ok = (if mt_regex m then (case anchored compile (mt_value m) of None \<Rightarrow> False | Some re \<Rightarrow> re v)
                else v = mt_value m)
      in if mt_negate m then \<not> ok else ok)"

definition silence_matches :: "regexp \<Rightarrow> alert \<Rightarrow> silence \<Rightarrow> bool" where
  "silence_matches compile a s \<longleftrightarrow> si_matchers s \<noteq> [] \<and> list_all (matcher_holds compile a) (si_matchers s)"

definition firstMatch :: "regexp \<Rightarrow> silence list \<Rightarrow> alert \<Rightarrow> time \<Rightarrow> silence option" where
  "firstMatch compile ss a now = List.find (\<lambda>s. silence_active now s \<and> silence_matches compile a s) ss"

section \<open>Properties\<close>

text \<open>
  Every builtin rule is valid, no two share an identifier, and all are enabled.
\<close>

theorem builtin_valid:
  "list_all (\<lambda>r. rule_validate r = None \<and> rl_enabled r) builtin \<and> distinct (map rl_id builtin)"
  by (simp add: builtin_def metric_rule_def event_rule_def rule_validate_def go_units)

lemma builtin_ids_distinct: "distinct (map rl_id builtin)"
  by (simp add: builtin_def metric_rule_def event_rule_def)

lemma trunc_us_idem [simp]: "trunc_us (trunc_us t) = trunc_us t"
  by (simp add: trunc_us_def mod_diff_left_eq [symmetric])

end
