(* ===== verification/Evaluator.thy ===== *)
theory Evaluator
  imports Alert_Rules
begin

text \<open>
  The alert state machine (\<^verbatim>\<open>internal/alert/eval.go\<close>): one episode per key, opened by a sample that meets the
  rule's condition, firing once the condition has held for the rule's time, and closed by a sample that
  does not meet it. The mutex makes each operation atomic.
\<close>

section \<open>State and operations\<close>

definition compare_f64 :: "f64 \<Rightarrow> comparator \<Rightarrow> f64 \<Rightarrow> bool" where
  "compare_f64 v c t =
     (case c of
        GT \<Rightarrow> f_lt t v | GE \<Rightarrow> f_le t v | LT \<Rightarrow> f_lt v t | LE \<Rightarrow> f_le v t
      | EQ \<Rightarrow> f_eq v t | NE \<Rightarrow> \<not> f_eq v t | OtherComparator _ \<Rightarrow> False)"

datatype transition = TransitionNone | TransitionOpened | TransitionFired | TransitionResolved | TransitionCancelled

record evalState =
  first :: time
  seen :: time
  firing :: bool
  ev_alert :: alert

type_synonym evaluator = "(string, evalState) gomap"

definition newEvaluator :: evaluator where "newEvaluator = []"

definition restore_alert :: "alert \<Rightarrow> time \<Rightarrow> evaluator \<Rightarrow> evaluator" where
  "restore_alert a now e =
     (if al_state a \<noteq> StatePending \<and> al_state a \<noteq> StateFiring then e
      else AList.update (al_key a)
             \<lparr>first = al_started a, seen = now, firing = (al_state a = StateFiring), ev_alert = a\<rparr> e)"

definition reset_eval :: "evaluator \<Rightarrow> evaluator" where "reset_eval e = []"

definition end_episode :: "string \<Rightarrow> time \<Rightarrow> evaluator \<Rightarrow> evaluator \<times> alert option \<times> transition" where
  "end_episode key now e =
     (case map_of e key of
        None \<Rightarrow> (e, None, TransitionNone)
      | Some st \<Rightarrow>
          (AList.delete key e,
           if firing st then
             (Some ((ev_alert st)\<lparr>al_state := StateResolved, al_lastEval := now, al_resolved := Some now\<rparr>), TransitionResolved)
           else (None, TransitionCancelled)))"

definition new_alert :: "rule \<Rightarrow> alert_sample \<Rightarrow> time \<Rightarrow> time \<Rightarrow> alert" where
  "new_alert r s start now =
     \<lparr>al_key = alert_key r s, al_rule = rl_id r, al_severity = rl_severity r, al_state = StatePending,
      al_cluster = sm_cluster s, al_instance = sm_instance s, al_datname = sm_datname s, al_labels = sm_labels s,
      al_value = sm_value s, al_summary = rl_summary r, al_started = start, al_lastEval = now, al_resolved = None,
      al_suppressed = False\<rparr>"

definition cond_true :: "rule \<Rightarrow> alert_sample \<Rightarrow> bool" where
  "cond_true r s \<longleftrightarrow>
     \<not> sm_inapplicable s \<and> (rl_event r \<noteq> [] \<or> compare_f64 (sm_value s) (rl_comparator r) (rl_threshold r))"

definition fire :: "evalState \<Rightarrow> evalState" where
  "fire st = st\<lparr>firing := True, ev_alert := (ev_alert st)\<lparr>al_state := StateFiring\<rparr>\<rparr>"

definition open_state :: "rule \<Rightarrow> alert_sample \<Rightarrow> time \<Rightarrow> evalState" where
  "open_state r s now =
     (let start = (if is_zero (sm_ts s) then now else sm_ts s)
      in \<lparr>first = start, seen = now, firing = False, ev_alert = new_alert r s start now\<rparr>)"

definition hold_state :: "alert_sample \<Rightarrow> time \<Rightarrow> evalState \<Rightarrow> evalState" where
  "hold_state s now st = st\<lparr>seen := now, ev_alert := (ev_alert st)\<lparr>al_lastEval := now, al_value := sm_value s\<rparr>\<rparr>"

definition eval_step :: "rule \<Rightarrow> alert_sample \<Rightarrow> time \<Rightarrow> evaluator \<Rightarrow> evaluator \<times> alert option \<times> transition" where
  "eval_step r s now e =
     (let k = alert_key r s;
          put = (\<lambda>st t. (AList.update k st e, Some (ev_alert st), t)) in
      if \<not> cond_true r s then end_episode k now e
      else case map_of e k of
        None \<Rightarrow>
          if rl_for r = 0 then put (fire (open_state r s now)) TransitionFired
          else put (open_state r s now) TransitionOpened
      | Some st \<Rightarrow>
          if \<not> firing st \<and> rl_for r \<le> time_sub now (first st) then put (fire (hold_state s now st)) TransitionFired
          else put (hold_state s now st) TransitionNone)"

text \<open>\<^verbatim>\<open>Checkpoint\<close> keeps the episode of a key; running what it returns puts it back.\<close>

definition checkpoint :: "string \<Rightarrow> evaluator \<Rightarrow> evalState option" where
  "checkpoint key e = map_of e key"

definition undo_to :: "string \<Rightarrow> evalState option \<Rightarrow> evaluator \<Rightarrow> evaluator" where
  "undo_to key prev e = (case prev of Some st \<Rightarrow> AList.update key st e | None \<Rightarrow> AList.delete key e)"

definition firing_alerts :: "evaluator \<Rightarrow> alert list" where
  "firing_alerts e = map (ev_alert \<circ> snd) (filter (firing \<circ> snd) e)"

definition unsampled :: "(string \<Rightarrow> bool) \<Rightarrow> time \<Rightarrow> evaluator \<Rightarrow> alert list" where
  "unsampled include cutoff e =
     sort_slice (\<lambda>a b. al_key a < al_key b)
       (map (ev_alert \<circ> snd) (filter (\<lambda>(k, st). include (al_rule (ev_alert st)) \<and> seen st < cutoff) e))"

definition forget_pending :: "time \<Rightarrow> evaluator \<Rightarrow> evaluator \<times> nat" where
  "forget_pending before e =
     (let gone = filter (\<lambda>(k, st). \<not> firing st \<and> seen st < before) e
      in (filter (\<lambda>(k, st). firing st \<or> \<not> seen st < before) e, length gone))"

section \<open>The episodes of one key\<close>

text \<open>An abstract episode and its steps.\<close>

datatype phase = Absent | Pending | Firing

definition phase_of :: "string \<Rightarrow> evaluator \<Rightarrow> phase" where
  "phase_of k e = (case map_of e k of None \<Rightarrow> Absent | Some st \<Rightarrow> if firing st then Firing else Pending)"

inductive episode :: "phase \<Rightarrow> transition \<Rightarrow> phase \<Rightarrow> bool" where
  idle: "episode p TransitionNone p"
| opens: "episode Absent TransitionOpened Pending"
| fires_at_once: "episode Absent TransitionFired Firing"
| fires: "episode Pending TransitionFired Firing"
| resolves: "episode Firing TransitionResolved Absent"
| cancels: "episode Pending TransitionCancelled Absent"

inductive_cases episode_firedE: "episode p TransitionFired q"
inductive_cases episode_resolvedE: "episode p TransitionResolved q"

text \<open>What the stored episodes satisfy: they are under their alert's key and agree with its state.\<close>

definition state_ok :: "string \<Rightarrow> evalState \<Rightarrow> bool" where
  "state_ok k st \<longleftrightarrow> al_key (ev_alert st) = k \<and> al_started (ev_alert st) = first st \<and>
     al_state (ev_alert st) = (if firing st then StateFiring else StatePending)"

definition eval_ok :: "evaluator \<Rightarrow> bool" where
  "eval_ok e \<longleftrightarrow> wf_map e \<and> (\<forall>k st. map_of e k = Some st \<longrightarrow> state_ok k st)"

lemma eval_okD: "eval_ok e \<Longrightarrow> map_of e k = Some st \<Longrightarrow> state_ok k st"
  by (simp add: eval_ok_def)

lemma eval_ok_update [intro]: "eval_ok e \<Longrightarrow> state_ok k st \<Longrightarrow> eval_ok (AList.update k st e)"
  by (auto simp: eval_ok_def gomap)

lemma eval_ok_delete [intro]: "eval_ok e \<Longrightarrow> eval_ok (AList.delete k e)"
  by (auto simp: eval_ok_def gomap)

lemma eval_ok_filter:
  assumes "eval_ok e"
  shows "eval_ok (filter P e)"
proof -
  have wf: "wf_map (filter P e)" using assms by (simp add: eval_ok_def wf_map_filter)
  have "state_ok k st" if "map_of (filter P e) k = Some st" for k st
    using that assms in_set_map_of [OF wf, of k st] in_set_map_of [of e k st] by (auto simp: eval_ok_def)
  with wf show ?thesis by (simp add: eval_ok_def)
qed

lemma state_ok_fire: "state_ok k st \<Longrightarrow> state_ok k (fire st)"
  by (simp add: state_ok_def fire_def)

lemma state_ok_open: "state_ok (alert_key r s) (open_state r s now)"
  by (simp add: state_ok_def open_state_def new_alert_def Let_def)

lemma state_ok_hold: "state_ok k st \<Longrightarrow> state_ok k (hold_state s now st)"
  by (simp add: state_ok_def hold_state_def)

lemma fire_simps [simp]: "firing (fire st)" "first (fire st) = first st" "seen (fire st) = seen st"
  by (simp_all add: fire_def)

lemma hold_simps [simp]: "firing (hold_state s now st) = firing st" "first (hold_state s now st) = first st" "seen (hold_state s now st) = now"
  by (simp_all add: hold_state_def)

lemma open_simps [simp]: "\<not> firing (open_state r s now)" "seen (open_state r s now) = now"
  "first (open_state r s now) = (if is_zero (sm_ts s) then now else sm_ts s)"
  by (simp_all add: open_state_def Let_def)

definition closed_alert :: "time \<Rightarrow> evalState \<Rightarrow> alert" where
  "closed_alert now st = (ev_alert st)\<lparr>al_state := StateResolved, al_lastEval := now, al_resolved := Some now\<rparr>"

lemma end_episode_eq:
  "end_episode k now e =
     (case map_of e k of
        None \<Rightarrow> (e, None, TransitionNone)
      | Some st \<Rightarrow> if firing st then (AList.delete k e, Some (closed_alert now st), TransitionResolved)
                   else (AList.delete k e, None, TransitionCancelled))"
  by (simp add: end_episode_def closed_alert_def split: option.split)

text \<open>How an operation changes the episode of \<open>k\<close>, and nothing else.\<close>

definition moves :: "string \<Rightarrow> evaluator \<Rightarrow> transition \<Rightarrow> evaluator \<Rightarrow> bool" where
  "moves k e t e' \<longleftrightarrow> eval_ok e' \<and> episode (phase_of k e) t (phase_of k e') \<and> (\<forall>j. j \<noteq> k \<longrightarrow> map_of e' j = map_of e j)"

lemma end_episode_moves:
  assumes "eval_ok e" and "end_episode k now e = (e', a, t)"
  shows "moves k e t e'" "t = TransitionResolved \<longleftrightarrow> phase_of k e = Firing" "t \<noteq> TransitionFired" "phase_of k e' = Absent"
proof -
  have "moves k e t e' \<and> (t = TransitionResolved \<longleftrightarrow> phase_of k e = Firing) \<and> t \<noteq> TransitionFired \<and> phase_of k e' = Absent"
  proof (cases "map_of e k")
    case None
    then show ?thesis using assms by (auto simp: end_episode_eq moves_def phase_of_def intro: episode.intros)
  next
    case (Some st)
    then show ?thesis using assms
      by (cases "firing st") (auto simp: end_episode_eq moves_def phase_of_def gomap intro: episode.intros)
  qed
  then show "moves k e t e'" "t = TransitionResolved \<longleftrightarrow> phase_of k e = Firing" "t \<noteq> TransitionFired" "phase_of k e' = Absent"
    by simp_all
qed

lemma put_moves:
  assumes "eval_ok e" and "state_ok k st" and "episode (phase_of k e) t (if firing st then Firing else Pending)"
  shows "moves k e t (AList.update k st e)"
  using assms by (auto simp: moves_def phase_of_def gomap)

lemma eval_step_moves:
  assumes ok: "eval_ok e" and step: "eval_step r s now e = (e', a, t)"
  shows "moves (alert_key r s) e t e'"
    "t = TransitionFired \<longleftrightarrow> cond_true r s \<and>
       (case map_of e (alert_key r s) of
          None \<Rightarrow> rl_for r = 0
        | Some st \<Rightarrow> \<not> firing st \<and> rl_for r \<le> time_sub now (first st))"
    "t = TransitionResolved \<longleftrightarrow> \<not> cond_true r s \<and> phase_of (alert_key r s) e = Firing"
proof -
  let ?k = "alert_key r s"
  have "moves ?k e t e' \<and> (t = TransitionFired \<longleftrightarrow> cond_true r s \<and>
       (case map_of e ?k of None \<Rightarrow> rl_for r = 0 | Some st \<Rightarrow> \<not> firing st \<and> rl_for r \<le> time_sub now (first st))) \<and>
    (t = TransitionResolved \<longleftrightarrow> \<not> cond_true r s \<and> phase_of ?k e = Firing)"
  proof (cases "cond_true r s")
    case False
    then have "end_episode ?k now e = (e', a, t)" using step by (simp add: eval_step_def)
    from end_episode_moves [OF ok this] False show ?thesis by simp
  next
    case True
    show ?thesis
    proof (cases "map_of e ?k")
      case None
      then have p: "phase_of ?k e = Absent" by (simp add: phase_of_def)
      show ?thesis using step True None ok p
        by (auto simp: eval_step_def Let_def state_ok_fire state_ok_open intro!: put_moves intro: episode.intros split: if_splits)
    next
      case (Some st)
      then have p: "phase_of ?k e = (if firing st then Firing else Pending)" by (simp add: phase_of_def)
      show ?thesis using step True Some ok p eval_okD [OF ok Some]
        by (auto simp: eval_step_def Let_def state_ok_fire state_ok_hold intro!: put_moves intro: episode.intros split: if_splits)
    qed
  qed
  then show "moves ?k e t e'"
    "t = TransitionFired \<longleftrightarrow> cond_true r s \<and>
       (case map_of e ?k of None \<Rightarrow> rl_for r = 0 | Some st \<Rightarrow> \<not> firing st \<and> rl_for r \<le> time_sub now (first st))"
    "t = TransitionResolved \<longleftrightarrow> \<not> cond_true r s \<and> phase_of ?k e = Firing" by simp_all
qed

section \<open>Runs\<close>

datatype eval_call = EStep rule alert_sample time | EEnd string time | EForget time

fun eval_run1 :: "eval_call \<Rightarrow> evaluator \<Rightarrow> evaluator \<times> (string \<times> transition) list" where
  "eval_run1 (EStep r s now) e = (case eval_step r s now e of (e', a, t) \<Rightarrow> (e', [(alert_key r s, t)]))"
| "eval_run1 (EEnd k now) e = (case end_episode k now e of (e', a, t) \<Rightarrow> (e', [(k, t)]))"
| "eval_run1 (EForget before) e = (fst (forget_pending before e), [])"

fun eval_run :: "eval_call list \<Rightarrow> evaluator \<Rightarrow> evaluator \<times> (string \<times> transition) list" where
  "eval_run [] e = (e, [])"
| "eval_run (c # cs) e = (case eval_run1 c e of (e1, ts) \<Rightarrow> (case eval_run cs e1 of (e2, us) \<Rightarrow> (e2, ts @ us)))"

definition of_key :: "string \<Rightarrow> (string \<times> transition) list \<Rightarrow> transition list" where
  "of_key k ts = map snd (filter (\<lambda>x. fst x = k) ts)"

lemma of_key_simps [simp]: "of_key k [] = []" "of_key k (ts @ us) = of_key k ts @ of_key k us"
  "of_key k [(j, t)] = (if j = k then [t] else [])"
  by (simp_all add: of_key_def)

text \<open>Firing and resolving take turns; the bool is whether the alert is firing.\<close>

fun takes_turns :: "bool \<Rightarrow> transition list \<Rightarrow> bool \<Rightarrow> bool" where
  "takes_turns f [] g \<longleftrightarrow> f = g"
| "takes_turns f (TransitionFired # ts) g \<longleftrightarrow> \<not> f \<and> takes_turns True ts g"
| "takes_turns f (TransitionResolved # ts) g \<longleftrightarrow> f \<and> takes_turns False ts g"
| "takes_turns f (_ # ts) g \<longleftrightarrow> takes_turns f ts g"

lemma takes_turns_append: "takes_turns f ts g \<Longrightarrow> takes_turns g us h \<Longrightarrow> takes_turns f (ts @ us) h"
  by (induction f ts g rule: takes_turns.induct) auto

lemma episode_turn: "episode p t q \<Longrightarrow> takes_turns (p = Firing) [t] (q = Firing)"
  by (induction rule: episode.induct) auto

lemma forget_kept:
  assumes "eval_ok e"
  shows "eval_ok (fst (forget_pending before e))"
    "map_of (fst (forget_pending before e)) k =
      (case map_of e k of None \<Rightarrow> None | Some st \<Rightarrow> if firing st \<or> \<not> seen st < before then Some st else None)"
proof -
  show "eval_ok (fst (forget_pending before e))" using eval_ok_filter [OF assms] by (simp add: forget_pending_def Let_def)
  show "map_of (fst (forget_pending before e)) k =
      (case map_of e k of None \<Rightarrow> None | Some st \<Rightarrow> if firing st \<or> \<not> seen st < before then Some st else None)"
    using assms map_of_filter_wf [of e] by (simp add: forget_pending_def Let_def eval_ok_def case_prod_beta split: option.split)
qed

lemma moves_turn:
  assumes "moves j e t e'"
  shows "takes_turns (phase_of k e = Firing) (of_key k [(j, t)]) (phase_of k e' = Firing)"
  using assms episode_turn by (auto simp: moves_def phase_of_def)

lemma eval_run1_ok:
  assumes "eval_ok e" and "eval_run1 c e = (e', ts)"
  shows "eval_ok e' \<and> takes_turns (phase_of k e = Firing) (of_key k ts) (phase_of k e' = Firing)"
proof (cases c)
  case (EStep r s now)
  obtain a t where "eval_step r s now e = (e', a, t)" "ts = [(alert_key r s, t)]" using assms(2) EStep by (auto split: prod.splits)
  with eval_step_moves(1) [OF assms(1)] moves_turn show ?thesis by (simp add: moves_def)
next
  case (EEnd j now)
  obtain a t where "end_episode j now e = (e', a, t)" "ts = [(j, t)]" using assms(2) EEnd by (auto split: prod.splits)
  with end_episode_moves(1) [OF assms(1)] moves_turn show ?thesis by (simp add: moves_def)
next
  case (EForget before)
  then show ?thesis using assms forget_kept [OF assms(1), of before] by (auto simp: phase_of_def split: option.splits)
qed


definition down_rule :: rule where
  "down_rule = metric_rule ''agent_down'' SeverityCritical ''up'' LT (Fin 1) (90 * second) ''no payload''"

definition down_sample :: "time \<Rightarrow> f64 \<Rightarrow> alert_sample" where
  "down_sample t v = \<lparr>sm_cluster = None, sm_instance = Some ''i1'', sm_datname = [], sm_labels = [], sm_value = v, sm_ts = t,
     sm_inapplicable = False\<rparr>"


text \<open>What a spell of samples that meet the condition gives: at most one firing, as soon as it has held.\<close>

fun spell :: "duration \<Rightarrow> time \<Rightarrow> time list \<Rightarrow> transition list" where
  "spell f start [] = []"
| "spell f start (n # ns) =
     (if f \<le> time_sub n start then TransitionFired # replicate (length ns) TransitionNone
      else TransitionNone # spell f start ns)"

fun steps :: "rule \<Rightarrow> (alert_sample \<times> time) list \<Rightarrow> evaluator \<Rightarrow> evaluator \<times> transition list" where
  "steps r [] e = (e, [])"
| "steps r ((s, now) # xs) e =
     (case eval_step r s now e of (e1, a, t) \<Rightarrow> (case steps r xs e1 of (e2, ts) \<Rightarrow> (e2, t # ts)))"

lemma steps_firing:
  assumes "eval_ok e" and "map_of e k = Some st" and "firing st" and "\<forall>(s, now) \<in> set xs. cond_true r s \<and> alert_key r s = k"
  shows "snd (steps r xs e) = replicate (length xs) TransitionNone"
  using assms
proof (induction xs arbitrary: e st)
  case (Cons x xs)
  obtain s now where x: "x = (s, now)" by (cases x)
  have k: "cond_true r s" "alert_key r s = k" using Cons.prems(4) x by auto
  have step: "eval_step r s now e = (AList.update k (hold_state s now st) e, Some (ev_alert (hold_state s now st)), TransitionNone)"
    using k Cons.prems(2,3) by (simp add: eval_step_def Let_def)
  have ok: "eval_ok (AList.update k (hold_state s now st) e)"
    using Cons.prems(1,2) by (auto intro: state_ok_hold eval_okD)
  have "snd (steps r xs (AList.update k (hold_state s now st) e)) = replicate (length xs) TransitionNone"
    by (rule Cons.IH [OF ok, of "hold_state s now st"]) (use Cons.prems in \<open>auto simp: gomap\<close>)
  then show ?case using x step by (simp add: split_beta)
qed simp

lemma steps_pending:
  assumes "eval_ok e" and "map_of e k = Some st" and "\<not> firing st" and "\<forall>(s, now) \<in> set xs. cond_true r s \<and> alert_key r s = k"
  shows "snd (steps r xs e) = spell (rl_for r) (first st) (map snd xs)"
  using assms
proof (induction xs arbitrary: e st)
  case (Cons x xs)
  obtain s now where x: "x = (s, now)" by (cases x)
  have k: "cond_true r s" "alert_key r s = k" using Cons.prems(4) x by auto
  define st' where "st' = (if rl_for r \<le> time_sub now (first st) then fire (hold_state s now st) else hold_state s now st)"
  have step: "eval_step r s now e = (AList.update k st' e, Some (ev_alert st'),
      if rl_for r \<le> time_sub now (first st) then TransitionFired else TransitionNone)"
    using k Cons.prems(2,3) by (simp add: eval_step_def st'_def Let_def)
  have ok: "eval_ok (AList.update k st' e)" and m: "map_of (AList.update k st' e) k = Some st'"
    using Cons.prems(1,2) by (auto simp: st'_def gomap intro: state_ok_hold state_ok_fire eval_okD)
  have rest: "\<forall>(s, now) \<in> set xs. cond_true r s \<and> alert_key r s = k" using Cons.prems(4) by auto
  have f: "firing st' \<longleftrightarrow> rl_for r \<le> time_sub now (first st)" "first st' = first st" using Cons.prems(3) by (simp_all add: st'_def)
  have "snd (steps r xs (AList.update k st' e)) =
      (if rl_for r \<le> time_sub now (first st) then replicate (length xs) TransitionNone
       else spell (rl_for r) (first st) (map snd xs))"
    using steps_firing [OF ok m _ rest] Cons.IH [OF ok m _ rest] f by simp
  then show ?case using x step by (simp add: split_beta)
qed simp

text \<open>
  C29. An alert fires exactly when its condition has held for the rule's time. Let a key without an episode
  get a spell of samples that all meet the condition: the first one opens the episode, or fires at once
  when the rule has no waiting time; after that the alert fires at the first sample at least that time
  after the start and at no other.
\<close>

theorem fires_when_held:
  assumes "eval_ok e" and "map_of e k = None" and "\<forall>(s', n) \<in> set ((s, now) # xs). cond_true r s' \<and> alert_key r s' = k"
  shows "snd (steps r ((s, now) # xs) e) =
    (if rl_for r = 0 then TransitionFired # replicate (length xs) TransitionNone
     else TransitionOpened # spell (rl_for r) (if is_zero (sm_ts s) then now else sm_ts s) (map snd xs))"
proof -
  have k: "cond_true r s" "alert_key r s = k" and rest: "\<forall>(s, now) \<in> set xs. cond_true r s \<and> alert_key r s = k"
    using assms(3) by auto
  define st where "st = (if rl_for r = 0 then fire (open_state r s now) else open_state r s now)"
  have step: "eval_step r s now e = (AList.update k st e, Some (ev_alert st), if rl_for r = 0 then TransitionFired else TransitionOpened)"
    using k assms(2) by (simp add: eval_step_def st_def Let_def)
  have ok: "eval_ok (AList.update k st e)" and m: "map_of (AList.update k st e) k = Some st"
    using assms(1) k(2) state_ok_open [of r s now] by (auto simp: st_def gomap intro: state_ok_fire)
  have f: "firing st \<longleftrightarrow> rl_for r = 0" "first st = (if is_zero (sm_ts s) then now else sm_ts s)" by (simp_all add: st_def)
  show ?thesis
    using steps_firing [OF ok m _ rest] steps_pending [OF ok m _ rest] step f by (simp add: split_beta)
qed

lemma fires_when_held_witness:
  "snd (steps down_rule [(down_sample second (Fin 0), second), (down_sample second (Fin 0), 60 * second),
      (down_sample second (Fin 0), 91 * second), (down_sample second (Fin 0), 99 * second)] newEvaluator) =
    [TransitionOpened, TransitionNone, TransitionFired, TransitionNone]"
  using fires_when_held [of newEvaluator "''agent_down/i1/''" "down_sample second (Fin 0)" second
      "[(down_sample second (Fin 0), 60 * second), (down_sample second (Fin 0), 91 * second), (down_sample second (Fin 0), 99 * second)]" down_rule]
  by (simp add: newEvaluator_def eval_ok_def down_rule_def down_sample_def metric_rule_def cond_true_def compare_f64_def
      alert_key_def uuidText_def canonicalLabels_def is_zero_def time_sub_def go_units max_duration_def min_duration_def del: steps.simps)

section \<open>Undoing\<close>

lemma undo_restores:
  assumes "wf_map e'" and "\<And>j. j \<noteq> k \<Longrightarrow> map_of e' j = map_of e j"
  shows "map_of (undo_to k (checkpoint k e) e') = map_of e"
  using assms by (auto simp: undo_to_def checkpoint_def gomap fun_eq_iff split: option.split)

text \<open>
  A transition that cannot be recorded leaves no trace: putting the checkpoint back after a step gives
  every key the episode it had before, so the same sample makes the same transition again.
\<close>

theorem undo_repeats_transition:
  assumes "eval_ok e" and "eval_step r s now e = (e', a, t)"
  defines "u \<equiv> undo_to (alert_key r s) (checkpoint (alert_key r s) e) e'"
  shows "map_of u = map_of e \<and> snd (eval_step r s now u) = (a, t)"
proof -
  have "map_of u = map_of e"
    using undo_restores [of e' "alert_key r s" e] eval_step_moves(1) [OF assms(1,2)] by (simp add: u_def moves_def eval_ok_def)
  moreover from this have "snd (eval_step r s now u) = snd (eval_step r s now e)"
    by (simp add: eval_step_def end_episode_eq Let_def split: option.split)
  ultimately show ?thesis using assms(2) by simp
qed

lemma undo_repeats_transition_witness:
  "case eval_step down_rule (down_sample second (Fin 0)) second newEvaluator of (e', a, t) \<Rightarrow>
    snd (eval_step down_rule (down_sample second (Fin 0)) second
      (undo_to (alert_key down_rule (down_sample second (Fin 0))) (checkpoint (alert_key down_rule (down_sample second (Fin 0))) newEvaluator) e')) = (a, t)"
  using undo_repeats_transition [of newEvaluator down_rule "down_sample second (Fin 0)" second]
  by (auto simp: newEvaluator_def eval_ok_def split: prod.splits)

end
