(* ===== verification/Alert_Engine.thy ===== *)
theory Alert_Engine
  imports Evaluator
begin

text \<open>
  One pass of the alert engine (\<^verbatim>\<open>internal/alert/engine.go\<close>) and the alerts table it writes
  (\<^verbatim>\<open>Upsert\<close>, \<^verbatim>\<open>Active\<close> and \<^verbatim>\<open>Purge\<close> of \<^verbatim>\<open>store.go\<close>).

  The sources and the notifier are Go interfaces; a source is the answers it gives during a pass, and a
  notifier is a state with its operations. The calls a pass makes to the table and the notifier are
  numbered, and what each of them answers, and whether the pass's deadline has passed after it, is a
  function of the number; a write that answers an error has written nothing. The log \<open>en_pages\<close> has the alerts the notifier was given.
\<close>

section \<open>The table\<close>

text \<open>A row keeps its times to the microsecond; the column of the key is the episode's key and start.\<close>

definition stored_row :: "alert \<Rightarrow> alert" where
  "stored_row a = a\<lparr>al_started := trunc_us (al_started a), al_lastEval := trunc_us (al_lastEval a),
     al_resolved := map_option trunc_us (al_resolved a), al_suppressed := False\<rparr>"

definition same_row :: "alert \<Rightarrow> alert \<Rightarrow> bool" where
  "same_row a b \<longleftrightarrow> al_key a = al_key b \<and> trunc_us (al_started a) = trunc_us (al_started b)"

definition update_row :: "alert \<Rightarrow> alert \<Rightarrow> alert" where
  "update_row a row = row\<lparr>al_state := al_state a, al_value := al_value a, al_lastEval := trunc_us (al_lastEval a),
     al_resolved := map_option trunc_us (al_resolved a)\<rparr>"

definition upsert :: "alert \<Rightarrow> alert list \<Rightarrow> alert list" where
  "upsert a tbl =
     (if list_ex (same_row a) tbl then map (\<lambda>row. if same_row a row then update_row a row else row) tbl
      else tbl @ [stored_row a])"

definition active_rows :: "alert list \<Rightarrow> alert list" where
  "active_rows tbl =
     sort_slice (\<lambda>a b. al_lastEval b < al_lastEval a) (filter (\<lambda>row. al_state row \<noteq> StateResolved) tbl)"

definition purge_alerts :: "time \<Rightarrow> alert list \<Rightarrow> alert list" where
  "purge_alerts before tbl =
     filter (\<lambda>row. \<not> (al_state row = StateResolved \<and> (case al_resolved row of None \<Rightarrow> False | Some t \<Rightarrow> t < before))) tbl"

section \<open>State\<close>

record alert_source =
  src_kind :: string
  src_samples :: "rule \<Rightarrow> time \<Rightarrow> string + alert_sample list"
  src_cleared :: "(rule \<Rightarrow> alert list \<Rightarrow> string + alert list) option"

record 'n notifier_ops =
  nf_notify :: "alert \<Rightarrow> 'n \<Rightarrow> 'n \<times> string option"
  nf_retry :: "((alert list \<Rightarrow> 'n \<Rightarrow> 'n \<times> string option)) option"

datatype lock_answer = LockErr string | LockNoRows | LockIs bool

record lead_io =
  li_closed :: bool
  li_ping :: bool
  li_acquire :: "string option"
  li_lock :: lock_answer

record tick_io =
  ti_lead :: lead_io
  ti_active :: "string option"
  ti_rules :: "string + rule list"
  ti_silences :: "string + silence list"
  ti_upsert :: "nat \<Rightarrow> string option"
  ti_done :: "nat \<Rightarrow> bool"
  ti_purge :: "string option"
  ti_regexp :: regexp

record 'n alert_engine =
  en_eval :: evaluator
  en_pool :: bool
  en_conn :: bool
  en_hasLock :: bool
  en_loaded :: bool
  en_purgedAt :: time
  en_interval :: duration
  en_store :: bool
  en_notif :: "'n option"
  en_table :: "alert list"
  en_pages :: "alert list"
  en_calls :: nat
  en_errs :: "string list"

definition defaultEngineInterval :: duration where "defaultEngineInterval = 30 * second"
definition historyRetention :: duration where "historyRetention = 90 * 24 * hour"
definition purgeInterval :: duration where "purgeInterval = hour"
definition metricGrace :: duration where "metricGrace = 10 * minute"

definition newEngineWithInterval :: "bool \<Rightarrow> duration \<Rightarrow> bool \<Rightarrow> 'n option \<Rightarrow> alert list \<Rightarrow> 'n alert_engine" where
  "newEngineWithInterval pool interval st nf tbl =
     \<lparr>en_eval = newEvaluator, en_pool = pool, en_conn = False, en_hasLock = False, en_loaded = False, en_purgedAt = 0,
      en_interval = (if interval \<le> 0 then defaultEngineInterval else interval), en_store = st, en_notif = nf,
      en_table = tbl, en_pages = [], en_calls = 0, en_errs = []\<rparr>"

definition spell_event :: "string \<Rightarrow> bool" where
  "spell_event ev \<longleftrightarrow> ev \<in> {''instance_unreachable'', ''no_primary_in_cluster'', ''slot_inactive'', ''slot_lost''}"

definition lookback :: "duration \<Rightarrow> duration" where
  "lookback i =
     (let interval = (if i \<le> 0 then defaultEngineInterval else i); d = wrap64 (2 * interval)
      in if 2 * minute < d then d else 2 * minute)"

definition endGrace :: "rule \<Rightarrow> duration \<Rightarrow> duration" where
  "endGrace r interval =
     (if spell_event (rl_event r) then lookback interval
      else if rl_event r \<noteq> [] then 0
      else metricGrace)"

section \<open>Leadership\<close>

definition releaseLeaderConn :: "'n alert_engine \<Rightarrow> 'n alert_engine" where
  "releaseLeaderConn s = s\<lparr>en_conn := False, en_hasLock := False\<rparr>"

definition try_lock :: "lead_io \<Rightarrow> 'n alert_engine \<Rightarrow> 'n alert_engine \<times> string option" where
  "try_lock io s =
     (case (if en_conn s then None else li_acquire io) of
        Some err \<Rightarrow> (s, Some (''acquire conn for alert lock: '' @ err))
      | None \<Rightarrow>
          (case li_lock io of
             LockErr err \<Rightarrow> (releaseLeaderConn s, Some (''try alert advisory lock: '' @ err))
           | LockNoRows \<Rightarrow> (s\<lparr>en_conn := True, en_hasLock := False\<rparr>, None)
           | LockIs locked \<Rightarrow>
               (if locked then s\<lparr>en_conn := True, en_hasLock := True, en_eval := reset_eval (en_eval s), en_loaded := False\<rparr>
                else s\<lparr>en_conn := True, en_hasLock := False\<rparr>, None)))"

definition ensureLeader :: "lead_io \<Rightarrow> 'n alert_engine \<Rightarrow> 'n alert_engine \<times> string option" where
  "ensureLeader io s =
     (if \<not> en_pool s then (s\<lparr>en_hasLock := True\<rparr>, None)
      else let s1 = (if en_conn s \<and> li_closed io then releaseLeaderConn s else s) in
        if en_hasLock s1 \<and> en_conn s1 \<and> li_ping io then (s1, None)
        else try_lock io (if en_hasLock s1 \<and> en_conn s1 then releaseLeaderConn s1 else s1))"

section \<open>Publishing\<close>

definition add_err :: "string \<Rightarrow> 'n alert_engine \<Rightarrow> 'n alert_engine" where
  "add_err err s = s\<lparr>en_errs := en_errs s @ [err]\<rparr>"

definition notify_alert :: "'n notifier_ops \<Rightarrow> alert \<Rightarrow> 'n alert_engine \<Rightarrow> 'n alert_engine" where
  "notify_alert nf a s =
     (case en_notif s of
        None \<Rightarrow> s
      | Some n \<Rightarrow>
          if al_suppressed a then s
          else case nf_notify nf a n of
                 (n', None) \<Rightarrow> s\<lparr>en_notif := Some n', en_pages := en_pages s @ [a]\<rparr>
               | (n', Some err) \<Rightarrow>
                   add_err (''notify alert '' @ al_key a @ '': '' @ err) (s\<lparr>en_notif := Some n', en_pages := en_pages s @ [a]\<rparr>))"

definition publish ::
  "tick_io \<Rightarrow> 'n notifier_ops \<Rightarrow> silence list \<Rightarrow> time \<Rightarrow> evalState option \<Rightarrow> alert \<Rightarrow> 'n alert_engine \<Rightarrow> 'n alert_engine" where
  "publish io nf silences now prev a s =
     (let a1 = a\<lparr>al_suppressed := (firstMatch (ti_regexp io) silences a now \<noteq> None)\<rparr> in
      if en_store s then
        (case ti_upsert io (en_calls s) of
           Some err \<Rightarrow>
             add_err (''persist alert '' @ al_key a @ '': '' @ err)
               (s\<lparr>en_eval := undo_to (al_key a) prev (en_eval s), en_calls := en_calls s + 1\<rparr>)
         | None \<Rightarrow> notify_alert nf a1 (s\<lparr>en_table := upsert a1 (en_table s), en_calls := en_calls s + 1\<rparr>))
      else notify_alert nf a1 s)"

definition refresh :: "tick_io \<Rightarrow> alert \<Rightarrow> 'n alert_engine \<Rightarrow> 'n alert_engine" where
  "refresh io a s =
     (if \<not> en_store s then s
      else case ti_upsert io (en_calls s) of
             Some err \<Rightarrow> add_err (''refresh alert '' @ al_key a @ '': '' @ err) (s\<lparr>en_calls := en_calls s + 1\<rparr>)
           | None \<Rightarrow> s\<lparr>en_table := upsert a (en_table s), en_calls := en_calls s + 1\<rparr>)"

section \<open>Closing\<close>

fun clearedBy :: "alert_source list \<Rightarrow> rule \<Rightarrow> alert list \<Rightarrow> string + alert list" where
  "clearedBy [] r as = Inr []"
| "clearedBy (src # srcs) r as =
     (case src_cleared src of
        Some cl \<Rightarrow> if src_kind src = ''event'' then cl r as else clearedBy srcs r as
      | None \<Rightarrow> clearedBy srcs r as)"

definition close_one ::
  "tick_io \<Rightarrow> 'n notifier_ops \<Rightarrow> silence list \<Rightarrow> time \<Rightarrow> string \<Rightarrow> 'n alert_engine \<Rightarrow> 'n alert_engine" where
  "close_one io nf silences now key s =
     (let prev = checkpoint key (en_eval s) in
      case end_episode key now (en_eval s) of
        (e, Some a, TransitionResolved) \<Rightarrow> publish io nf silences now prev a (s\<lparr>en_eval := e\<rparr>)
      | (e, _, _) \<Rightarrow> s\<lparr>en_eval := e\<rparr>)"

definition endUnsampled ::
  "tick_io \<Rightarrow> 'n notifier_ops \<Rightarrow> alert_source list \<Rightarrow> rule option \<Rightarrow> silence list \<Rightarrow> time \<Rightarrow> alert list \<Rightarrow>
   'n alert_engine \<Rightarrow> 'n alert_engine" where
  "endUnsampled io nf srcs rl silences now as s =
     (if as = [] then s
      else case (case rl of
                   Some r \<Rightarrow> if spell_event (rl_event r) then
                               (case clearedBy srcs r as of
                                  Inl err \<Rightarrow> Inl (''check cleared '' @ rl_id r @ '': '' @ err)
                                | Inr cl \<Rightarrow> Inr cl)
                             else Inr as
                 | None \<Rightarrow> Inr as) of
             Inl err \<Rightarrow> add_err err s
           | Inr closing \<Rightarrow> foldl (\<lambda>s a. close_one io nf silences now (al_key a) s) s closing)"

section \<open>A pass\<close>

definition handle_sample ::
  "tick_io \<Rightarrow> 'n notifier_ops \<Rightarrow> silence list \<Rightarrow> time \<Rightarrow> rule \<Rightarrow> alert_sample \<Rightarrow> 'n alert_engine \<Rightarrow> 'n alert_engine \<times> bool" where
  "handle_sample io nf silences now r smp s =
     (let prev = checkpoint (alert_key r smp) (en_eval s) in
      case eval_step r smp now (en_eval s) of
        (e, None, t) \<Rightarrow> (s\<lparr>en_eval := e\<rparr>, False)
      | (e, Some a, t) \<Rightarrow>
          (let s1 = s\<lparr>en_eval := e\<rparr> in
           if t = TransitionNone \<and> al_state a = StateFiring then (refresh io a s1, False)
           else if t = TransitionNone \<or> t = TransitionOpened \<or> t = TransitionCancelled then (s1, False)
           else let s2 = publish io nf silences now prev a s1
                in if ti_done io (en_calls s2) then (add_err ''context done'' s2, True) else (s2, False)))"

text \<open>The bool of a result is that the pass ends at once, because its deadline has passed.\<close>

fun handle_samples ::
  "tick_io \<Rightarrow> 'n notifier_ops \<Rightarrow> silence list \<Rightarrow> time \<Rightarrow> rule \<Rightarrow> alert_sample list \<Rightarrow> 'n alert_engine \<Rightarrow> 'n alert_engine \<times> bool" where
  "handle_samples io nf silences now r [] s = (s, False)"
| "handle_samples io nf silences now r (x # xs) s =
     (case handle_sample io nf silences now r x s of
        (s1, True) \<Rightarrow> (s1, True)
      | (s1, False) \<Rightarrow> handle_samples io nf silences now r xs s1)"

definition serves :: "rule \<Rightarrow> alert_source \<Rightarrow> bool" where
  "serves r src \<longleftrightarrow> \<not> (rl_event r \<noteq> [] \<and> src_kind src \<noteq> ''event'' \<or> rl_event r = [] \<and> src_kind src \<noteq> ''metric'')"

fun handle_sources ::
  "tick_io \<Rightarrow> 'n notifier_ops \<Rightarrow> silence list \<Rightarrow> time \<Rightarrow> rule \<Rightarrow> alert_source list \<Rightarrow> nat \<Rightarrow> bool \<Rightarrow> 'n alert_engine \<Rightarrow>
   'n alert_engine \<times> nat \<times> bool \<times> bool" where
  "handle_sources io nf silences now r [] observed failed s = (s, observed, failed, False)"
| "handle_sources io nf silences now r (src # srcs) observed failed s =
     (if \<not> serves r src then handle_sources io nf silences now r srcs observed failed s
      else case src_samples src r now of
             Inl err \<Rightarrow>
               (let s1 = add_err (''sample rule '' @ rl_id r @ '': '' @ err) s in
                if ti_done io (en_calls s1) then (s1, observed, True, True)
                else handle_sources io nf silences now r srcs observed True s1)
           | Inr samples \<Rightarrow>
               (case handle_samples io nf silences now r samples s of
                  (s1, True) \<Rightarrow> (s1, observed + 1, failed, True)
                | (s1, False) \<Rightarrow> handle_sources io nf silences now r srcs (observed + 1) failed s1))"

fun handle_rules ::
  "tick_io \<Rightarrow> 'n notifier_ops \<Rightarrow> alert_source list \<Rightarrow> silence list \<Rightarrow> time \<Rightarrow> rule list \<Rightarrow> 'n alert_engine \<Rightarrow> 'n alert_engine \<times> bool" where
  "handle_rules io nf srcs silences now [] s = (s, False)"
| "handle_rules io nf srcs silences now (r # rs) s =
     (case handle_sources io nf silences now r srcs 0 False s of
        (s1, observed, failed, True) \<Rightarrow> (s1, True)
      | (s1, observed, failed, False) \<Rightarrow>
          (let s2 = (if 0 < observed \<and> \<not> failed then
                       endUnsampled io nf srcs (Some r) silences now
                         (unsampled (\<lambda>i. i = rl_id r) (now - endGrace r (en_interval s1)) (en_eval s1)) s1
                     else s1)
           in handle_rules io nf srcs silences now rs s2))"

definition purgeHistory :: "tick_io \<Rightarrow> time \<Rightarrow> 'n alert_engine \<Rightarrow> 'n alert_engine" where
  "purgeHistory io now s =
     (if \<not> en_store s then s
      else if is_zero (en_purgedAt s) \<or> purgeInterval \<le> time_sub now (en_purgedAt s) then
        (let s1 = s\<lparr>en_purgedAt := now\<rparr> in
         case ti_purge io of
           Some err \<Rightarrow> add_err (''purge alert history: '' @ err) s1
         | None \<Rightarrow> s1\<lparr>en_table := purge_alerts (now - historyRetention) (en_table s1)\<rparr>)
      else s)"

definition pass_rules :: "rule list \<Rightarrow> rule list" where
  "pass_rules stored = builtin @ filter (\<lambda>r. rl_enabled r \<and> rl_id r \<notin> set (map rl_id builtin)) stored"

definition load_active :: "time \<Rightarrow> 'n alert_engine \<Rightarrow> 'n alert_engine" where
  "load_active now s =
     (if en_loaded s then s
      else s\<lparr>en_eval := (if en_store s then foldl (\<lambda>e a. restore_alert a now e) (en_eval s) (active_rows (en_table s)) else en_eval s),
             en_loaded := True\<rparr>)"

definition retry_deliveries :: "'n notifier_ops \<Rightarrow> 'n alert_engine \<Rightarrow> 'n alert_engine" where
  "retry_deliveries nf s =
     (case (en_notif s, nf_retry nf) of
        (Some n, Some f) \<Rightarrow>
          (case f (firing_alerts (en_eval s)) n of
             (n', None) \<Rightarrow> s\<lparr>en_notif := Some n'\<rparr>
           | (n', Some err) \<Rightarrow> add_err err (s\<lparr>en_notif := Some n'\<rparr>))
      | _ \<Rightarrow> s)"

definition evaluate_pass ::
  "tick_io \<Rightarrow> 'n notifier_ops \<Rightarrow> alert_source list \<Rightarrow> silence list \<Rightarrow> time \<Rightarrow> rule list \<Rightarrow> 'n alert_engine \<Rightarrow> 'n alert_engine" where
  "evaluate_pass io nf srcs silences now rules s =
     (case handle_rules io nf srcs silences now rules s of
        (s1, True) \<Rightarrow> s1
      | (s1, False) \<Rightarrow>
          (let s2 = endUnsampled io nf srcs None silences now
                      (unsampled (\<lambda>i. i \<notin> set (map rl_id rules)) now (en_eval s1)) s1;
               s3 = s2\<lparr>en_eval := fst (forget_pending (now - hour) (en_eval s2))\<rparr>
           in retry_deliveries nf (purgeHistory io now s3)))"

definition tick ::
  "tick_io \<Rightarrow> 'n notifier_ops \<Rightarrow> alert_source list \<Rightarrow> time \<Rightarrow> 'n alert_engine \<Rightarrow> 'n alert_engine" where
  "tick io nf srcs now s0 =
     (case ensureLeader (ti_lead io) (s0\<lparr>en_errs := [], en_calls := 0\<rparr>) of
        (s, Some err) \<Rightarrow> add_err err s
      | (s, None) \<Rightarrow>
          if \<not> en_hasLock s then s
          else if \<not> en_loaded s \<and> en_store s \<and> ti_active io \<noteq> None then
            add_err (''restore active alerts: '' @ the (ti_active io)) s
          else
            (let s1 = load_active now s in
             case (if en_store s1 then ti_rules io else Inr []) of
               Inl err \<Rightarrow> add_err (''load alert rules: '' @ err) s1
             | Inr stored \<Rightarrow>
                 (case (if en_store s1 then ti_silences io else Inr []) of
                    Inl err \<Rightarrow> add_err (''load alert silences: '' @ err) s1
                  | Inr silences \<Rightarrow> evaluate_pass io nf srcs silences now (pass_rules stored) s1)))"

end
