(* ===== verification/Alert_Inv.thy ===== *)
theory Alert_Inv
  imports Alert_Engine
begin

text \<open>
  The alerts table and the evaluator agree: whatever calls of a pass fail, the table has a firing row for a
  key exactly when the evaluator holds its episode as firing, with the same start, and no page is sent for an
  alert the table does not show.
\<close>

section \<open>The firing rows\<close>

definition fired :: "alert list \<Rightarrow> string \<Rightarrow> time set" where
  "fired tbl k = {al_started row | row. row \<in> set tbl \<and> al_key row = k \<and> al_state row = StateFiring}"

definition held :: "evaluator \<Rightarrow> string \<Rightarrow> time set" where
  "held e k = (case map_of e k of None \<Rightarrow> {} | Some st \<Rightarrow> if firing st then {trunc_us (first st)} else {})"

definition agree :: "evaluator \<Rightarrow> alert list \<Rightarrow> bool" where
  "agree e tbl \<longleftrightarrow> (\<forall>k. fired tbl k = held e k)"

definition table_ok :: "alert list \<Rightarrow> bool" where
  "table_ok tbl \<longleftrightarrow>
     (\<forall>row \<in> set tbl. trunc_us (al_started row) = al_started row \<and> (al_state row = StateFiring \<or> al_state row = StateResolved)) \<and>
     (\<forall>k. \<forall>t \<in> fired tbl k. \<forall>u \<in> fired tbl k. t = u)"

text \<open>An alert a pass writes: firing, or resolved at the time of the pass.\<close>

definition fresh :: "time \<Rightarrow> alert \<Rightarrow> bool" where
  "fresh now a \<longleftrightarrow> al_state a = StateFiring \<or> al_state a = StateResolved \<and> al_resolved a = Some now"

definition on_record :: "time \<Rightarrow> alert list \<Rightarrow> alert \<Rightarrow> bool" where
  "on_record now tbl a \<longleftrightarrow>
     (\<exists>row \<in> set tbl. same_row a row \<and> (al_state row = StateFiring \<or> al_resolved row = Some (trunc_us now)))"

lemma set_upsert:
  "set (upsert a tbl) =
     (if \<exists>row \<in> set tbl. same_row a row then (\<lambda>row. if same_row a row then update_row a row else row) ` set tbl
      else insert (stored_row a) (set tbl))"
  by (auto simp: upsert_def list_ex_iff)

lemma update_row_simps [simp]:
  "al_key (update_row a row) = al_key row" "al_started (update_row a row) = al_started row"
  "al_state (update_row a row) = al_state a" "al_resolved (update_row a row) = map_option trunc_us (al_resolved a)"
  by (simp_all add: update_row_def)

lemma stored_row_simps [simp]:
  "al_key (stored_row a) = al_key a" "al_started (stored_row a) = trunc_us (al_started a)"
  "al_state (stored_row a) = al_state a" "al_resolved (stored_row a) = map_option trunc_us (al_resolved a)"
  by (simp_all add: stored_row_def)

lemma fired_upsert:
  assumes "\<forall>row \<in> set tbl. trunc_us (al_started row) = al_started row"
  shows "fired (upsert a tbl) k =
    (if k \<noteq> al_key a then fired tbl k
     else if al_state a = StateFiring then insert (trunc_us (al_started a)) (fired tbl k)
     else fired tbl k - {trunc_us (al_started a)})"
proof (cases "\<exists>row \<in> set tbl. same_row a row")
  case True
  then obtain row0 where row0: "row0 \<in> set tbl" "same_row a row0" by blast
  have mem: "t \<in> fired (upsert a tbl) k \<longleftrightarrow>
      (\<exists>row \<in> set tbl. al_started row = t \<and> al_key row = k \<and>
        (if same_row a row then al_state a = StateFiring else al_state row = StateFiring))" for t
  proof -
    have "t \<in> fired (upsert a tbl) k \<longleftrightarrow>
        (\<exists>row \<in> (\<lambda>row. if same_row a row then update_row a row else row) ` set tbl.
          al_started row = t \<and> al_key row = k \<and> al_state row = StateFiring)"
      using True unfolding fired_def set_upsert by auto
    also have "\<dots> \<longleftrightarrow> (\<exists>row \<in> set tbl. al_started row = t \<and> al_key row = k \<and>
        (if same_row a row then al_state a = StateFiring else al_state row = StateFiring))"
      unfolding bex_simps(7) by (rule bex_cong) auto
    finally show ?thesis .
  qed
  have same: "same_row a row \<longleftrightarrow> al_key row = al_key a \<and> al_started row = trunc_us (al_started a)" if "row \<in> set tbl" for row
    using assms that by (auto simp: same_row_def)
  show ?thesis
  proof (rule set_eqI)
    fix t
    show "t \<in> fired (upsert a tbl) k \<longleftrightarrow> t \<in> (if k \<noteq> al_key a then fired tbl k
     else if al_state a = StateFiring then insert (trunc_us (al_started a)) (fired tbl k)
     else fired tbl k - {trunc_us (al_started a)})"
      unfolding mem using same row0
      apply (auto simp: fired_def)
      subgoal for row by (rule bexI [of _ row]) auto
      done
  qed
next
  case False
  then have "t \<noteq> trunc_us (al_started a)" if "t \<in> fired tbl (al_key a)" for t
    using that assms by (auto simp: fired_def same_row_def)
  then show ?thesis using False unfolding fired_def set_upsert
    by auto (rule exI [of _ "stored_row a"], simp)
qed

lemma upsert_rows:
  assumes "\<forall>row \<in> set tbl. trunc_us (al_started row) = al_started row \<and> (al_state row = StateFiring \<or> al_state row = StateResolved)"
    and "fresh now a"
  shows "\<forall>row \<in> set (upsert a tbl). trunc_us (al_started row) = al_started row \<and> (al_state row = StateFiring \<or> al_state row = StateResolved)"
  using assms unfolding set_upsert by (auto simp: fresh_def)

lemma on_record_upsert:
  assumes "fresh now b"
  shows "on_record now (upsert b tbl) b" "on_record now tbl a \<Longrightarrow> on_record now (upsert b tbl) a"
proof -
  show "on_record now (upsert b tbl) b"
  proof (cases "\<exists>row \<in> set tbl. same_row b row")
    case True
    then obtain row where row: "row \<in> set tbl" "same_row b row" by blast
    then have "update_row b row \<in> set (upsert b tbl)" unfolding set_upsert by force
    moreover have "same_row b (update_row b row)" using row(2) by (simp add: same_row_def)
    ultimately show ?thesis using assms by (auto simp: on_record_def fresh_def)
  next
    case False
    then have "stored_row b \<in> set (upsert b tbl)" unfolding set_upsert by auto
    moreover have "same_row b (stored_row b)" by (simp add: same_row_def)
    ultimately show ?thesis using assms by (auto simp: on_record_def fresh_def)
  qed
  show "on_record now (upsert b tbl) a" if rec: "on_record now tbl a"
  proof -
    obtain row where row: "row \<in> set tbl" "same_row a row" "al_state row = StateFiring \<or> al_resolved row = Some (trunc_us now)"
      using rec by (auto simp: on_record_def)
    show ?thesis
    proof (cases "same_row b row")
      case True
      then have "update_row b row \<in> set (upsert b tbl)" using row(1) unfolding set_upsert by force
      moreover have "same_row a (update_row b row)" using row(2) by (simp add: same_row_def)
      ultimately show ?thesis using assms by (auto simp: on_record_def fresh_def)
    next
      case False
      then have "row \<in> set (upsert b tbl)" using row(1) unfolding set_upsert by force
      then show ?thesis using row by (auto simp: on_record_def)
    qed
  qed
qed

lemma purge_facts:
  "fired (purge_alerts before tbl) = fired tbl" "table_ok tbl \<Longrightarrow> table_ok (purge_alerts before tbl)"
  "before \<le> trunc_us now \<Longrightarrow> on_record now tbl a \<Longrightarrow> on_record now (purge_alerts before tbl) a"
proof -
  show f: "fired (purge_alerts before tbl) = fired tbl" by (auto simp: fired_def purge_alerts_def fun_eq_iff)
  show "table_ok (purge_alerts before tbl)" if "table_ok tbl"
    using that unfolding table_ok_def f by (auto simp: purge_alerts_def)
  show "on_record now (purge_alerts before tbl) a" if "before \<le> trunc_us now" "on_record now tbl a"
    using that by (fastforce simp: on_record_def purge_alerts_def)
qed

section \<open>One transition\<close>

lemma held_cong: "map_of e' k = map_of e k \<Longrightarrow> held e' k = held e k"
  by (simp add: held_def)

lemma eval_step_result:
  assumes "eval_ok e" and "eval_step r s now e = (e', Some a, t)"
  shows "al_key a = alert_key r s"
    "t = TransitionFired \<Longrightarrow> \<exists>st. map_of e' (alert_key r s) = Some st \<and> firing st \<and> a = ev_alert st \<and> held e (alert_key r s) = {}"
    "t = TransitionResolved \<Longrightarrow> \<exists>st. map_of e (alert_key r s) = Some st \<and> firing st \<and> a = closed_alert now st \<and> map_of e' (alert_key r s) = None"
    "t = TransitionNone \<Longrightarrow> \<exists>st. map_of e' (alert_key r s) = Some st \<and> a = ev_alert st"
proof -
  let ?k = "alert_key r s"
  have "al_key a = ?k \<and> (t = TransitionFired \<longrightarrow> (\<exists>st. map_of e' ?k = Some st \<and> firing st \<and> a = ev_alert st \<and> held e ?k = {})) \<and>
    (t = TransitionResolved \<longrightarrow> (\<exists>st. map_of e ?k = Some st \<and> firing st \<and> a = closed_alert now st \<and> map_of e' ?k = None)) \<and>
    (t = TransitionNone \<longrightarrow> (\<exists>st. map_of e' ?k = Some st \<and> a = ev_alert st))"
  proof (cases "cond_true r s")
    case False
    then have "end_episode ?k now e = (e', Some a, t)" using assms(2) by (simp add: eval_step_def)
    then obtain st where st: "map_of e ?k = Some st" "firing st" "a = closed_alert now st" "t = TransitionResolved" "e' = AList.delete ?k e"
      by (auto simp: end_episode_eq split: option.splits if_splits)
    then show ?thesis using eval_okD [OF assms(1) st(1)] by (simp add: closed_alert_def state_ok_def gomap)
  next
    case True
    show ?thesis
    proof (cases "map_of e ?k")
      case None
      define st where "st = (if rl_for r = 0 then fire (open_state r s now) else open_state r s now)"
      have "e' = AList.update ?k st e" "a = ev_alert st" "t = (if rl_for r = 0 then TransitionFired else TransitionOpened)"
        using assms(2) True None by (simp_all add: eval_step_def st_def Let_def split: if_splits)
      moreover have "state_ok ?k st" by (simp add: st_def state_ok_open state_ok_fire)
      ultimately show ?thesis using None by (auto simp: gomap st_def state_ok_def held_def split: if_splits)
    next
      case (Some old)
      define st where "st = (if \<not> firing old \<and> rl_for r \<le> time_sub now (first old) then fire (hold_state s now old) else hold_state s now old)"
      have "e' = AList.update ?k st e" "a = ev_alert st"
        "t = (if \<not> firing old \<and> rl_for r \<le> time_sub now (first old) then TransitionFired else TransitionNone)"
        using assms(2) True Some by (auto simp: eval_step_def st_def Let_def split: if_splits)
      moreover have "state_ok ?k st" using eval_okD [OF assms(1) Some] by (simp add: st_def state_ok_hold state_ok_fire)
      ultimately show ?thesis using Some by (auto simp: gomap st_def state_ok_def held_def split: if_splits)
    qed
  qed
  then show "al_key a = ?k"
    "t = TransitionFired \<Longrightarrow> \<exists>st. map_of e' ?k = Some st \<and> firing st \<and> a = ev_alert st \<and> held e ?k = {}"
    "t = TransitionResolved \<Longrightarrow> \<exists>st. map_of e ?k = Some st \<and> firing st \<and> a = closed_alert now st \<and> map_of e' ?k = None"
    "t = TransitionNone \<Longrightarrow> \<exists>st. map_of e' ?k = Some st \<and> a = ev_alert st" by simp_all
qed

text \<open>What the evaluator and the table have to do with an alert that is published.\<close>

definition change :: "time \<Rightarrow> evaluator \<Rightarrow> evaluator \<Rightarrow> alert \<Rightarrow> bool" where
  "change now e e' a \<longleftrightarrow> fresh now a \<and>
     held e' (al_key a) = (if al_state a = StateFiring then {trunc_us (al_started a)} else {}) \<and>
     held e (al_key a) = (if al_state a = StateFiring then {} else {trunc_us (al_started a)})"

lemma step_change:
  assumes "eval_ok e" and "eval_step r s now e = (e', Some a, t)" and "t = TransitionFired \<or> t = TransitionResolved"
  shows "change now e e' a"
  using assms(3)
proof
  assume "t = TransitionFired"
  then obtain st where st: "map_of e' (alert_key r s) = Some st" "firing st" "a = ev_alert st" "held e (alert_key r s) = {}"
    using eval_step_result(2) [OF assms(1,2)] by blast
  have "eval_ok e'" using eval_step_moves(1) [OF assms(1,2)] by (simp add: moves_def)
  then have "state_ok (alert_key r s) st" using st(1) by (rule eval_okD)
  then show ?thesis using st by (simp add: change_def fresh_def held_def state_ok_def)
next
  assume "t = TransitionResolved"
  then obtain st where st: "map_of e (alert_key r s) = Some st" "firing st" "a = closed_alert now st" "map_of e' (alert_key r s) = None"
    using eval_step_result(3) [OF assms(1,2)] by blast
  have "state_ok (alert_key r s) st" using assms(1) st(1) by (rule eval_okD)
  then show ?thesis using st by (simp add: change_def fresh_def held_def state_ok_def closed_alert_def)
qed

lemma end_change:
  assumes "eval_ok e" and "end_episode k now e = (e', Some a, TransitionResolved)"
  shows "change now e e' a" "al_key a = k"
proof -
  obtain st where st: "map_of e k = Some st" "firing st" "a = closed_alert now st" "e' = AList.delete k e"
    using assms(2) by (auto simp: end_episode_eq split: option.splits if_splits)
  have "state_ok k st" using assms(1) st(1) by (rule eval_okD)
  then show "change now e e' a" "al_key a = k" using st by (simp_all add: change_def fresh_def held_def state_ok_def closed_alert_def gomap)
qed

section \<open>A pass\<close>

definition pass_ok :: "time \<Rightarrow> 'n alert_engine \<Rightarrow> 'n alert_engine \<Rightarrow> bool" where
  "pass_ok now s0 s \<longleftrightarrow>
     en_store s \<and> eval_ok (en_eval s) \<and> table_ok (en_table s) \<and> agree (en_eval s) (en_table s) \<and>
     en_hasLock s = en_hasLock s0 \<and> en_loaded s = en_loaded s0 \<and> en_pool s = en_pool s0 \<and>
     (\<exists>new. en_pages s = en_pages s0 @ new \<and> (\<forall>a \<in> set new. on_record now (en_table s) a))"

lemma pass_okI_eval:
  assumes "pass_ok now s0 s" and "eval_ok e" and "\<And>k. held e k = held (en_eval s) k"
  shows "pass_ok now s0 (s\<lparr>en_eval := e\<rparr>)"
  using assms by (simp add: pass_ok_def agree_def)

lemma pass_ok_simps [simp]:
  "pass_ok now s0 (add_err err s) = pass_ok now s0 s" "pass_ok now s0 (s\<lparr>en_calls := n\<rparr>) = pass_ok now s0 s"
  "pass_ok now s0 (s\<lparr>en_notif := nf\<rparr>) = pass_ok now s0 s" "pass_ok now s0 (s\<lparr>en_purgedAt := t\<rparr>) = pass_ok now s0 s"
  by (simp_all add: pass_ok_def add_err_def)

lemma table_ok_upsert:
  assumes "table_ok tbl" and "fresh now a" and "al_state a = StateFiring \<Longrightarrow> fired tbl (al_key a) \<subseteq> {trunc_us (al_started a)}"
  shows "table_ok (upsert a tbl)"
proof -
  have r: "\<forall>row \<in> set tbl. trunc_us (al_started row) = al_started row" using assms(1) by (simp add: table_ok_def)
  have uniq: "\<forall>k. \<forall>t \<in> fired tbl k. \<forall>u \<in> fired tbl k. t = u" using assms(1) unfolding table_ok_def by blast
  have "\<forall>k. \<forall>t \<in> fired (upsert a tbl) k. \<forall>u \<in> fired (upsert a tbl) k. t = u"
    using uniq assms(3) unfolding fired_upsert [OF r] by auto
  moreover have "\<forall>row \<in> set (upsert a tbl). trunc_us (al_started row) = al_started row \<and>
      (al_state row = StateFiring \<or> al_state row = StateResolved)"
    using upsert_rows [OF _ assms(2)] assms(1) unfolding table_ok_def by blast
  ultimately show ?thesis unfolding table_ok_def by blast
qed

lemma pass_ok_write:
  assumes "pass_ok now s0 s" and "fresh now a"
    and "\<And>k. held e k = (if k = al_key a then if al_state a = StateFiring then {trunc_us (al_started a)} else {} else held (en_eval s) k)"
    and "held (en_eval s) (al_key a) \<subseteq> {trunc_us (al_started a)}" and "eval_ok e"
  shows "pass_ok now s0 (s\<lparr>en_eval := e, en_table := upsert a (en_table s), en_calls := n\<rparr>)"
    "on_record now (upsert a (en_table s)) a"
proof -
  have r: "\<forall>row \<in> set (en_table s). trunc_us (al_started row) = al_started row"
    and f: "fired (en_table s) k = held (en_eval s) k" for k
    using assms(1) by (simp_all add: pass_ok_def table_ok_def agree_def)
  have "agree e (upsert a (en_table s))"
    using assms(3,4) unfolding agree_def fired_upsert [OF r] f by auto
  moreover have "table_ok (upsert a (en_table s))"
    using assms(1,2,4) f by (intro table_ok_upsert) (auto simp: pass_ok_def)
  ultimately show "pass_ok now s0 (s\<lparr>en_eval := e, en_table := upsert a (en_table s), en_calls := n\<rparr>)"
    using assms(1,5) on_record_upsert(2) [OF assms(2)] unfolding pass_ok_def by auto
  show "on_record now (upsert a (en_table s)) a" by (rule on_record_upsert(1) [OF assms(2)])
qed

lemma notify_ok:
  assumes "pass_ok now s0 s" and "on_record now (en_table s) a"
  shows "pass_ok now s0 (notify_alert nf a s)"
proof -
  obtain new where new: "en_pages s = en_pages s0 @ new" "\<forall>a \<in> set new. on_record now (en_table s) a"
    using assms(1) by (auto simp: pass_ok_def)
  have n: "pass_ok now s0 (s\<lparr>en_notif := n, en_pages := en_pages s @ [a]\<rparr>)" for n
    using assms new unfolding pass_ok_def by (simp add: exI [of _ "new @ [a]"])
  show ?thesis
  proof (cases "en_notif s")
    case (Some nt)
    obtain n' err where "nf_notify nf a nt = (n', err)" by (cases "nf_notify nf a nt")
    then show ?thesis using Some assms(1) n [of "Some n'"] by (cases err) (simp_all add: notify_alert_def)
  qed (use assms(1) in \<open>simp add: notify_alert_def\<close>)
qed

lemma undo_ok:
  assumes "eval_ok e" and "eval_ok e'" and "\<And>j. j \<noteq> k \<Longrightarrow> map_of e' j = map_of e j"
  shows "eval_ok (undo_to k (checkpoint k e) e')" "held (undo_to k (checkpoint k e) e') = held e"
proof -
  have "wf_map (undo_to k (checkpoint k e) e')" using assms(2) by (auto simp: undo_to_def eval_ok_def gomap split: option.split)
  moreover have m: "map_of (undo_to k (checkpoint k e) e') = map_of e"
    using undo_restores [of e' k e] assms(2,3) by (simp add: eval_ok_def)
  ultimately show "eval_ok (undo_to k (checkpoint k e) e')" using assms(1) by (simp add: eval_ok_def)
  show "held (undo_to k (checkpoint k e) e') = held e" using m by (simp add: held_def fun_eq_iff)
qed

lemma publish_ok:
  assumes s: "pass_ok now s0 s" and ch: "change now (en_eval s) e a" and mv: "moves (al_key a) (en_eval s) t e"
  shows "pass_ok now s0 (publish io nf sil now (checkpoint (al_key a) (en_eval s)) a (s\<lparr>en_eval := e\<rparr>))"
proof (cases "ti_upsert io (en_calls s)")
  case None
  define a1 where "a1 = a\<lparr>al_suppressed := (firstMatch (ti_regexp io) sil a now \<noteq> None)\<rparr>"
  have a1: "al_key a1 = al_key a" "al_state a1 = al_state a" "al_started a1 = al_started a" "fresh now a1"
    using ch by (simp_all add: a1_def change_def fresh_def)
  have h: "held e k = (if k = al_key a1 then if al_state a1 = StateFiring then {trunc_us (al_started a1)} else {} else held (en_eval s) k)" for k
    using ch mv held_cong [of e k "en_eval s"] by (cases "k = al_key a") (simp_all add: a1 change_def moves_def)
  have "held (en_eval s) (al_key a1) \<subseteq> {trunc_us (al_started a1)}" using ch by (auto simp: a1 change_def)
  moreover have "eval_ok e" using mv by (simp add: moves_def)
  ultimately have w: "pass_ok now s0 (s\<lparr>en_eval := e, en_table := upsert a1 (en_table s), en_calls := en_calls s + 1\<rparr>)"
    "on_record now (upsert a1 (en_table s)) a1"
    using pass_ok_write [OF s a1(4) h] by blast+
  have "en_store s" using s by (simp add: pass_ok_def)
  then show ?thesis using notify_ok [OF w(1), of a1 nf] w(2) None
    by (simp add: publish_def Let_def a1_def)
next
  case (Some err)
  have e: "eval_ok (en_eval s)" "eval_ok e" "\<And>j. j \<noteq> al_key a \<Longrightarrow> map_of e j = map_of (en_eval s) j"
    using s mv by (simp_all add: pass_ok_def moves_def)
  have u: "eval_ok (undo_to (al_key a) (checkpoint (al_key a) (en_eval s)) e)"
    "held (undo_to (al_key a) (checkpoint (al_key a) (en_eval s)) e) = held (en_eval s)"
    using undo_ok [of "en_eval s" e "al_key a"] e by blast+
  have "pass_ok now s0 (s\<lparr>en_eval := undo_to (al_key a) (checkpoint (al_key a) (en_eval s)) e\<rparr>)"
    by (rule pass_okI_eval [OF s u(1)]) (rule fun_cong [OF u(2)])
  then show ?thesis using Some s by (simp add: publish_def pass_ok_def add_err_def)
qed

lemma held_other:
  assumes "moves k e t e'" and "t \<noteq> TransitionFired" and "t \<noteq> TransitionResolved" and "eval_ok e"
    and "\<And>st st'. map_of e k = Some st \<Longrightarrow> map_of e' k = Some st' \<Longrightarrow> first st' = first st"
  shows "held e' j = held e j"
proof (cases "j = k")
  case True
  have "episode (phase_of k e) t (phase_of k e')" using assms(1) by (simp add: moves_def)
  then have p: "phase_of k e' = Firing \<longleftrightarrow> phase_of k e = Firing" using assms(2,3) by cases simp_all
  show ?thesis
  proof (cases "map_of e k")
    case None
    then show ?thesis using p True by (auto simp: held_def phase_of_def split: option.splits if_splits)
  next
    case (Some st)
    then show ?thesis using p True assms(5) [OF Some] by (cases "map_of e' k") (auto simp: held_def phase_of_def split: if_splits)
  qed
next
  case False
  then show ?thesis using assms(1) by (intro held_cong) (simp add: moves_def)
qed

lemma eval_step_first:
  assumes "eval_step r s now e = (e', a, t)" and "map_of e (alert_key r s) = Some st" and "map_of e' (alert_key r s) = Some st'"
    and "wf_map e"
  shows "first st' = first st"
  using assms by (cases "cond_true r s") (auto simp: eval_step_def end_episode_eq Let_def gomap split: if_splits)

lemma end_episode_first:
  assumes "end_episode k now e = (e', a, t)" and "map_of e' k = Some st'" and "map_of e k = Some st"
  shows "first st' = first st"
  using assms by (auto simp: end_episode_eq gomap split: if_splits)

lemma refresh_ok:
  assumes "pass_ok now s0 s" and "map_of (en_eval s) (al_key a) = Some st" and "a = ev_alert st" and "al_state a = StateFiring"
  shows "pass_ok now s0 (refresh io a s)"
proof (cases "ti_upsert io (en_calls s)")
  case None
  have ok: "eval_ok (en_eval s)" using assms(1) by (simp add: pass_ok_def)
  have "state_ok (al_key a) st" by (rule eval_okD [OF ok assms(2)])
  then have h: "held (en_eval s) (al_key a) = {trunc_us (al_started a)}"
    using assms(2-4) by (auto simp: held_def state_ok_def split: if_splits)
  have "pass_ok now s0 (s\<lparr>en_eval := en_eval s, en_table := upsert a (en_table s), en_calls := en_calls s + 1\<rparr>)"
    by (rule pass_ok_write(1) [OF assms(1)]) (use h ok assms(4) in \<open>auto simp: fresh_def\<close>)
  then show ?thesis using None assms(1) by (simp add: refresh_def)
qed (use assms(1) in \<open>simp add: refresh_def\<close>)

lemma handle_sample_ok:
  assumes s: "pass_ok now s0 s"
  shows "pass_ok now s0 (fst (handle_sample io nf sil now r x s))"
proof -
  obtain e a t where st: "eval_step r x now (en_eval s) = (e, a, t)" by (cases "eval_step r x now (en_eval s)")
  have ok: "eval_ok (en_eval s)" using s by (simp add: pass_ok_def)
  note mv = eval_step_moves(1) [OF ok st]
  have e: "eval_ok e" using mv by (simp add: moves_def)
  have quiet: "pass_ok now s0 (s\<lparr>en_eval := e\<rparr>)" if "t \<noteq> TransitionFired" "t \<noteq> TransitionResolved"
  proof (rule pass_okI_eval [OF s e])
    have wf: "wf_map (en_eval s)" using ok by (simp add: eval_ok_def)
    show "held e j = held (en_eval s) j" for j
      by (rule held_other [OF mv that ok]) (rule eval_step_first [OF st _ _ wf])
  qed
  show ?thesis
  proof (cases a)
    case None
    have "t \<noteq> TransitionFired \<and> t \<noteq> TransitionResolved"
      using st None by (cases "cond_true r x") (auto simp: eval_step_def end_episode_eq Let_def split: option.splits if_splits)
    then show ?thesis using quiet st None by (simp add: handle_sample_def)
  next
    case (Some b)
    note res = eval_step_result [OF ok st [unfolded Some]]
    consider "t = TransitionNone" | "t = TransitionOpened \<or> t = TransitionCancelled" | "t = TransitionFired \<or> t = TransitionResolved"
      by (cases t) auto
    then show ?thesis
    proof cases
      case 1
      then obtain c where "map_of e (al_key b) = Some c" "b = ev_alert c" using res(4) unfolding res(1) by blast
      then show ?thesis using 1 quiet refresh_ok [of now s0 "s\<lparr>en_eval := e\<rparr>" b c io] st Some by (simp add: handle_sample_def Let_def)
    next
      case 2
      then show ?thesis using quiet st Some by (auto simp: handle_sample_def)
    next
      case 3
      have "pass_ok now s0 (publish io nf sil now (checkpoint (alert_key r x) (en_eval s)) b (s\<lparr>en_eval := e\<rparr>))"
        using publish_ok [OF s step_change [OF ok st [unfolded Some] 3]] mv res(1) by simp
      then show ?thesis using 3 st Some by (auto simp: handle_sample_def Let_def)
    qed
  qed
qed

lemma handle_samples_ok: "pass_ok now s0 s \<Longrightarrow> pass_ok now s0 (fst (handle_samples io nf sil now r xs s))"
proof (induction xs arbitrary: s)
  case (Cons x xs)
  have "pass_ok now s0 (fst (handle_sample io nf sil now r x s))" by (rule handle_sample_ok [OF Cons.prems])
  then show ?case using Cons.IH by (auto split: prod.split bool.split)
qed simp

lemma handle_sources_ok: "pass_ok now s0 s \<Longrightarrow> pass_ok now s0 (fst (handle_sources io nf sil now r srcs obs fl s))"
proof (induction srcs arbitrary: s obs fl)
  case (Cons src srcs)
  show ?case
  proof (cases "src_samples src r now")
    case (Inl err)
    then show ?thesis using Cons by (simp add: Let_def)
  next
    case (Inr xs)
    have "pass_ok now s0 (fst (handle_samples io nf sil now r xs s))" by (rule handle_samples_ok [OF Cons.prems])
    then show ?thesis using Inr Cons by (auto split: prod.split bool.split)
  qed
qed simp

lemma close_one_ok:
  assumes s: "pass_ok now s0 s"
  shows "pass_ok now s0 (close_one io nf sil now k s)"
proof -
  obtain e a t where st: "end_episode k now (en_eval s) = (e, a, t)" by (cases "end_episode k now (en_eval s)")
  have ok: "eval_ok (en_eval s)" using s by (simp add: pass_ok_def)
  note mv = end_episode_moves [OF ok st]
  have e: "eval_ok e" using mv(1) by (simp add: moves_def)
  show ?thesis
  proof (cases "t = TransitionResolved")
    case True
    then obtain b where b: "a = Some b" using st by (auto simp: end_episode_eq split: option.splits if_splits)
    note ch = end_change [OF ok st [unfolded True b]]
    have "pass_ok now s0 (publish io nf sil now (checkpoint k (en_eval s)) b (s\<lparr>en_eval := e\<rparr>))"
      using publish_ok [OF s ch(1)] mv(1) ch(2) by simp
    then show ?thesis using st True b by (simp add: close_one_def)
  next
    case False
    have "pass_ok now s0 (s\<lparr>en_eval := e\<rparr>)"
    proof (rule pass_okI_eval [OF s e])
      show "held e j = held (en_eval s) j" for j
        by (rule held_other [OF mv(1,3) False ok]) (rule end_episode_first [OF st])
    qed
    then show ?thesis using st False by (simp add: close_one_def split: option.split transition.split)
  qed
qed

lemma endUnsampled_ok:
  assumes "pass_ok now s0 s"
  shows "pass_ok now s0 (endUnsampled io nf srcs rl sil now as s)"
proof -
  have f: "pass_ok now s0 (foldl (\<lambda>s a. close_one io nf sil now (al_key a) s) s cl)" for cl
    using assms by (induction cl arbitrary: s) (simp_all add: close_one_ok)
  show ?thesis
  proof (cases rl)
    case None
    then show ?thesis using assms f [of as] by (simp add: endUnsampled_def)
  next
    case (Some r)
    then show ?thesis using assms f by (cases "clearedBy srcs r as") (auto simp: endUnsampled_def)
  qed
qed

lemma handle_rules_ok: "pass_ok now s0 s \<Longrightarrow> pass_ok now s0 (fst (handle_rules io nf srcs sil now rs s))"
proof (induction rs arbitrary: s)
  case (Cons r rs)
  obtain s1 obs fl ab where 1: "handle_sources io nf sil now r srcs 0 False s = (s1, obs, fl, ab)"
    by (cases "handle_sources io nf sil now r srcs 0 False s")
  then have "pass_ok now s0 s1" using handle_sources_ok [OF Cons.prems, of io nf sil r srcs 0 False] by simp
  then show ?case using 1 by (cases ab) (simp_all add: Let_def Cons.IH endUnsampled_ok)
qed simp

lemma trunc_us_recent: "t - 1000 < trunc_us t" "trunc_us t \<le> t"
  by (simp_all add: trunc_us_def microsecond_def)

lemma evaluate_pass_ok:
  assumes "pass_ok now s0 s"
  shows "pass_ok now s0 (evaluate_pass io nf srcs sil now rules s)"
proof -
  obtain s1 ab where 1: "handle_rules io nf srcs sil now rules s = (s1, ab)" by (cases "handle_rules io nf srcs sil now rules s")
  have s1: "pass_ok now s0 s1" using handle_rules_ok [OF assms, of io nf srcs sil rules] 1 by simp
  define s2 where "s2 = endUnsampled io nf srcs None sil now (unsampled (\<lambda>i. i \<notin> set (map rl_id rules)) now (en_eval s1)) s1"
  have s2: "pass_ok now s0 s2" unfolding s2_def by (rule endUnsampled_ok [OF s1])
  define s3 where "s3 = s2\<lparr>en_eval := fst (forget_pending (now - hour) (en_eval s2))\<rparr>"
  have ok2: "eval_ok (en_eval s2)" using s2 by (simp add: pass_ok_def)
  have s3: "pass_ok now s0 s3" unfolding s3_def
    using forget_kept [OF ok2, of "now - hour"] by (intro pass_okI_eval [OF s2]) (auto simp: held_def split: option.split)
  have "now - historyRetention \<le> trunc_us now"
    using trunc_us_recent(1) [of now] by (simp add: historyRetention_def go_units)
  note pg = purge_facts(3) [OF this]
  have s4: "pass_ok now s0 (s3\<lparr>en_purgedAt := t, en_table := purge_alerts (now - historyRetention) (en_table s3)\<rparr>)" for t
    using s3 purge_facts(1,2) pg unfolding pass_ok_def agree_def by auto
  have s5: "pass_ok now s0 (purgeHistory io now s3)"
    using s3 s4 by (simp add: purgeHistory_def Let_def split: option.split)
  have "pass_ok now s0 (retry_deliveries nf (purgeHistory io now s3))"
    using s5 by (auto simp: retry_deliveries_def split: option.split prod.split)
  then show ?thesis using 1 s1 by (cases ab) (simp_all add: evaluate_pass_def Let_def s2_def s3_def)
qed

section \<open>Terms\<close>

lemma restore_held:
  assumes "eval_ok e" and "al_state a = StateFiring"
  shows "eval_ok (restore_alert a now e)"
    "held (restore_alert a now e) k = (if k = al_key a then {trunc_us (al_started a)} else held e k)"
proof -
  have "state_ok (al_key a) \<lparr>first = al_started a, seen = now, firing = (al_state a = StateFiring), ev_alert = a\<rparr>"
    using assms(2) by (simp add: state_ok_def)
  then show "eval_ok (restore_alert a now e)" using assms by (auto simp: restore_alert_def)
  show "held (restore_alert a now e) k = (if k = al_key a then {trunc_us (al_started a)} else held e k)"
    using assms(2) by (simp add: restore_alert_def held_def gomap)
qed

lemma restore_all:
  assumes "\<forall>a \<in> set rows. al_state a = StateFiring \<and> trunc_us (al_started a) = g (al_key a)" and "eval_ok e"
  shows "eval_ok (foldl (\<lambda>e a. restore_alert a now e) e rows) \<and>
    held (foldl (\<lambda>e a. restore_alert a now e) e rows) k = (if k \<in> al_key ` set rows then {g k} else held e k)"
  using assms
proof (induction rows arbitrary: e)
  case (Cons a rows)
  have ok: "eval_ok (restore_alert a now e)"
    and h: "held (restore_alert a now e) k = (if k = al_key a then {g k} else held e k)"
    using Cons.prems restore_held [of e a now] by auto
  show ?case using Cons.IH [OF _ ok] Cons.prems(1) h by (cases "k = al_key a") auto
qed simp

definition engine_ok :: "'n alert_engine \<Rightarrow> bool" where
  "engine_ok s \<longleftrightarrow> en_store s \<and> table_ok (en_table s) \<and> eval_ok (en_eval s) \<and>
     (\<not> en_loaded s \<longrightarrow> en_eval s = []) \<and>
     (en_loaded s \<and> (en_hasLock s \<or> \<not> en_pool s) \<longrightarrow> agree (en_eval s) (en_table s))"

lemma load_ok:
  assumes "engine_ok s" and "en_hasLock s"
  shows "pass_ok now (load_active now s) (load_active now s)"
proof (cases "en_loaded s")
  case True
  then show ?thesis using assms by (simp add: load_active_def pass_ok_def engine_ok_def)
next
  case False
  then have e: "en_eval s = []" "table_ok (en_table s)" "en_store s" using assms by (simp_all add: engine_ok_def)
  let ?rows = "active_rows (en_table s)"
  define g where "g k = (THE t. t \<in> fired (en_table s) k)" for k
  have set_rows: "set ?rows = {row \<in> set (en_table s). al_state row = StateFiring}"
    using e(2) by (auto simp: active_rows_def table_ok_def)
  have g: "fired (en_table s) k = {g k}" if "t \<in> fired (en_table s) k" for k t
  proof -
    have "fired (en_table s) k = {t}" using that e(2) unfolding table_ok_def by blast
    then show ?thesis by (simp add: g_def)
  qed
  have rows: "\<forall>a \<in> set ?rows. al_state a = StateFiring \<and> trunc_us (al_started a) = g (al_key a)"
  proof
    fix a assume "a \<in> set ?rows"
    then have a: "a \<in> set (en_table s)" "al_state a = StateFiring" by (simp_all add: set_rows)
    then have "al_started a \<in> fired (en_table s) (al_key a)" by (auto simp: fired_def)
    with g [OF this] have "al_started a = g (al_key a)" by simp
    moreover have "trunc_us (al_started a) = al_started a" using a(1) e(2) by (simp add: table_ok_def)
    ultimately show "al_state a = StateFiring \<and> trunc_us (al_started a) = g (al_key a)" using a(2) by simp
  qed
  have "eval_ok []" by (simp add: eval_ok_def)
  note r = restore_all [OF rows this, of now]
  have "fired (en_table s) k = (if k \<in> al_key ` set ?rows then {g k} else {})" for k
  proof (cases "k \<in> al_key ` set ?rows")
    case True
    then obtain a where "a \<in> set (en_table s)" "al_state a = StateFiring" "al_key a = k" by (auto simp: set_rows)
    then have "al_started a \<in> fired (en_table s) k" by (auto simp: fired_def)
    from g [OF this] True show ?thesis by simp
  next
    case False
    then show ?thesis by (auto simp: fired_def set_rows)
  qed
  then have "agree (foldl (\<lambda>e a. restore_alert a now e) [] ?rows) (en_table s)" using r by (simp add: agree_def held_def)
  then show ?thesis using False e r by (simp add: load_active_def pass_ok_def)
qed

text \<open>A step of the leadership keeps the table, the log and what the engine is sure of.\<close>

definition lead_keeps :: "'n alert_engine \<Rightarrow> 'n alert_engine \<Rightarrow> bool" where
  "lead_keeps s s' \<longleftrightarrow> engine_ok s' \<and> en_pool s' = en_pool s \<and> en_table s' = en_table s \<and> en_pages s' = en_pages s"

lemma release_keeps: "engine_ok s \<Longrightarrow> en_pool s \<Longrightarrow> lead_keeps s (releaseLeaderConn s)"
  by (simp add: engine_ok_def releaseLeaderConn_def lead_keeps_def)

lemma try_lock_keeps:
  assumes "engine_ok s" and "en_pool s"
  shows "lead_keeps s (fst (try_lock io s))"
proof (cases "if en_conn s then None else li_acquire io")
  case (Some err)
  then show ?thesis using assms by (simp add: try_lock_def lead_keeps_def)
next
  case None
  note run = this
  show ?thesis
  proof (cases "li_lock io")
    case (LockErr err)
    then show ?thesis using run release_keeps [OF assms] by (simp add: try_lock_def)
  next
    case LockNoRows
    then show ?thesis using run assms by (simp add: try_lock_def lead_keeps_def engine_ok_def)
  next
    case (LockIs b)
    then show ?thesis using run assms by (simp add: try_lock_def lead_keeps_def engine_ok_def reset_eval_def eval_ok_def)
  qed
qed

lemma ensureLeader_keeps:
  assumes "engine_ok s"
  shows "lead_keeps s (fst (ensureLeader io s))"
proof (cases "en_pool s")
  case False
  then show ?thesis using assms by (simp add: ensureLeader_def lead_keeps_def engine_ok_def)
next
  case True
  define s1 where "s1 = (if en_conn s \<and> li_closed io then releaseLeaderConn s else s)"
  define s2 where "s2 = (if en_hasLock s1 \<and> en_conn s1 then releaseLeaderConn s1 else s1)"
  have s1: "lead_keeps s s1" using assms release_keeps [OF assms True] by (auto simp: s1_def lead_keeps_def)
  then have s2: "lead_keeps s s2" using release_keeps [of s1] True by (auto simp: s2_def lead_keeps_def)
  then have "lead_keeps s (fst (try_lock io s2))" using try_lock_keeps [of s2 io] True by (simp add: lead_keeps_def)
  then show ?thesis using s1 True by (simp add: ensureLeader_def Let_def s1_def [symmetric] s2_def [symmetric])
qed


text \<open>A pass of a fresh engine over one source whose sample fires a rule at once.\<close>

definition calm_io :: tick_io where
  "calm_io = \<lparr>ti_lead = \<lparr>li_closed = False, li_ping = True, li_acquire = None, li_lock = LockIs True\<rparr>, ti_active = None,
     ti_rules = Inr [], ti_silences = Inr [], ti_upsert = (\<lambda>_. None), ti_done = (\<lambda>_. False), ti_purge = None,
     ti_regexp = (\<lambda>_. None)\<rparr>"

definition log_ops :: "nat notifier_ops" where
  "log_ops = \<lparr>nf_notify = (\<lambda>a n. (n + 1, None)), nf_retry = None\<rparr>"

definition event_source :: alert_source where
  "event_source = \<lparr>src_kind = ''event'',
     src_samples = (\<lambda>r now. if rl_id r = ''failover_detected'' then Inr [down_sample now (Fin 1)] else Inr []), src_cleared = None\<rparr>"

lemma fresh_engine_ok: "engine_ok (newEngineWithInterval pl i True nt [])"
  by (simp add: engine_ok_def newEngineWithInterval_def newEvaluator_def table_ok_def eval_ok_def fired_def)


end
