(* ===== verification/Notifier.thy ===== *)
theory Notifier
  imports Evaluator
begin

text \<open>
  The notifier that keeps failed deliveries (\<^verbatim>\<open>internal/alert/notifier.go\<close>), with the claims of the
  notifications table (\<^verbatim>\<open>ClaimNotification\<close> of \<^verbatim>\<open>store.go\<close>).

  A channel is its name. The calls to the table and the channels are numbered; what each answers, and
  whether the cycle's deadline has passed before it, is a function of the number. A claim can fail before
  it has written its row, or after. The log \<open>nt_log\<close> has the sends that began, with their outcome.
\<close>

section \<open>State\<close>

record message =
  ms_dedup :: string
  ms_rule :: string
  ms_severity :: string
  ms_phase :: string
  ms_summary :: string
  ms_cluster :: string
  ms_instance :: string
  ms_database :: string
  ms_value :: f64
  ms_at :: time
  ms_labels :: labels

record delivery =
  dl_dedup :: string
  dl_channel :: string
  dl_phase :: string
  dl_message :: "message option"
  dl_unclaimed :: bool
  dl_alert :: alert
  dl_attempts :: nat
  dl_failedIn :: nat

type_synonym delivery_id = "string \<times> string \<times> string"

definition dl_id :: "delivery \<Rightarrow> delivery_id" where
  "dl_id d = (dl_dedup d, dl_channel d, dl_phase d)"

datatype claim_answer = ClaimFails string | ClaimLost string | ClaimAnswers

record notify_io =
  ni_done :: "nat \<Rightarrow> bool"
  ni_claim :: "nat \<Rightarrow> claim_answer"
  ni_send :: "nat \<Rightarrow> string option"
  ni_mark :: "nat \<Rightarrow> string option"

record chan_notifier =
  nt_channels :: "string list"
  nt_passes :: nat
  nt_pending :: "delivery list"
  nt_undelivered :: int
  nt_rows :: "delivery_id list"
  nt_log :: "(delivery \<times> bool) list"
  nt_calls :: nat
  nt_errs :: "string list"

definition maxNotifyAttempts :: nat where "maxNotifyAttempts = 5"

definition newChannelNotifier :: "string list \<Rightarrow> delivery_id list \<Rightarrow> chan_notifier" where
  "newChannelNotifier chans rows =
     \<lparr>nt_channels = chans, nt_passes = 0, nt_pending = [], nt_undelivered = 0, nt_rows = rows, nt_log = [], nt_calls = 0,
      nt_errs = []\<rparr>"

definition newMessage :: "(time \<Rightarrow> string) \<Rightarrow> alert \<Rightarrow> string \<Rightarrow> message" where
  "newMessage fmt a phase =
     \<lparr>ms_dedup = dedupID fmt a, ms_rule = al_rule a, ms_severity = severity_text (al_severity a), ms_phase = phase,
      ms_summary = al_summary a, ms_cluster = (case al_cluster a of None \<Rightarrow> [] | Some c \<Rightarrow> format_int c),
      ms_instance = (case al_instance a of None \<Rightarrow> [] | Some i \<Rightarrow> i), ms_database = al_datname a, ms_value = al_value a,
      ms_at = al_lastEval a, ms_labels = al_labels a\<rparr>"

section \<open>Operations\<close>

definition nt_fail :: "string \<Rightarrow> chan_notifier \<Rightarrow> chan_notifier" where
  "nt_fail err n = n\<lparr>nt_errs := nt_errs n @ [err]\<rparr>"

definition keep_delivery :: "delivery \<Rightarrow> chan_notifier \<Rightarrow> chan_notifier" where
  "keep_delivery d n =
     (if maxNotifyAttempts \<le> dl_attempts d then n
      else n\<lparr>nt_pending := nt_pending n @ [d\<lparr>dl_failedIn := nt_passes n\<rparr>]\<rparr>)"

definition giveUp :: "delivery \<Rightarrow> string \<Rightarrow> chan_notifier \<Rightarrow> chan_notifier" where
  "giveUp d reason n =
     nt_fail (''notification not delivered: channel '' @ dl_channel d @ '', '' @ dl_phase d @ '' of '' @ dl_dedup d @ '': '' @ reason)
       (n\<lparr>nt_undelivered := nt_undelivered n + 1\<rparr>)"

definition keepUnclaimed :: "delivery \<Rightarrow> chan_notifier \<Rightarrow> chan_notifier" where
  "keepUnclaimed d n =
     (if dl_attempts d < maxNotifyAttempts then keep_delivery d n
      else giveUp d ''its claim failed on every attempt'' n)"

text \<open>A claim inserts the row of the delivery unless it is there; \<open>Inr\<close> says whether it did.\<close>

definition claim :: "notify_io \<Rightarrow> delivery \<Rightarrow> chan_notifier \<Rightarrow> chan_notifier \<times> delivery \<times> (string + bool)" where
  "claim io d n =
     (if ni_done io (nt_calls n) then (n, d, Inl ''context done'')
      else
        (let n1 = n\<lparr>nt_calls := nt_calls n + 1\<rparr>; d1 = d\<lparr>dl_attempts := dl_attempts d + 1\<rparr> in
         case ni_claim io (nt_calls n) of
           ClaimFails err \<Rightarrow> (n1, d1, Inl err)
         | ClaimLost err \<Rightarrow> (n1\<lparr>nt_rows := List.insert (dl_id d) (nt_rows n1)\<rparr>, d1, Inl err)
         | ClaimAnswers \<Rightarrow>
             (n1\<lparr>nt_rows := List.insert (dl_id d) (nt_rows n1)\<rparr>, d, Inr (dl_id d \<notin> set (nt_rows n)))))"

definition deliver :: "notify_io \<Rightarrow> delivery \<Rightarrow> chan_notifier \<Rightarrow> chan_notifier" where
  "deliver io d n =
     (if ni_done io (nt_calls n) then nt_fail (''channel '' @ dl_channel d @ '': context done'') (keep_delivery d n)
      else
        (let sendErr = ni_send io (nt_calls n);
             d1 = d\<lparr>dl_attempts := dl_attempts d + 1\<rparr>;
             n1 = n\<lparr>nt_log := nt_log n @ [(d, sendErr = None)], nt_calls := nt_calls n + 2\<rparr>
         in case sendErr of
              Some err \<Rightarrow> nt_fail (''channel '' @ dl_channel d @ '': '' @ err) (keep_delivery d1 n1)
            | None \<Rightarrow> (case ni_mark io (nt_calls n + 1) of None \<Rightarrow> n1 | Some err \<Rightarrow> nt_fail err n1)))"

definition dropPending :: "(delivery \<Rightarrow> bool) \<Rightarrow> chan_notifier \<Rightarrow> chan_notifier" where
  "dropPending drp n = n\<lparr>nt_pending := filter (\<lambda>d. \<not> drp d) (nt_pending n)\<rparr>"

definition phase_text :: "alert \<Rightarrow> string" where
  "phase_text a = (if al_state a = StateResolved then ''resolve'' else ''fire'')"

definition notify_channel :: "(time \<Rightarrow> string) \<Rightarrow> notify_io \<Rightarrow> alert \<Rightarrow> string \<Rightarrow> chan_notifier \<Rightarrow> chan_notifier" where
  "notify_channel fmt io a ch n =
     (let d = \<lparr>dl_dedup = dedupID fmt a, dl_channel = ch, dl_phase = phase_text a, dl_message = None, dl_unclaimed = False,
               dl_alert = a, dl_attempts = 0, dl_failedIn = 0\<rparr>
      in case claim io d n of
           (n1, d1, Inl err) \<Rightarrow> keepUnclaimed (d1\<lparr>dl_unclaimed := True\<rparr>) (nt_fail err n1)
         | (n1, d1, Inr won) \<Rightarrow>
             if won then deliver io (d1\<lparr>dl_message := Some (newMessage fmt a (phase_text a))\<rparr>) n1 else n1)"

definition notify :: "(time \<Rightarrow> string) \<Rightarrow> notify_io \<Rightarrow> alert \<Rightarrow> chan_notifier \<Rightarrow> chan_notifier" where
  "notify fmt io a n =
     foldl (\<lambda>n ch. notify_channel fmt io a ch n) (dropPending (\<lambda>d. al_key (dl_alert d) = al_key a) n) (nt_channels n)"

definition retry_one :: "(time \<Rightarrow> string) \<Rightarrow> notify_io \<Rightarrow> delivery \<Rightarrow> chan_notifier \<Rightarrow> chan_notifier" where
  "retry_one fmt io d n =
     (if dl_unclaimed d then
        (case claim io d n of
           (n1, d1, Inl err) \<Rightarrow> keepUnclaimed d1 (nt_fail err n1)
         | (n1, d1, Inr won) \<Rightarrow>
             if won then
               deliver io (d1\<lparr>dl_unclaimed := False, dl_message := Some (newMessage fmt (dl_alert d1) (dl_phase d1))\<rparr>) n1
             else giveUp d1 ''its claim is already on record and this pass did not make it'' n1)
      else deliver io d n)"

definition retry :: "(time \<Rightarrow> string) \<Rightarrow> notify_io \<Rightarrow> chan_notifier \<Rightarrow> chan_notifier" where
  "retry fmt io n =
     (let due = filter (\<lambda>d. dl_failedIn d < nt_passes n) (nt_pending n);
          n1 = n\<lparr>nt_pending := filter (\<lambda>d. \<not> dl_failedIn d < nt_passes n) (nt_pending n)\<rparr>;
          n2 = foldl (\<lambda>n d. retry_one fmt io d n) n1 due
      in n2\<lparr>nt_passes := nt_passes n2 + 1\<rparr>)"

definition startOf :: "alert \<Rightarrow> time" where
  "startOf a = trunc_us (al_started a)"

fun obsolete_loop :: "delivery \<Rightarrow> bool \<Rightarrow> alert list \<Rightarrow> bool" where
  "obsolete_loop d owed [] = (dl_phase d = ''fire'' \<and> \<not> owed)"
| "obsolete_loop d owed (a # as) =
     (if startOf (dl_alert d) < startOf a then True
      else obsolete_loop d (owed \<or> startOf a = startOf (dl_alert d)) as)"

definition settle :: "alert list \<Rightarrow> chan_notifier \<Rightarrow> chan_notifier" where
  "settle firing_now n =
     (if nt_pending n = [] then n
      else dropPending (\<lambda>d. obsolete_loop d False (filter (\<lambda>a. al_key a = al_key (dl_alert d)) firing_now)) n)"

end
