(* ===== verification/Notifier_Inv.thy ===== *)
theory Notifier_Inv
  imports Notifier
begin

text \<open>
  What the notifier guarantees over any run with any failures: a delivery is accepted by its channel at
  most once, it is tried at most a fixed number of times, and a channel is never sent a transition that a
  later one of the same alert has overtaken.
\<close>

section \<open>The invariant\<close>

definition sends :: "chan_notifier \<Rightarrow> delivery_id \<Rightarrow> nat" where
  "sends n i = length (filter (\<lambda>e. dl_id (fst e) = i) (nt_log n))"

definition accepts :: "chan_notifier \<Rightarrow> delivery_id \<Rightarrow> nat" where
  "accepts n i = length (filter (\<lambda>e. dl_id (fst e) = i \<and> snd e) (nt_log n))"

abbreviation claimed :: "delivery list \<Rightarrow> delivery list" where
  "claimed ds \<equiv> filter (\<lambda>d. \<not> dl_unclaimed d) ds"

text \<open>Here \<open>latest k\<close> is the alert of key \<open>k\<close> that was notified last.\<close>

definition current :: "(string \<Rightarrow> alert option) \<Rightarrow> delivery \<Rightarrow> bool" where
  "current latest d \<longleftrightarrow> latest (al_key (dl_alert d)) = Some (dl_alert d)"

text \<open>A claimed delivery that may be sent, and the deliveries that wait: the pending ones and \<open>ds\<close>, taken off them.\<close>

definition sendable :: "(string \<Rightarrow> alert option) \<Rightarrow> chan_notifier \<Rightarrow> delivery \<Rightarrow> bool" where
  "sendable latest n d \<longleftrightarrow> \<not> dl_unclaimed d \<and> dl_attempts d < maxNotifyAttempts \<and> current latest d \<and> dl_id d \<in> set (nt_rows n) \<and>
     sends n (dl_id d) \<le> dl_attempts d \<and> accepts n (dl_id d) = 0"

definition queue_ok :: "(string \<Rightarrow> alert option) \<Rightarrow> chan_notifier \<Rightarrow> delivery list \<Rightarrow> bool" where
  "queue_ok latest n ds \<longleftrightarrow> distinct (map dl_id (claimed ds)) \<and>
     (\<forall>d \<in> set ds. dl_attempts d < maxNotifyAttempts \<and> current latest d \<and> (dl_unclaimed d \<or> sendable latest n d))"

definition log_ok :: "chan_notifier \<Rightarrow> bool" where
  "log_ok n \<longleftrightarrow> (\<forall>i. sends n i \<le> maxNotifyAttempts \<and> accepts n i \<le> 1 \<and> (i \<notin> set (nt_rows n) \<longrightarrow> sends n i = 0))"

definition nt_ok :: "(string \<Rightarrow> alert option) \<Rightarrow> delivery list \<Rightarrow> chan_notifier \<Rightarrow> bool" where
  "nt_ok latest ds n \<longleftrightarrow> queue_ok latest n (ds @ nt_pending n) \<and> log_ok n"

text \<open>What an operation adds to the log is of the alerts notified last.\<close>

definition logs :: "(string \<Rightarrow> alert option) \<Rightarrow> chan_notifier \<Rightarrow> chan_notifier \<Rightarrow> bool" where
  "logs latest n n' \<longleftrightarrow> (\<exists>new. nt_log n' = nt_log n @ new \<and> (\<forall>e \<in> set new. current latest (fst e)))"

lemma logs_refl [simp]: "logs latest n n"
  by (simp add: logs_def)

lemma logs_trans: "logs latest a b \<Longrightarrow> logs latest b c \<Longrightarrow> logs latest a c"
  unfolding logs_def by (metis (no_types, lifting) Un_iff append.assoc set_append)

lemma same_log:
  assumes "nt_log n' = nt_log n"
  shows "sends n' i = sends n i" "accepts n' i = accepts n i" "logs latest n n'"
  using assms by (simp_all add: sends_def accepts_def logs_def)

lemma queue_ok_sub:
  assumes "queue_ok latest n ds" and "mset es \<subseteq># mset ds"
  shows "queue_ok latest n es"
proof -
  have "mset (map dl_id (claimed es)) \<subseteq># mset (map dl_id (claimed ds))"
    using assms(2) by (simp add: image_mset_subseteq_mono multiset_filter_mono)
  then have "distinct (map dl_id (claimed es))"
    using assms(1) unfolding queue_ok_def by (metis distinct_append mset_eq_imp_distinct_iff mset_append subset_mset.add_diff_inverse ex_mset)
  moreover have "set es \<subseteq> set ds" using assms(2) by (metis set_mset_mono set_mset_mset)
  ultimately show ?thesis using assms(1) by (auto simp: queue_ok_def)
qed

lemma queue_ok_frame:
  assumes "queue_ok latest n ds" and "nt_log n' = nt_log n" and "set (nt_rows n) \<subseteq> set (nt_rows n')"
  shows "queue_ok latest n' ds"
proof -
  have "sendable latest n' d" if "sendable latest n d" for d
    using that assms(3) same_log [OF assms(2)] by (auto simp: sendable_def)
  then show ?thesis using assms(1) by (auto simp: queue_ok_def)
qed

lemma failedIn_simps [simp]:
  "dl_id (d\<lparr>dl_failedIn := p\<rparr>) = dl_id d" "sendable latest n (d\<lparr>dl_failedIn := p\<rparr>) = sendable latest n d"
  "current latest (d\<lparr>dl_failedIn := p\<rparr>) = current latest d"
  by (simp_all add: sendable_def current_def dl_id_def)

lemma queue_ok_cons:
  "queue_ok latest n (d # ds) \<longleftrightarrow> queue_ok latest n ds \<and>
     dl_attempts d < maxNotifyAttempts \<and> current latest d \<and>
     (dl_unclaimed d \<or> sendable latest n d \<and> dl_id d \<notin> dl_id ` set (claimed ds))"
  by (auto simp: queue_ok_def simp del: set_filter)

lemma queue_ok_perm: "mset es = mset ds \<Longrightarrow> queue_ok latest n ds \<Longrightarrow> queue_ok latest n es"
  by (erule queue_ok_sub) simp

section \<open>Steps\<close>

lemma keep_ok:
  assumes "queue_ok latest n (d # ds @ nt_pending n)" and "log_ok n"
  shows "nt_ok latest ds (keep_delivery d n)"
proof -
  have fr: "nt_log (keep_delivery d n) = nt_log n" "nt_rows (keep_delivery d n) = nt_rows n"
    by (simp_all add: keep_delivery_def)
  then have l: "log_ok (keep_delivery d n)" using assms(2) same_log(1,2) [OF fr(1)] by (simp add: log_ok_def)
  let ?d = "d\<lparr>dl_failedIn := nt_passes n\<rparr>"
  have "queue_ok latest n (ds @ nt_pending (keep_delivery d n))"
  proof (cases "maxNotifyAttempts \<le> dl_attempts d")
    case True
    then show ?thesis using queue_ok_sub [OF assms(1), of "ds @ nt_pending n"] by (simp add: keep_delivery_def)
  next
    case False
    have "queue_ok latest n (?d # ds @ nt_pending n)"
      using assms(1) by (simp add: queue_ok_cons del: set_filter set_append filter_append)
    then have "queue_ok latest n (ds @ nt_pending n @ [?d])" by (rule queue_ok_perm [rotated]) simp
    then show ?thesis using False by (simp add: keep_delivery_def)
  qed
  from queue_ok_frame [OF this fr(1)] l fr(2) show ?thesis by (simp add: nt_ok_def)
qed

lemma nt_fail_simps [simp]:
  "nt_ok latest ds (nt_fail err n) = nt_ok latest ds n" "logs latest n (nt_fail err n') = logs latest n n'"
  "nt_pending (nt_fail err n) = nt_pending n" "nt_log (nt_fail err n) = nt_log n" "nt_rows (nt_fail err n) = nt_rows n"
  "nt_passes (nt_fail err n) = nt_passes n" "nt_channels (nt_fail err n) = nt_channels n"
  by (simp_all add: nt_fail_def nt_ok_def logs_def queue_ok_def log_ok_def sendable_def sends_def accepts_def)

lemma deliver_ok:
  assumes q: "queue_ok latest n (d # ds @ nt_pending n)" and l: "log_ok n" and c: "\<not> dl_unclaimed d"
  shows "nt_ok latest ds (deliver io d n)" "logs latest n (deliver io d n)"
proof -
  have "nt_ok latest ds (deliver io d n) \<and> logs latest n (deliver io d n)"
  proof (cases "ni_done io (nt_calls n)")
    case True
    have "nt_log (keep_delivery d n) = nt_log n" by (simp add: keep_delivery_def)
    then show ?thesis using True keep_ok [OF q l] same_log(3) by (simp add: deliver_def)
  next
    case False
    define ok where "ok \<longleftrightarrow> ni_send io (nt_calls n) = None"
    define n1 where "n1 = n\<lparr>nt_log := nt_log n @ [(d, ok)], nt_calls := nt_calls n + 2\<rparr>"
    have s: "sendable latest n d" using q c by (simp add: queue_ok_def)
    have cnt: "sends n1 i = sends n i + (if i = dl_id d then 1 else 0)"
      "accepts n1 i = accepts n i + (if i = dl_id d \<and> ok then 1 else 0)" for i
      by (auto simp: n1_def sends_def accepts_def)
    have rows1: "nt_rows n1 = nt_rows n" by (simp add: n1_def)
    have l1: "log_ok n1"
      unfolding log_ok_def
    proof (intro allI)
      fix i
      have li: "sends n i \<le> maxNotifyAttempts \<and> accepts n i \<le> 1 \<and> (i \<notin> set (nt_rows n) \<longrightarrow> sends n i = 0)"
        using l unfolding log_ok_def by blast
      show "sends n1 i \<le> maxNotifyAttempts \<and> accepts n1 i \<le> 1 \<and> (i \<notin> set (nt_rows n1) \<longrightarrow> sends n1 i = 0)"
        using li s unfolding cnt sendable_def rows1 by (cases "i = dl_id d") auto
    qed
    have lg: "logs latest n n1" using s by (simp add: logs_def n1_def sendable_def)
    have other: "dl_id e \<noteq> dl_id d" if "e \<in> set (claimed (ds @ nt_pending n))" for e
    proof -
      have "dl_id d \<notin> set (map dl_id (claimed (ds @ nt_pending n)))" using q c by (simp add: queue_ok_def)
      moreover have "dl_id e \<in> set (map dl_id (claimed (ds @ nt_pending n)))" using that by (auto intro: rev_image_eqI)
      ultimately show ?thesis by metis
    qed
    have q1: "queue_ok latest n1 (ds @ nt_pending n)"
      unfolding queue_ok_def
    proof (intro conjI ballI)
      show "distinct (map dl_id (claimed (ds @ nt_pending n)))" using q c by (simp add: queue_ok_def)
      fix e assume e: "e \<in> set (ds @ nt_pending n)"
      show "dl_attempts e < maxNotifyAttempts" "current latest e" using q e by (auto simp: queue_ok_def)
      show "dl_unclaimed e \<or> sendable latest n1 e"
      proof (cases "dl_unclaimed e")
        case True
        then show ?thesis ..
      next
        case False
        then have "sendable latest n e" "dl_id e \<noteq> dl_id d" using q e other [of e] by (auto simp: queue_ok_def)
        then show ?thesis by (simp add: sendable_def cnt rows1)
      qed
    qed
    show ?thesis
    proof (cases "ni_send io (nt_calls n)")
      case None
      then have "nt_ok latest ds n1" using q1 l1 by (simp add: nt_ok_def n1_def)
      then show ?thesis using None False lg
        by (simp add: deliver_def Let_def n1_def ok_def split: option.split)
    next
      case (Some err)
      define d1 where "d1 = d\<lparr>dl_attempts := dl_attempts d + 1\<rparr>"
      have "nt_ok latest ds (keep_delivery d1 n1)"
      proof (cases "maxNotifyAttempts \<le> dl_attempts d1")
        case True
        then show ?thesis using q1 l1 by (simp add: keep_delivery_def nt_ok_def n1_def)
      next
        case small: False
        have "sendable latest n1 d1"
          using s Some small by (simp add: sendable_def d1_def cnt dl_id_def current_def ok_def rows1)
        moreover have "dl_id d1 = dl_id d" "\<not> dl_unclaimed d1" "dl_attempts d1 < maxNotifyAttempts" "current latest d1"
          using c s small by (simp_all add: d1_def dl_id_def sendable_def current_def)
        ultimately have "queue_ok latest n1 (d1 # ds @ nt_pending n1)"
          using q q1 c by (simp add: queue_ok_def n1_def)
        then show ?thesis by (rule keep_ok [OF _ l1])
      qed
      moreover have "nt_log (keep_delivery d1 n1) = nt_log n1" by (simp add: keep_delivery_def)
      then have "logs latest n (keep_delivery d1 n1)" using lg by (simp add: logs_def)
      ultimately show ?thesis using Some False by (simp add: deliver_def Let_def n1_def d1_def ok_def)
    qed
  qed
  then show "nt_ok latest ds (deliver io d n)" "logs latest n (deliver io d n)" by simp_all
qed


lemma claim_frame:
  assumes "claim io d n = (n1, d1, res)"
  shows "nt_log n1 = nt_log n" "nt_pending n1 = nt_pending n" "nt_channels n1 = nt_channels n" "set (nt_rows n) \<subseteq> set (nt_rows n1)"
    "dl_unclaimed d1 = dl_unclaimed d" "current latest d1 = current latest d"
    "res = Inr won \<Longrightarrow> d1 = d \<and> dl_id d \<in> set (nt_rows n1) \<and> (won \<longrightarrow> dl_id d \<notin> set (nt_rows n))"
  using assms by (auto simp: claim_def Let_def current_def List.insert_def split: if_splits claim_answer.splits)

lemma log_ok_frame:
  assumes "log_ok n" and "nt_log n' = nt_log n" and "set (nt_rows n) \<subseteq> set (nt_rows n')"
  shows "log_ok n'"
  using assms same_log(1,2) [OF assms(2)] unfolding log_ok_def by (metis in_mono)

lemma nt_ok_frame:
  assumes "nt_ok latest ds n" and "nt_log n' = nt_log n" and "nt_pending n' = nt_pending n" and "set (nt_rows n) \<subseteq> set (nt_rows n')"
  shows "nt_ok latest ds n'"
  using assms queue_ok_frame log_ok_frame unfolding nt_ok_def by metis

lemma keepUnclaimed_ok:
  assumes "nt_ok latest ds n" and "dl_unclaimed d" and "current latest d"
  shows "nt_ok latest ds (keepUnclaimed d n)" "logs latest n (keepUnclaimed d n)"
proof -
  have "nt_ok latest ds (n\<lparr>nt_undelivered := nt_undelivered n + 1\<rparr>)" by (rule nt_ok_frame [OF assms(1)]) simp_all
  moreover have "nt_ok latest ds (keep_delivery d n)" if "dl_attempts d < maxNotifyAttempts"
    using assms that by (intro keep_ok) (simp_all add: nt_ok_def queue_ok_cons)
  ultimately show "nt_ok latest ds (keepUnclaimed d n)" by (simp add: keepUnclaimed_def giveUp_def)
  show "logs latest n (keepUnclaimed d n)"
    by (rule same_log(3)) (simp add: keepUnclaimed_def giveUp_def keep_delivery_def)
qed

text \<open>A claim that is won is of a delivery no other waiting one has, so it may be sent.\<close>

lemma won_ok:
  assumes ok: "nt_ok latest ds n" and c: "claim io d n = (n1, d1, Inr True)"
    and a: "dl_attempts d < maxNotifyAttempts" "current latest d"
    and e: "dl_id e = dl_id d" "\<not> dl_unclaimed e" "dl_attempts e = dl_attempts d" "dl_alert e = dl_alert d"
  shows "nt_ok latest ds (deliver io e n1)" "logs latest n (deliver io e n1)"
proof -
  note fr = claim_frame [OF c]
  have new: "dl_id d \<notin> set (nt_rows n)" "dl_id d \<in> set (nt_rows n1)" using fr(7) by auto
  have ok1: "nt_ok latest ds n1" by (rule nt_ok_frame [OF ok fr(1,2,4)])
  have z: "sends n1 (dl_id d) = 0" using ok new(1) same_log [OF fr(1)] unfolding nt_ok_def log_ok_def by metis
  then have z': "accepts n1 (dl_id d) = 0" by (auto simp: sends_def accepts_def filter_empty_conv)
  have "\<forall>f \<in> set (claimed (ds @ nt_pending n)). dl_id f \<in> set (nt_rows n)"
    using ok by (auto simp: nt_ok_def queue_ok_def sendable_def)
  then have "dl_id e \<notin> dl_id ` set (claimed (ds @ nt_pending n1))" using new(1) e(1) unfolding fr(2) by (metis imageE)
  moreover have "sendable latest n1 e" using z z' new(2) a e by (simp add: sendable_def current_def)
  ultimately have q: "queue_ok latest n1 (e # ds @ nt_pending n1)"
    using ok1 e(2) by (simp add: nt_ok_def queue_ok_cons sendable_def del: set_filter set_append filter_append)
  have l: "log_ok n1" using ok1 by (simp add: nt_ok_def)
  show "nt_ok latest ds (deliver io e n1)" by (rule deliver_ok(1) [OF q l e(2)])
  show "logs latest n (deliver io e n1)"
    using deliver_ok(2) [OF q l e(2), of io] fr(1) by (simp add: logs_def)
qed

lemma notify_channel_ok:
  assumes ok: "nt_ok latest [] n" and a: "latest (al_key a) = Some a"
  shows "nt_ok latest [] (notify_channel fmt io a ch n)" "logs latest n (notify_channel fmt io a ch n)"
proof -
  define d where "d = \<lparr>dl_dedup = dedupID fmt a, dl_channel = ch, dl_phase = phase_text a, dl_message = None, dl_unclaimed = False,
    dl_alert = a, dl_attempts = 0, dl_failedIn = 0\<rparr>"
  obtain n1 d1 res where c: "claim io d n = (n1, d1, res)" by (metis prod.exhaust)
  note fr = claim_frame [OF c]
  have cur: "current latest d" using a by (simp add: d_def current_def)
  have ok1: "nt_ok latest [] n1" by (rule nt_ok_frame [OF ok fr(1,2,4)])
  have eq: "notify_channel fmt io a ch n =
      (case res of
         Inl err \<Rightarrow> keepUnclaimed (d1\<lparr>dl_unclaimed := True\<rparr>) (nt_fail err n1)
       | Inr won \<Rightarrow> if won then deliver io (d1\<lparr>dl_message := Some (newMessage fmt a (phase_text a))\<rparr>) n1 else n1)"
    using c by (simp add: notify_channel_def d_def [symmetric])
  have "nt_ok latest [] (notify_channel fmt io a ch n) \<and> logs latest n (notify_channel fmt io a ch n)"
  proof (cases res)
    case (Inl err)
    let ?d = "d1\<lparr>dl_unclaimed := True\<rparr>"
    have "current latest ?d" using cur fr(6) by (simp add: current_def)
    then have "nt_ok latest [] (keepUnclaimed ?d (nt_fail err n1))" "logs latest (nt_fail err n1) (keepUnclaimed ?d (nt_fail err n1))"
      using ok1 by (auto intro: keepUnclaimed_ok)
    then show ?thesis using Inl eq fr(1) by (simp add: logs_def)
  next
    case (Inr won)
    show ?thesis
    proof (cases won)
      case True
      have d1: "d1 = d" using fr(7) [OF Inr] by simp
      let ?e = "d1\<lparr>dl_message := Some (newMessage fmt a (phase_text a))\<rparr>"
      have "nt_ok latest [] (deliver io ?e n1) \<and> logs latest n (deliver io ?e n1)"
        using won_ok [OF ok, of io d n1 d1 ?e] c Inr True cur d1 by (simp add: d_def dl_id_def maxNotifyAttempts_def)
      then show ?thesis using Inr True eq by simp
    next
      case False
      then show ?thesis using Inr eq ok1 fr(1) same_log(3) by simp
    qed
  qed
  then show "nt_ok latest [] (notify_channel fmt io a ch n)" "logs latest n (notify_channel fmt io a ch n)" by simp_all
qed

lemma retry_one_ok:
  assumes ok: "nt_ok latest (d # ds) n"
  shows "nt_ok latest ds (retry_one fmt io d n)" "logs latest n (retry_one fmt io d n)"
proof -
  have rest: "nt_ok latest ds n" and q: "queue_ok latest n (d # ds @ nt_pending n)" and l: "log_ok n"
    using ok by (simp_all add: nt_ok_def queue_ok_cons)
  have "nt_ok latest ds (retry_one fmt io d n) \<and> logs latest n (retry_one fmt io d n)"
  proof (cases "dl_unclaimed d")
    case False
    then show ?thesis using deliver_ok [OF q l False, of io] by (simp add: retry_one_def)
  next
    case u: True
    have a: "dl_attempts d < maxNotifyAttempts" "current latest d" using q u by (simp_all add: queue_ok_cons)
    obtain n1 d1 res where c: "claim io d n = (n1, d1, res)" by (metis prod.exhaust)
    note fr = claim_frame [OF c]
    have ok1: "nt_ok latest ds n1" by (rule nt_ok_frame [OF rest fr(1,2,4)])
    show ?thesis
    proof (cases res)
      case (Inl err)
      have "nt_ok latest ds (keepUnclaimed d1 (nt_fail err n1))" "logs latest (nt_fail err n1) (keepUnclaimed d1 (nt_fail err n1))"
        using ok1 u a(2) fr(5,6) by (auto intro: keepUnclaimed_ok)
      then show ?thesis using Inl u c fr(1) by (simp add: retry_one_def logs_def)
    next
      case (Inr won)
      show ?thesis
      proof (cases won)
        case True
        have d1: "d1 = d" using fr(7) [OF Inr] by simp
        let ?e = "d1\<lparr>dl_unclaimed := False, dl_message := Some (newMessage fmt (dl_alert d1) (dl_phase d1))\<rparr>"
        have "nt_ok latest ds (deliver io ?e n1) \<and> logs latest n (deliver io ?e n1)"
          using won_ok [OF rest, of io d n1 d1 ?e] c Inr True a d1 by (simp add: dl_id_def)
        then show ?thesis using Inr True u c by (simp add: retry_one_def)
      next
        case False
        have "nt_ok latest ds (giveUp d1 r n1)" for r
          unfolding giveUp_def nt_fail_simps by (rule nt_ok_frame [OF ok1]) simp_all
        moreover have "logs latest n (giveUp d1 r n1)" for r by (rule same_log(3)) (simp add: giveUp_def fr(1))
        ultimately show ?thesis using Inr False u c by (simp add: retry_one_def)
      qed
    qed
  qed
  then show "nt_ok latest ds (retry_one fmt io d n)" "logs latest n (retry_one fmt io d n)" by simp_all
qed


section \<open>Runs\<close>

datatype nt_call = NNotify alert notify_io | NRetry notify_io | NSettle "alert list"

fun nt_step :: "(time \<Rightarrow> string) \<Rightarrow> nt_call \<Rightarrow> chan_notifier \<Rightarrow> chan_notifier" where
  "nt_step fmt (NNotify a io) n = notify fmt io a n"
| "nt_step fmt (NRetry io) n = retry fmt io n"
| "nt_step fmt (NSettle firing_now) n = settle firing_now n"

definition nt_run :: "(time \<Rightarrow> string) \<Rightarrow> nt_call list \<Rightarrow> chan_notifier \<Rightarrow> chan_notifier" where
  "nt_run fmt cs n = foldl (\<lambda>n c. nt_step fmt c n) n cs"

fun noted :: "nt_call \<Rightarrow> (string \<Rightarrow> alert option) \<Rightarrow> string \<Rightarrow> alert option" where
  "noted (NNotify a io) latest = latest(al_key a \<mapsto> a)"
| "noted _ latest = latest"

definition latest :: "nt_call list \<Rightarrow> string \<Rightarrow> alert option" where
  "latest cs = foldl (\<lambda>l c. noted c l) Map.empty cs"

lemma drop_ok:
  assumes "nt_ok l [] n"
  shows "nt_ok l [] (dropPending f n)" "nt_log (dropPending f n) = nt_log n"
proof -
  have "queue_ok l n (filter (\<lambda>d. \<not> f d) (nt_pending n))"
    by (rule queue_ok_sub [of _ _ "nt_pending n"]) (use assms in \<open>simp_all add: nt_ok_def\<close>)
  then show "nt_ok l [] (dropPending f n)"
    using assms queue_ok_frame [of l n _ "dropPending f n"] log_ok_frame [of n "dropPending f n"]
    by (simp add: nt_ok_def dropPending_def)
qed (simp add: dropPending_def)

lemma notify_keeps_ok:
  assumes "nt_ok l [] n"
  shows "nt_ok (l(al_key a \<mapsto> a)) [] (notify fmt io a n)" "logs (l(al_key a \<mapsto> a)) n (notify fmt io a n)"
proof -
  let ?l = "l(al_key a \<mapsto> a)" and ?f = "\<lambda>d. al_key (dl_alert d) = al_key a"
  let ?n = "dropPending ?f n"
  have "\<forall>d \<in> set (nt_pending ?n). current ?l d = current l d \<and> sendable ?l ?n d = sendable l ?n d"
    by (simp add: dropPending_def current_def sendable_def)
  then have ok: "nt_ok ?l [] ?n" using drop_ok(1) [OF assms, of ?f] by (auto simp: nt_ok_def queue_ok_def)
  have "nt_ok ?l [] (foldl (\<lambda>n ch. notify_channel fmt io a ch n) m chs) \<and> logs ?l m (foldl (\<lambda>n ch. notify_channel fmt io a ch n) m chs)"
    if "nt_ok ?l [] m" for m chs
    using that
  proof (induction chs arbitrary: m)
    case (Cons ch chs)
    have *: "nt_ok ?l [] (notify_channel fmt io a ch m)" "logs ?l m (notify_channel fmt io a ch m)"
      by (rule notify_channel_ok [OF Cons.prems], simp)+
    show ?case unfolding foldl.simps using Cons.IH [OF *(1)] logs_trans [OF *(2)] by blast
  qed simp
  from this [OF ok, of "nt_channels n"] drop_ok(2) [OF assms, of ?f]
  show "nt_ok ?l [] (notify fmt io a n)" "logs ?l n (notify fmt io a n)"
    by (simp_all add: notify_def logs_def)
qed

lemma retry_ok:
  assumes "nt_ok l [] n"
  shows "nt_ok l [] (retry fmt io n)" "logs l n (retry fmt io n)"
proof -
  have loop: "nt_ok l [] (foldl (\<lambda>n d. retry_one fmt io d n) m ds) \<and> logs l m (foldl (\<lambda>n d. retry_one fmt io d n) m ds)"
    if "nt_ok l ds m" for m ds
    using that
  proof (induction ds arbitrary: m)
    case (Cons d ds)
    from Cons.IH [OF retry_one_ok(1) [OF Cons.prems, of fmt io]] logs_trans [OF retry_one_ok(2) [OF Cons.prems, of fmt io]]
    show ?case by simp
  qed simp
  define due where "due = filter (\<lambda>d. dl_failedIn d < nt_passes n) (nt_pending n)"
  define n1 where "n1 = n\<lparr>nt_pending := filter (\<lambda>d. \<not> dl_failedIn d < nt_passes n) (nt_pending n)\<rparr>"
  define n2 where "n2 = foldl (\<lambda>n d. retry_one fmt io d n) n1 due"
  have "queue_ok l n (due @ nt_pending n1)"
    by (rule queue_ok_perm [of _ "nt_pending n"]) (use assms in \<open>simp_all add: nt_ok_def due_def n1_def flip: multiset_partition\<close>)
  then have "nt_ok l due n1"
    using assms queue_ok_frame [of l n _ n1] log_ok_frame [of n n1] by (simp add: nt_ok_def n1_def)
  from loop [OF this] have 2: "nt_ok l [] n2" "logs l n n2" by (simp_all add: n2_def n1_def logs_def)
  have eq: "retry fmt io n = n2\<lparr>nt_passes := nt_passes n2 + 1\<rparr>"
    by (simp add: retry_def Let_def n2_def n1_def due_def)
  show "nt_ok l [] (retry fmt io n)" unfolding eq by (rule nt_ok_frame [OF 2(1)]) simp_all
  show "logs l n (retry fmt io n)" using 2(2) by (simp add: eq logs_def)
qed

lemma nt_step_ok:
  assumes "nt_ok l [] n"
  shows "nt_ok (noted c l) [] (nt_step fmt c n)" "logs (noted c l) n (nt_step fmt c n)"
  using assms drop_ok [OF assms] same_log(3) [of "nt_step fmt c n" n]
  by (cases c; simp add: notify_keeps_ok retry_ok settle_def)+

lemma nt_run_ok: "nt_ok (latest cs) [] (nt_run fmt cs (newChannelNotifier chans rows))"
proof (induction cs rule: rev_induct)
  case Nil
  show ?case
    by (simp add: nt_ok_def queue_ok_def log_ok_def sends_def accepts_def nt_run_def newChannelNotifier_def)
next
  case (snoc c cs)
  from nt_step_ok(1) [OF snoc] show ?case by (simp add: nt_run_def latest_def)
qed

text \<open>
  C30. At most once. Over any run of notifications, retries and settlements of one process, in which claims,
  sends and writes fail or lose their answers at any point and the deadline passes at any point, a
  channel accepts a phase of an episode at most once, and is asked for it at most five times.
\<close>

theorem delivered_at_most_once:
  "accepts (nt_run fmt cs (newChannelNotifier chans rows)) i \<le> 1 \<and>
   sends (nt_run fmt cs (newChannelNotifier chans rows)) i \<le> maxNotifyAttempts"
  using nt_run_ok [of cs fmt chans rows] by (cases i) (simp add: nt_ok_def log_ok_def)

text \<open>
  C31. No stale page. In any run, whatever a call of the notifier sends is the transition notified last
  for its alert: a firing alert that a channel refused is never sent after the resolution that followed.
\<close>

theorem sends_are_current:
  "\<exists>new. nt_log (nt_run fmt (cs @ [c]) (newChannelNotifier chans rows)) = nt_log (nt_run fmt cs (newChannelNotifier chans rows)) @ new \<and>
     list_all (\<lambda>(d, accepted). latest (cs @ [c]) (al_key (dl_alert d)) = Some (dl_alert d)) new"
  using nt_step_ok(2) [OF nt_run_ok [of cs fmt chans rows], of c fmt]
  by (simp add: logs_def nt_run_def latest_def current_def list_all_iff split_beta)

text \<open>
  What may become of a delivery that is tried: the channel accepts it; or an error is reported, and it
  waits for a later pass with at most one more attempt used, or its last send failed, or it is counted
  as undelivered.
\<close>

definition accounted :: "delivery \<Rightarrow> chan_notifier \<Rightarrow> chan_notifier \<Rightarrow> bool" where
  "accounted d n n' \<longleftrightarrow>
     (\<exists>m. nt_log n' = nt_log n @ [(m, True)] \<and> dl_id m = dl_id d) \<or>
     nt_errs n' \<noteq> nt_errs n \<and>
       ((\<exists>e. nt_pending n' = nt_pending n @ [e] \<and> dl_id e = dl_id d \<and> dl_alert e = dl_alert d \<and>
            dl_attempts e \<le> dl_attempts d + 1 \<and> dl_attempts e < maxNotifyAttempts \<and> dl_failedIn e = nt_passes n) \<or>
        (\<exists>m. nt_log n' = nt_log n @ [(m, False)] \<and> dl_id m = dl_id d \<and> dl_attempts m + 1 = maxNotifyAttempts) \<or>
        nt_undelivered n' = nt_undelivered n + 1)"

lemma keep_simps:
  "nt_log (keep_delivery d n) = nt_log n" "nt_errs (keep_delivery d n) = nt_errs n"
  "nt_undelivered (keep_delivery d n) = nt_undelivered n"
  "dl_attempts d < maxNotifyAttempts \<Longrightarrow> nt_pending (keep_delivery d n) = nt_pending n @ [d\<lparr>dl_failedIn := nt_passes n\<rparr>]"
  by (simp_all add: keep_delivery_def)

lemma deliver_accounted:
  assumes "dl_attempts d < maxNotifyAttempts"
  shows "accounted d n (deliver io d n)"
proof (cases "ni_done io (nt_calls n) \<or> ni_send io (nt_calls n) = None")
  case True
  then show ?thesis
    using assms by (auto simp: accounted_def deliver_def keep_simps nt_fail_def Let_def split: option.split)
next
  case False
  then obtain err where err: "ni_send io (nt_calls n) = Some err" by auto
  show ?thesis
  proof (cases "dl_attempts d + 1 < maxNotifyAttempts")
    case True
    then show ?thesis
      using False err by (simp add: accounted_def deliver_def dl_id_def keep_simps nt_fail_def Let_def)
  next
    case last_one: False
    then have "dl_attempts d + 1 = maxNotifyAttempts" using assms by simp
    then show ?thesis
      using False err by (simp add: accounted_def deliver_def keep_simps nt_fail_def Let_def)
  qed
qed

lemma claim_errs:
  assumes "claim io d n = (n1, d1, res)"
  shows "nt_errs n1 = nt_errs n" "nt_undelivered n1 = nt_undelivered n" "nt_passes n1 = nt_passes n"
    "dl_id d1 = dl_id d" "dl_alert d1 = dl_alert d" "dl_attempts d1 \<le> dl_attempts d + 1"
  using assms by (auto simp: claim_def Let_def dl_id_def split: if_splits claim_answer.splits)

lemma accounted_frame:
  assumes "accounted e n1 n'" and "dl_id e = dl_id d" and "dl_alert e = dl_alert d" and "dl_attempts e = dl_attempts d"
    and "nt_log n1 = nt_log n" and "nt_pending n1 = nt_pending n" and "nt_errs n1 = nt_errs n"
    and "nt_undelivered n1 = nt_undelivered n" and "nt_passes n1 = nt_passes n"
  shows "accounted d n n'"
  using assms by (simp add: accounted_def)

text \<open>
  C32. No delivery is lost in silence. A retry of a delivery ends with the channel accepting it, or it
  reports an error, and then the delivery waits for a later pass with at most one more attempt used, or
  its last attempt was the send that failed, or it is counted as undelivered.
\<close>

theorem retry_never_silent:
  assumes "dl_attempts d < maxNotifyAttempts"
  shows "accounted d n (retry_one fmt io d n)"
proof (cases "dl_unclaimed d")
  case False
  then show ?thesis using deliver_accounted [OF assms] by (simp add: retry_one_def)
next
  case True
  obtain n1 d1 res where c: "claim io d n = (n1, d1, res)" by (metis prod.exhaust)
  note fr = claim_frame [OF c] claim_errs [OF c]
  show ?thesis
  proof (cases res)
    case (Inl err)
    then show ?thesis
      using True c fr by (simp add: retry_one_def keepUnclaimed_def keep_simps accounted_def nt_fail_def giveUp_def)
  next
    case (Inr won)
    have d1: "d1 = d" using fr(7) [OF Inr] by simp
    show ?thesis
    proof (cases won)
      case won: True
      let ?e = "d1\<lparr>dl_unclaimed := False, dl_message := Some (newMessage fmt (dl_alert d1) (dl_phase d1))\<rparr>"
      have "accounted d n (deliver io ?e n1)"
        by (rule accounted_frame [OF deliver_accounted]) (use fr d1 assms in \<open>simp_all add: dl_id_def\<close>)
      then show ?thesis using True Inr won c by (simp add: retry_one_def)
    next
      case False
      then show ?thesis using True Inr c fr by (simp add: retry_one_def accounted_def giveUp_def nt_fail_def)
    qed
  qed
qed

definition page_io :: "string option \<Rightarrow> notify_io" where
  "page_io send_err = \<lparr>ni_done = (\<lambda>_. False), ni_claim = (\<lambda>_. ClaimAnswers), ni_send = (\<lambda>_. send_err), ni_mark = (\<lambda>_. None)\<rparr>"

definition down_delivery :: delivery where
  "down_delivery = \<lparr>dl_dedup = ''agent_down'', dl_channel = ''slack'', dl_phase = ''fire'', dl_message = None, dl_unclaimed = True,
     dl_alert = new_alert down_rule (down_sample second (Fin 0)) second second, dl_attempts = 4, dl_failedIn = 0\<rparr>"

lemma retry_never_silent_witness:
  "accounted down_delivery (newChannelNotifier [''slack''] []) (retry_one (\<lambda>_. ''t'') (page_io (Some ''refused'')) down_delivery (newChannelNotifier [''slack''] []))
   \<and> length (nt_log (retry_one (\<lambda>_. ''t'') (page_io (Some ''refused'')) down_delivery (newChannelNotifier [''slack''] []))) = 1"
  using retry_never_silent [of down_delivery "newChannelNotifier [''slack''] []" "\<lambda>_. ''t''" "page_io (Some ''refused'')"]
  by (simp add: down_delivery_def maxNotifyAttempts_def retry_one_def claim_def deliver_def page_io_def newChannelNotifier_def
      Let_def nt_fail_def keep_delivery_def)

end
