(* ===== verification/Alert_Notify.thy ===== *)
theory Alert_Notify
  imports Alert_Inv Notifier_Inv "HOL-Library.Sublist"
begin

text \<open>
  The alert engine with the notifier it is run with. What the engine relies on of a notifier is the locale
  \<open>alert_notifier\<close>: a property of the alerts notified so far and the notifier's state that its two operations
  keep. Every pass of the engine then keeps it. The interpretation is the notifier of
  \<^verbatim>\<open>notifier.go\<close>, and the property is the order in which the channels see the transitions of an alert.
\<close>

section \<open>The interface\<close>

locale alert_notifier =
  fixes nf :: "'n notifier_ops" and inv :: "alert list \<Rightarrow> 'n \<Rightarrow> bool"
  assumes notify_keeps: "inv pages n \<Longrightarrow> inv (pages @ [a]) (fst (nf_notify nf a n))"
    and retry_keeps: "nf_retry nf = Some f \<Longrightarrow> inv pages n \<Longrightarrow> inv pages (fst (f firing_now n))"
begin

definition holds :: "'n alert_engine \<Rightarrow> bool" where
  "holds s \<longleftrightarrow> (\<exists>n. en_notif s = Some n \<and> inv (en_pages s) n)"

lemma holds_upd [simp]:
  "holds (s\<lparr>en_eval := e\<rparr>) = holds s" "holds (s\<lparr>en_errs := es\<rparr>) = holds s" "holds (s\<lparr>en_calls := c\<rparr>) = holds s"
  "holds (s\<lparr>en_table := tbl\<rparr>) = holds s" "holds (s\<lparr>en_conn := b\<rparr>) = holds s" "holds (s\<lparr>en_hasLock := b\<rparr>) = holds s"
  "holds (s\<lparr>en_loaded := b\<rparr>) = holds s" "holds (s\<lparr>en_purgedAt := t\<rparr>) = holds s" "holds (add_err err s) = holds s"
  by (simp_all add: holds_def add_err_def)

lemma notify_alert_holds: "holds s \<Longrightarrow> holds (notify_alert nf a s)"
  using notify_keeps by (auto simp: notify_alert_def holds_def add_err_def split: option.split prod.split) (metis fst_conv)+

lemma publish_holds: "holds s \<Longrightarrow> holds (publish io nf silences now prev a s)"
  by (auto simp: publish_def Let_def notify_alert_holds split: option.split)

lemma refresh_holds: "holds s \<Longrightarrow> holds (refresh io a s)"
  by (auto simp: refresh_def split: option.split)

lemma close_one_holds: "holds s \<Longrightarrow> holds (close_one io nf silences now key s)"
  by (auto simp: close_one_def Let_def publish_holds split: prod.split option.split transition.split)

lemma endUnsampled_holds:
  assumes "holds s"
  shows "holds (endUnsampled io nf srcs rl silences now as s)"
proof -
  have "holds (foldl (\<lambda>s a. close_one io nf silences now (al_key a) s) t cl)" if "holds t" for t cl
    using that by (induction cl arbitrary: t) (simp_all add: close_one_holds)
  then show ?thesis using assms by (auto simp: endUnsampled_def split: option.split sum.split)
qed

lemma handle_sample_holds: "holds s \<Longrightarrow> holds (fst (handle_sample io nf silences now r x s))"
  by (auto simp: handle_sample_def Let_def publish_holds refresh_holds split: prod.split option.split)

lemma handle_samples_holds: "holds s \<Longrightarrow> holds (fst (handle_samples io nf silences now r xs s))"
proof (induction xs arbitrary: s)
  case (Cons x xs)
  obtain s1 stop where 1: "handle_sample io nf silences now r x s = (s1, stop)" by fastforce
  then have "holds s1" using handle_sample_holds [OF Cons.prems] by (metis fst_conv)
  then show ?case using Cons.IH 1 by (cases stop) simp_all
qed simp

lemma handle_sources_holds: "holds s \<Longrightarrow> holds (fst (handle_sources io nf silences now r srcs observed failed s))"
proof (induction srcs arbitrary: s observed failed)
  case (Cons src srcs)
  show ?case
  proof (cases "serves r src")
    case serves: True
    show ?thesis
    proof (cases "src_samples src r now")
      case (Inl err)
      then show ?thesis using Cons serves by (simp add: Let_def)
    next
      case (Inr samples)
      obtain s1 stop where 1: "handle_samples io nf silences now r samples s = (s1, stop)" by fastforce
      then have "holds s1" using handle_samples_holds [OF Cons.prems] by (metis fst_conv)
      then show ?thesis using Cons.IH 1 Inr serves by (cases stop) simp_all
    qed
  qed (simp add: Cons)
qed simp

lemma handle_rules_holds: "holds s \<Longrightarrow> holds (fst (handle_rules io nf srcs silences now rs s))"
proof (induction rs arbitrary: s)
  case (Cons r rs)
  obtain s1 obs fl stop where 1: "handle_sources io nf silences now r srcs 0 False s = (s1, obs, fl, stop)" by (metis prod.exhaust)
  then have "holds s1" using handle_sources_holds [OF Cons.prems] by (metis fst_conv)
  then show ?case using Cons.IH 1 endUnsampled_holds by (cases stop) (simp_all add: Let_def)
qed simp

lemma purgeHistory_holds: "holds s \<Longrightarrow> holds (purgeHistory io now s)"
  by (auto simp: purgeHistory_def Let_def split: option.split)

lemma retry_deliveries_holds: "holds s \<Longrightarrow> holds (retry_deliveries nf s)"
  using retry_keeps
  by (auto simp: retry_deliveries_def holds_def add_err_def split: option.split prod.split) (metis fst_conv)+

lemma evaluate_pass_holds:
  assumes "holds s"
  shows "holds (evaluate_pass io nf srcs silences now rules s)"
proof -
  obtain s1 stop where 1: "handle_rules io nf srcs silences now rules s = (s1, stop)" by fastforce
  then have "holds s1" using handle_rules_holds [OF assms] by (metis fst_conv)
  then show ?thesis
    using 1 by (cases stop) (simp_all add: evaluate_pass_def Let_def endUnsampled_holds purgeHistory_holds retry_deliveries_holds)
qed

lemma ensureLeader_holds: "holds s \<Longrightarrow> holds (fst (ensureLeader io s))"
  by (auto simp: ensureLeader_def try_lock_def releaseLeaderConn_def Let_def split: option.split lock_answer.split)

lemma tick_holds:
  assumes "holds s"
  shows "holds (tick io nf srcs now s)"
proof -
  have "holds (s\<lparr>en_errs := [], en_calls := 0\<rparr>)" using assms by simp
  moreover obtain s1 err where 1: "ensureLeader (ti_lead io) (s\<lparr>en_errs := [], en_calls := 0\<rparr>) = (s1, err)" by fastforce
  ultimately have "holds s1" using ensureLeader_holds by (metis fst_conv)
  moreover from this have "holds (load_active now s1)" by (simp add: load_active_def)
  ultimately show ?thesis
    using 1 by (auto simp: tick_def Let_def evaluate_pass_holds split: option.split sum.split)
qed

end

section \<open>The channel notifier\<close>

fun joined :: "string list \<Rightarrow> string option" where
  "joined [] = None"
| "joined (err # errs) = Some (err @ (case joined errs of None \<Rightarrow> [] | Some rest \<Rightarrow> CHR 0x0A # rest))"

definition channel_ops :: "(time \<Rightarrow> string) \<Rightarrow> notify_io \<Rightarrow> chan_notifier notifier_ops" where
  "channel_ops fmt io =
     \<lparr>nf_notify = (\<lambda>a n. let n' = notify fmt io a (n\<lparr>nt_errs := []\<rparr>) in (n', joined (nt_errs n'))),
      nf_retry = Some (\<lambda>firing_now n. let n' = retry fmt io (settle firing_now (n\<lparr>nt_errs := []\<rparr>)) in (n', joined (nt_errs n')))\<rparr>"

definition last_page :: "alert list \<Rightarrow> string \<Rightarrow> alert option" where
  "last_page pages k = (let ps = filter (\<lambda>a. al_key a = k) pages in if ps = [] then None else Some (last ps))"

text \<open>The transitions of a key the channels were sent, one send after another of the same alert counted once.\<close>

definition seen_of :: "string \<Rightarrow> (delivery \<times> bool) list \<Rightarrow> alert list" where
  "seen_of k lg = remdups_adj (filter (\<lambda>a. al_key a = k) (map (\<lambda>e. dl_alert (fst e)) lg))"

definition in_order :: "alert list \<Rightarrow> chan_notifier \<Rightarrow> bool" where
  "in_order pages n \<longleftrightarrow> nt_ok (last_page pages) [] n \<and> (\<forall>k. subseq (seen_of k (nt_log n)) (filter (\<lambda>a. al_key a = k) pages))"

lemma last_page_snoc: "last_page (pages @ [a]) = (last_page pages)(al_key a \<mapsto> a)"
  by (auto simp: last_page_def fun_eq_iff Let_def)

lemma remdups_adj_snoc:
  "remdups_adj (xs @ [x]) = (if xs \<noteq> [] \<and> last xs = x then remdups_adj xs else remdups_adj xs @ [x])"
  by (induction xs rule: remdups_adj.induct) auto

lemma subseq_snoc_other:
  assumes "subseq xs (ys @ [y])" and "xs = [] \<or> last xs \<noteq> y"
  shows "subseq xs ys"
  using assms
proof (induction ys arbitrary: xs)
  case Nil
  then show ?case by (cases xs) (auto split: if_splits)
next
  case (Cons z ys)
  show ?case
  proof (cases xs)
    case xs: (Cons x xs')
    show ?thesis using Cons.prems Cons.IH [of xs] Cons.IH [of xs'] by (cases "x = z") (auto simp: xs split: if_splits)
  qed simp
qed

lemma seen_append:
  assumes "subseq (seen_of k lg) ps" and "\<forall>e \<in> set new. al_key (dl_alert (fst e)) = k \<longrightarrow> ps \<noteq> [] \<and> last ps = dl_alert (fst e)"
  shows "subseq (seen_of k (lg @ new)) ps"
  using assms(2)
proof (induction new rule: rev_induct)
  case Nil
  then show ?case using assms(1) by simp
next
  case (snoc e new)
  define xs where "xs = filter (\<lambda>a. al_key a = k) (map (\<lambda>e. dl_alert (fst e)) (lg @ new))"
  define a where "a = dl_alert (fst e)"
  have "\<forall>e \<in> set new. al_key (dl_alert (fst e)) = k \<longrightarrow> ps \<noteq> [] \<and> last ps = dl_alert (fst e)" using snoc.prems by simp
  from snoc.IH [OF this] have IH: "subseq (remdups_adj xs) ps" by (simp add: seen_of_def xs_def)
  have eq: "seen_of k (lg @ new @ [e]) = remdups_adj (if al_key a = k then xs @ [a] else xs)"
    by (simp add: seen_of_def xs_def a_def)
  show ?case
  proof (cases "al_key a = k \<and> \<not> (xs \<noteq> [] \<and> last xs = a)")
    case True
    then obtain qs where ps: "ps = qs @ [a]" using snoc.prems by (cases ps rule: rev_cases) (auto simp: a_def)
    have "subseq (remdups_adj xs) qs" by (rule subseq_snoc_other [of _ _ a]) (use IH True ps in auto)
    then show ?thesis using True by (auto simp: eq ps remdups_adj_snoc)
  next
    case False
    then show ?thesis using IH by (auto simp: eq remdups_adj_snoc)
  qed
qed

lemma in_order_logs:
  assumes "nt_ok (last_page pages) [] n'" and "logs (last_page pages) n n'"
    and "\<forall>k. subseq (seen_of k (nt_log n)) (filter (\<lambda>a. al_key a = k) pages)"
  shows "in_order pages n'"
proof -
  obtain new where new: "nt_log n' = nt_log n @ new" "\<forall>e \<in> set new. current (last_page pages) (fst e)"
    using assms(2) by (auto simp: logs_def)
  have "subseq (seen_of k (nt_log n')) (filter (\<lambda>a. al_key a = k) pages)" for k
    unfolding new(1) using new(2) assms(3)
    by (intro seen_append) (auto simp: current_def last_page_def Let_def split: if_splits)
  then show ?thesis using assms(1) by (simp add: in_order_def)
qed

interpretation chans: alert_notifier "channel_ops fmt io" in_order for fmt io
proof
  fix pages a and n :: chan_notifier
  assume ok: "in_order pages n"
  let ?n = "n\<lparr>nt_errs := []\<rparr>"
  have ok0: "nt_ok (last_page pages) [] ?n" by (rule nt_ok_frame [of _ _ n]) (use ok in \<open>simp_all add: in_order_def\<close>)
  have "subseq (seen_of k (nt_log ?n)) (filter (\<lambda>a. al_key a = k) (pages @ [a]))" for k
    using ok by (simp add: in_order_def list_emb_prefix)
  then have "in_order (pages @ [a]) (notify fmt io a ?n)"
    using notify_keeps_ok [OF ok0, of a fmt io] by (intro in_order_logs [of _ _ ?n]) (simp_all add: last_page_snoc)
  then show "in_order (pages @ [a]) (fst (nf_notify (channel_ops fmt io) a n))"
    by (simp add: channel_ops_def Let_def)
next
  fix f pages firing_now and n :: chan_notifier
  assume f: "nf_retry (channel_ops fmt io) = Some f" and ok: "in_order pages n"
  let ?n = "n\<lparr>nt_errs := []\<rparr>" let ?m = "settle firing_now ?n"
  have "nt_ok (last_page pages) [] ?n" by (rule nt_ok_frame [of _ _ n]) (use ok in \<open>simp_all add: in_order_def\<close>)
  then have m: "nt_ok (last_page pages) [] ?m" "nt_log ?m = nt_log n" using drop_ok [of "last_page pages" ?n] by (simp_all add: settle_def)
  have "in_order pages (retry fmt io ?m)"
    using retry_ok [OF m(1), of fmt io] ok m(2) by (intro in_order_logs [of _ _ ?m]) (simp_all add: in_order_def)
  then show "in_order pages (fst (f firing_now n))" using f by (auto simp: channel_ops_def Let_def)
qed

section \<open>Runs of the engine\<close>

record pass =
  ps_io :: tick_io
  ps_notify :: notify_io
  ps_sources :: "alert_source list"
  ps_now :: time

definition run_pass :: "(time \<Rightarrow> string) \<Rightarrow> pass \<Rightarrow> chan_notifier alert_engine \<Rightarrow> chan_notifier alert_engine" where
  "run_pass fmt p s = tick (ps_io p) (channel_ops fmt (ps_notify p)) (ps_sources p) (ps_now p) s"

lemma run_holds: "chans.holds s \<Longrightarrow> chans.holds (fold (run_pass fmt) ps s)"
  by (induction ps arbitrary: s) (simp_all add: run_pass_def chans.tick_holds)

text \<open>
  C27. Over any number of passes of the engine, with any failures of the database, the sources, the claims
  and the channels in them, the channels see the transitions of an alert in the order the engine
  published them: for every key the alerts sent, repeated sends counted once, are a subsequence of the
  alerts published. Each phase of an episode is accepted by a channel at most once.
\<close>

theorem transitions_seen_in_order:
  "let s = fold (run_pass fmt) ps (newEngineWithInterval pool interval st (Some (newChannelNotifier chs rows)) tbl) in
     \<exists>n. en_notif s = Some n \<and> accepts n i \<le> 1 \<and>
       subseq (seen_of k (nt_log n)) (filter (\<lambda>a. al_key a = k) (en_pages s))"
proof -
  let ?s = "newEngineWithInterval pool interval st (Some (newChannelNotifier chs rows)) tbl"
  have "nt_ok Map.empty [] (newChannelNotifier chs rows)" using nt_run_ok [of "[]"] by (simp add: nt_run_def latest_def)
  moreover have "last_page [] = Map.empty" by (auto simp: last_page_def)
  ultimately have "in_order [] (newChannelNotifier chs rows)"
    by (simp add: in_order_def newChannelNotifier_def seen_of_def)
  then have "chans.holds ?s" by (simp add: chans.holds_def newEngineWithInterval_def)
  from run_holds [OF this, of fmt ps] obtain n where
    "en_notif (fold (run_pass fmt) ps ?s) = Some n" "in_order (en_pages (fold (run_pass fmt) ps ?s)) n"
    by (auto simp: chans.holds_def)
  then show ?thesis by (cases i) (simp add: in_order_def nt_ok_def log_ok_def Let_def)
qed

end
