(* ===== verification/Topology.thy ===== *)
theory Topology
  imports Pgtype
begin

text \<open>
  The topology engine (\<^verbatim>\<open>internal/topology/engine.go\<close>): roles, failovers, orphaned standbys and split
  brain from the observations of the instances, with the undo of an observation and the eviction of old
  state.

  Instance states and the records of the last primary are pointers in the code, and the undo compares
  addresses; \<open>is_ptr\<close> and \<open>lp_ptr\<close> are the addresses, and \<open>tp_alloc\<close> is the next free one. A read of the
  state of an instance that is in the cluster index and not tracked would be a nil dereference, which is
  the result \<open>None\<close>. The members of a cluster are a map to empty structs, here a list.
\<close>

section \<open>State\<close>

type_synonym instanceID = string

record edge =
  ed_from :: instanceID
  ed_to :: instanceID
  ed_type :: string
  ed_sync :: string
  ed_confidence :: string

record topo_obs =
  to_inst :: instanceID
  to_cluster :: clusterID
  to_role :: role
  to_prior :: role
  to_ts :: time
  to_edges :: "edge list"

definition knownRole :: "role \<Rightarrow> bool" where
  "knownRole r \<longleftrightarrow> r \<noteq> [] \<and> r \<noteq> roleUnknown"

datatype topo_payload =
  Failover instanceID instanceID
| NewRole role
| RoleChange role role
| SplitBrain nat
| OrphanFor duration

record topo_event =
  te_ts :: time
  te_inst :: instanceID
  te_cluster :: clusterID
  te_payload :: topo_payload

record instanceState =
  is_ptr :: nat
  is_role :: role
  is_cluster :: clusterID
  is_ts :: time
  is_lastObs :: topo_obs
  is_quiet :: int
  is_orphanAt :: time
  is_orphanSeenAt :: time
  is_orphanSeenSent :: time
  is_orphanedAt :: time
  is_edges :: "(string, time) gomap"

record lastPrimaryInfo =
  lp_ptr :: nat
  lp_inst :: instanceID
  lp_ts :: time

record topology =
  tp_instances :: "(instanceID, instanceState) gomap"
  tp_index :: "(clusterID, instanceID list) gomap"
  tp_lastPrimary :: "(clusterID, lastPrimaryInfo) gomap"
  tp_lastFailover :: "(clusterID, time) gomap"
  tp_lastSplit :: "(clusterID, time) gomap"
  tp_alloc :: nat

definition failoverWindow :: duration where "failoverWindow = 120 * second"
definition orphanWindow :: duration where "orphanWindow = 60 * second"
definition splitBrainWindow :: duration where "splitBrainWindow = 60 * second"

definition newTopology :: topology where
  "newTopology = \<lparr>tp_instances = [], tp_index = [], tp_lastPrimary = [], tp_lastFailover = [], tp_lastSplit = [], tp_alloc = 0\<rparr>"

definition no_obs :: topo_obs where
  "no_obs = \<lparr>to_inst = [], to_cluster = 0, to_role = [], to_prior = [], to_ts = 0, to_edges = []\<rparr>"

definition fresh_inst :: "nat \<Rightarrow> instanceState" where
  "fresh_inst p = \<lparr>is_ptr = p, is_role = [], is_cluster = 0, is_ts = 0, is_lastObs = no_obs, is_quiet = 0, is_orphanAt = 0,
     is_orphanSeenAt = 0, is_orphanSeenSent = 0, is_orphanedAt = 0, is_edges = []\<rparr>"

section \<open>The cluster index\<close>

definition members :: "topology \<Rightarrow> clusterID \<Rightarrow> instanceID list" where
  "members e c = get_or [] (tp_index e) c"

definition unindex :: "clusterID \<Rightarrow> instanceID \<Rightarrow> topology \<Rightarrow> topology" where
  "unindex c i e =
     (case map_of (tp_index e) c of
        None \<Rightarrow> e
      | Some ids \<Rightarrow> e\<lparr>tp_index := AList.update c (removeAll i ids) (tp_index e)\<rparr>)"

definition enindex :: "clusterID \<Rightarrow> instanceID \<Rightarrow> topology \<Rightarrow> topology" where
  "enindex c i e = e\<lparr>tp_index := AList.update c (List.insert i (members e c)) (tp_index e)\<rparr>"

section \<open>Observations\<close>

definition recent_primary :: "topology \<Rightarrow> time \<Rightarrow> topo_obs \<Rightarrow> instanceID option" where
  "recent_primary e now obs =
     (case map_of (tp_lastPrimary e) (to_cluster obs) of
        None \<Rightarrow> None
      | Some lp \<Rightarrow>
          if time_sub now (lp_ts lp) < failoverWindow \<and> lp_inst lp \<noteq> to_inst obs then Some (lp_inst lp) else None)"

definition topo_ev :: "time \<Rightarrow> topo_obs \<Rightarrow> topo_payload \<Rightarrow> topo_event" where
  "topo_ev now obs p = \<lparr>te_ts = now, te_inst = to_inst obs, te_cluster = to_cluster obs, te_payload = p\<rparr>"

text \<open>The events of a change of role, and whether it counts as the cluster's last failover.\<close>

definition role_step :: "topology \<Rightarrow> time \<Rightarrow> topo_obs \<Rightarrow> role \<Rightarrow> topo_event list \<times> bool" where
  "role_step e now obs old =
     (if old = to_role obs then ([], False)
      else if to_role obs = rolePrimary \<and> old = roleStandby then
        (case recent_primary e now obs of
           Some prim \<Rightarrow> ([topo_ev now obs (Failover prim (to_inst obs))], True)
         | None \<Rightarrow> ([topo_ev now obs (NewRole (to_role obs))], False))
      else if old \<noteq> [] then
        ([topo_ev now obs (RoleChange old (to_role obs))],
         old = roleUnknown \<and> to_role obs = rolePrimary \<and> recent_primary e now obs \<noteq> None)
      else if knownRole (to_prior obs) then
        (if to_prior obs \<noteq> to_role obs then [topo_ev now obs (RoleChange (to_prior obs) (to_role obs))] else [], False)
      else ([topo_ev now obs (NewRole (to_role obs))], False))"

definition orphanGapEnds :: "instanceState \<Rightarrow> time \<Rightarrow> time \<Rightarrow> bool" where
  "orphanGapEnds st now sent =
     (if is_quiet st < 2 \<or> time_sub now (is_orphanSeenAt st) < orphanWindow then False
      else if \<not> is_zero sent \<and> \<not> is_zero (is_orphanSeenSent st) \<and> time_sub sent (is_orphanSeenSent st) < orphanWindow then False
      else True)"

definition end_orphan :: "instanceState \<Rightarrow> instanceState" where
  "end_orphan st = st\<lparr>is_orphanAt := 0, is_orphanedAt := 0\<rparr>"

definition see_edge :: "time \<Rightarrow> instanceState \<Rightarrow> edge \<Rightarrow> instanceState" where
  "see_edge now st ed =
     (if ed_confidence ed = ''high'' then end_orphan (st\<lparr>is_edges := AList.update (ed_to ed) now (is_edges st)\<rparr>) else st)"

definition quiet_cycle :: "time \<Rightarrow> topo_obs \<Rightarrow> instanceState \<Rightarrow> instanceState" where
  "quiet_cycle now obs st =
     (let st1 = st\<lparr>is_quiet := is_quiet st + 1\<rparr> in if orphanGapEnds st1 now (to_ts obs) then end_orphan st1 else st1)"

definition orphan_evidence :: "time \<Rightarrow> topo_obs \<Rightarrow> instanceState \<Rightarrow> instanceState \<times> topo_event list" where
  "orphan_evidence now obs st =
     (let st1 = st\<lparr>is_quiet := 0, is_orphanAt := (if is_zero (is_orphanAt st) then now else is_orphanAt st),
                   is_orphanSeenAt := now, is_orphanSeenSent := to_ts obs\<rparr>
      in if orphanWindow \<le> time_sub now (is_orphanAt st1) \<and> orphanWindow \<le> time_sub now (is_orphanedAt st1) then
           (st1\<lparr>is_orphanedAt := now\<rparr>, [topo_ev now obs (OrphanFor (time_sub now (is_orphanAt st1)))])
         else (st1, []))"

definition orphan_step :: "time \<Rightarrow> topo_obs \<Rightarrow> instanceState \<Rightarrow> instanceState \<times> topo_event list" where
  "orphan_step now obs st =
     (if to_role obs = roleStandby then
        (let st1 = foldl (see_edge now) st (to_edges obs)
         in if \<not> list_ex (\<lambda>ed. ed_confidence ed = ''high'') (to_edges obs) \<and> to_edges obs \<noteq> [] then orphan_evidence now obs st1
            else (quiet_cycle now obs st1, []))
      else if to_role obs = roleUnknown then (quiet_cycle now obs st, [])
      else if to_role obs = rolePrimary then (end_orphan st, [])
      else (st, []))"

definition counts_primary :: "time \<Rightarrow> time \<Rightarrow> instanceState \<Rightarrow> bool" where
  "counts_primary now failover st \<longleftrightarrow>
     is_role st = rolePrimary \<and> time_sub now (is_ts st) < failoverWindow \<and> \<not> is_ts st < failover"

fun primaries_of :: "(instanceID, instanceState) gomap \<Rightarrow> time \<Rightarrow> time \<Rightarrow> instanceID list \<Rightarrow> instanceID list option" where
  "primaries_of insts now failover [] = Some []"
| "primaries_of insts now failover (i # is) =
     (case map_of insts i of
        None \<Rightarrow> None
      | Some st \<Rightarrow>
          map_option (\<lambda>ps. if counts_primary now failover st then i # ps else ps) (primaries_of insts now failover is))"

definition split_step :: "clusterID \<Rightarrow> time \<Rightarrow> nat \<Rightarrow> topology \<Rightarrow> topology \<times> topo_event list" where
  "split_step c now n e =
     (if 2 \<le> n then
        (let failover = get_or 0 (tp_lastFailover e) c in
         if (is_zero failover \<or> 30 * second < time_sub now failover) \<and>
            (case map_of (tp_lastSplit e) c of None \<Rightarrow> True | Some l \<Rightarrow> splitBrainWindow \<le> time_sub now l)
         then (e\<lparr>tp_lastSplit := AList.update c now (tp_lastSplit e)\<rparr>,
               [\<lparr>te_ts = now, te_inst = [], te_cluster = c, te_payload = SplitBrain n\<rparr>])
         else (e, []))
      else (e\<lparr>tp_lastSplit := AList.delete c (tp_lastSplit e)\<rparr>, []))"

definition detectSplitBrain :: "clusterID \<Rightarrow> time \<Rightarrow> topology \<Rightarrow> (topology \<times> topo_event list) option" where
  "detectSplitBrain c now e =
     (case primaries_of (tp_instances e) now (get_or 0 (tp_lastFailover e) c) (members e c) of
        None \<Rightarrow> None
      | Some ps \<Rightarrow> Some (split_step c now (length ps) e))"

definition is_repeat :: "topo_obs \<Rightarrow> instanceState \<Rightarrow> bool" where
  "is_repeat obs st \<longleftrightarrow>
     \<not> is_zero (to_ts obs) \<and> to_ts obs = to_ts (is_lastObs st) \<and> to_role obs = to_role (is_lastObs st) \<and>
     to_cluster obs = to_cluster (is_lastObs st) \<and> to_edges obs = to_edges (is_lastObs st)"

definition get_inst :: "instanceID \<Rightarrow> topology \<Rightarrow> topology \<times> instanceState" where
  "get_inst i e =
     (case map_of (tp_instances e) i of
        Some st \<Rightarrow> (e, st)
      | None \<Rightarrow>
          (let st = fresh_inst (tp_alloc e)
           in (e\<lparr>tp_instances := AList.update i st (tp_instances e), tp_alloc := tp_alloc e + 1\<rparr>, st)))"

definition note_primary :: "time \<Rightarrow> topo_obs \<Rightarrow> topology \<Rightarrow> topology" where
  "note_primary now obs e =
     (if to_role obs = rolePrimary then
        e\<lparr>tp_lastPrimary := AList.update (to_cluster obs) \<lparr>lp_ptr = tp_alloc e, lp_inst = to_inst obs, lp_ts = now\<rparr> (tp_lastPrimary e),
          tp_alloc := tp_alloc e + 1\<rparr>
      else e)"

definition apply_obs :: "time \<Rightarrow> topo_obs \<Rightarrow> topology \<Rightarrow> (topology \<times> topo_event list) option" where
  "apply_obs now obs e =
     (case get_inst (to_inst obs) e of (e1, st) \<Rightarrow>
      if is_repeat obs st then Some (e1, [])
      else
        (let (evs, handover) = role_step e1 now obs (is_role st);
             e2 = (if handover then e1\<lparr>tp_lastFailover := AList.update (to_cluster obs) now (tp_lastFailover e1)\<rparr> else e1);
             e3 = (if is_cluster st \<noteq> to_cluster obs then unindex (is_cluster st) (to_inst obs) e2 else e2);
             e4 = note_primary now obs (enindex (to_cluster obs) (to_inst obs) e3);
             (st', oevs) = orphan_step now obs
               (st\<lparr>is_lastObs := obs, is_role := to_role obs, is_cluster := to_cluster obs, is_ts := now\<rparr>);
             e5 = e4\<lparr>tp_instances := AList.update (to_inst obs) st' (tp_instances e4)\<rparr>
         in map_option (\<lambda>(e6, sevs). (e6, evs @ oevs @ sevs)) (detectSplitBrain (to_cluster obs) now e5)))"

section \<open>Undo\<close>

record topoMark =
  tm_inst :: "instanceState option"
  tm_lastPrim :: "lastPrimaryInfo option"
  tm_failover :: "time option"
  tm_split :: "time option"

definition mark :: "instanceID \<Rightarrow> clusterID \<Rightarrow> topology \<Rightarrow> topoMark" where
  "mark i c e =
     \<lparr>tm_inst = map_of (tp_instances e) i, tm_lastPrim = map_of (tp_lastPrimary e) c,
      tm_failover = map_of (tp_lastFailover e) c, tm_split = map_of (tp_lastSplit e) c\<rparr>"

definition same_times :: "(string, time) gomap \<Rightarrow> (string, time) gomap \<Rightarrow> bool" where
  "same_times a b \<longleftrightarrow> length a = length b \<and> list_all (\<lambda>(k, t). map_of b k = Some t) a"

definition sameInstanceState :: "instanceState \<Rightarrow> instanceState \<Rightarrow> bool" where
  "sameInstanceState a b \<longleftrightarrow>
     is_role a = is_role b \<and> is_cluster a = is_cluster b \<and> is_ts a = is_ts b \<and> is_orphanAt a = is_orphanAt b \<and>
     is_orphanedAt a = is_orphanedAt b \<and> is_quiet a = is_quiet b \<and> is_orphanSeenAt a = is_orphanSeenAt b \<and>
     is_orphanSeenSent a = is_orphanSeenSent b \<and> is_lastObs a = is_lastObs b \<and> same_times (is_edges a) (is_edges b)"

definition revertTime :: "clusterID \<Rightarrow> time option \<Rightarrow> time option \<Rightarrow> (clusterID, time) gomap \<Rightarrow> (clusterID, time) gomap" where
  "revertTime c before written m =
     (if map_of m c \<noteq> written then m
      else case before of Some t \<Rightarrow> AList.update c t m | None \<Rightarrow> AList.delete c m)"

definition drop_member :: "clusterID \<Rightarrow> instanceID \<Rightarrow> topology \<Rightarrow> topology" where
  "drop_member c i e =
     (case map_of (tp_index e) c of
        None \<Rightarrow> e
      | Some ids \<Rightarrow>
          (if removeAll i ids = [] then e\<lparr>tp_index := AList.delete c (tp_index e)\<rparr>
           else e\<lparr>tp_index := AList.update c (removeAll i ids) (tp_index e)\<rparr>))"

definition revert_inst :: "instanceID \<Rightarrow> instanceState option \<Rightarrow> instanceState option \<Rightarrow> topology \<Rightarrow> topology" where
  "revert_inst i before written e =
     (case (map_of (tp_instances e) i, written) of
        (Some live, Some w) \<Rightarrow>
          if is_ptr live = is_ptr w \<and> sameInstanceState live w then
            (let e1 = drop_member (is_cluster w) i e in
             case before of
               None \<Rightarrow> e1\<lparr>tp_instances := AList.delete i (tp_instances e1)\<rparr>
             | Some b \<Rightarrow>
                 enindex (is_cluster b) i
                   (e1\<lparr>tp_instances := AList.update i (b\<lparr>is_ptr := is_ptr live\<rparr>) (tp_instances e1)\<rparr>))
          else e
      | _ \<Rightarrow> e)"

definition revert :: "instanceID \<Rightarrow> clusterID \<Rightarrow> topoMark \<Rightarrow> topoMark \<Rightarrow> topology \<Rightarrow> topology" where
  "revert i c before written e =
     (let e1 = revert_inst i (tm_inst before) (tm_inst written) e;
          e2 = (if map_option lp_ptr (map_of (tp_lastPrimary e1) c) = map_option lp_ptr (tm_lastPrim written) then
                  e1\<lparr>tp_lastPrimary := (case tm_lastPrim before of
                       None \<Rightarrow> AList.delete c (tp_lastPrimary e1)
                     | Some lp \<Rightarrow> AList.update c lp (tp_lastPrimary e1))\<rparr>
                else e1)
      in e2\<lparr>tp_lastFailover := revertTime c (tm_failover before) (tm_failover written) (tp_lastFailover e2),
            tp_lastSplit := revertTime c (tm_split before) (tm_split written) (tp_lastSplit e2)\<rparr>)"

definition applyUndoable ::
  "time \<Rightarrow> topo_obs \<Rightarrow> topology \<Rightarrow> (topology \<times> topo_event list \<times> (topology \<Rightarrow> topology)) option" where
  "applyUndoable now obs e =
     (let before = mark (to_inst obs) (to_cluster obs) e in
      map_option
        (\<lambda>(e', evs). (e', evs, revert (to_inst obs) (to_cluster obs) before (mark (to_inst obs) (to_cluster obs) e')))
        (apply_obs now obs e))"

section \<open>Eviction\<close>

definition evict_one :: "time \<Rightarrow> topology \<Rightarrow> instanceID \<times> instanceState \<Rightarrow> topology" where
  "evict_one before e = (\<lambda>(i, st).
     if is_ts st < before then unindex (is_cluster st) i (e\<lparr>tp_instances := AList.delete i (tp_instances e)\<rparr>)
     else e\<lparr>tp_instances := AList.update i (st\<lparr>is_edges := filter (\<lambda>(k, t). \<not> t < before) (is_edges st)\<rparr>) (tp_instances e)\<rparr>)"

definition evict_topology :: "time \<Rightarrow> topology \<Rightarrow> topology \<times> nat" where
  "evict_topology before e =
     (let live = map (is_cluster \<circ> snd) (filter (\<lambda>(i, st). \<not> is_ts st < before) (tp_instances e));
          e1 = foldl (evict_one before) e (tp_instances e)
      in (e1\<lparr>tp_lastPrimary := filter (\<lambda>(c, _). c \<in> set live) (tp_lastPrimary e1),
             tp_lastFailover := filter (\<lambda>(c, _). c \<in> set live) (tp_lastFailover e1),
             tp_lastSplit := filter (\<lambda>(c, _). c \<in> set live) (tp_lastSplit e1),
             tp_index := filter (\<lambda>(c, _). c \<in> set live) (tp_index e1)\<rparr>,
          length (filter (\<lambda>(i, st). is_ts st < before) (tp_instances e))))"

end
