(* ===== verification/Topology_Inv.thy ===== *)
theory Topology_Inv
  imports Topology
begin

text \<open>
  The invariant of the topology engine, its cluster index against a scan of every instance, the undo of an
  observation, and repeated observations.
\<close>

section \<open>The index\<close>

lemma members_upd [simp]:
  "members (e\<lparr>tp_instances := x\<rparr>) = members e" "members (e\<lparr>tp_lastPrimary := p\<rparr>) = members e"
  "members (e\<lparr>tp_lastFailover := f\<rparr>) = members e" "members (e\<lparr>tp_lastSplit := f\<rparr>) = members e"
  "members (e\<lparr>tp_alloc := n\<rparr>) = members e"
  by (simp_all add: members_def fun_eq_iff)

lemma members_unindex [simp]: "members (unindex c i e) c' = (if c' = c then removeAll i (members e c) else members e c')"
  by (auto simp: unindex_def members_def get_or_def gomap split: option.split)

lemma members_enindex [simp]: "members (enindex c i e) c' = (if c' = c then List.insert i (members e c) else members e c')"
  by (simp add: enindex_def members_def get_or_def gomap)

lemma members_drop [simp]: "members (drop_member c i e) c' = (if c' = c then removeAll i (members e c) else members e c')"
  by (auto simp: drop_member_def members_def get_or_def gomap split: option.split)

lemma index_frames [simp]:
  "tp_instances (unindex c i e) = tp_instances e" "tp_instances (enindex c i e) = tp_instances e"
  "tp_instances (drop_member c i e) = tp_instances e" "tp_lastPrimary (unindex c i e) = tp_lastPrimary e"
  "tp_lastPrimary (enindex c i e) = tp_lastPrimary e" "tp_lastPrimary (drop_member c i e) = tp_lastPrimary e"
  "tp_lastFailover (unindex c i e) = tp_lastFailover e" "tp_lastFailover (enindex c i e) = tp_lastFailover e"
  "tp_lastFailover (drop_member c i e) = tp_lastFailover e" "tp_lastSplit (unindex c i e) = tp_lastSplit e"
  "tp_lastSplit (enindex c i e) = tp_lastSplit e" "tp_lastSplit (drop_member c i e) = tp_lastSplit e"
  "tp_alloc (unindex c i e) = tp_alloc e" "tp_alloc (enindex c i e) = tp_alloc e" "tp_alloc (drop_member c i e) = tp_alloc e"
  by (simp_all add: unindex_def enindex_def drop_member_def split: option.split)

lemma wf_index [simp]:
  "wf_map (tp_index e) \<Longrightarrow> wf_map (tp_index (unindex c i e))" "wf_map (tp_index e) \<Longrightarrow> wf_map (tp_index (enindex c i e))"
  "wf_map (tp_index e) \<Longrightarrow> wf_map (tp_index (drop_member c i e))"
  by (auto simp: unindex_def enindex_def drop_member_def gomap split: option.split)

text \<open>The members of a cluster are the tracked instances whose state names it.\<close>

definition topo_ok :: "topology \<Rightarrow> bool" where
  "topo_ok e \<longleftrightarrow> wf_map (tp_instances e) \<and> wf_map (tp_index e) \<and> (\<forall>c. distinct (members e c)) \<and>
     (\<forall>c i. i \<in> set (members e c) \<longleftrightarrow> (\<exists>st. map_of (tp_instances e) i = Some st \<and> is_cluster st = c))"

lemma topo_okD:
  assumes "topo_ok e"
  shows "wf_map (tp_instances e)" "wf_map (tp_index e)" "distinct (members e c)"
    "i \<in> set (members e c) \<longleftrightarrow> (\<exists>st. map_of (tp_instances e) i = Some st \<and> is_cluster st = c)"
  using assms by (simp_all add: topo_ok_def)

text \<open>Moving the state of one instance, and its place in the index, keeps the invariant.\<close>

lemma topo_ok_put:
  assumes ok: "topo_ok e" and inst: "\<And>j. map_of (tp_instances e') j = (if j = i then new else map_of (tp_instances e) j)"
    and wf: "wf_map (tp_instances e')" "wf_map (tp_index e')"
    and mem: "\<And>c. distinct (members e' c)"
      "\<And>c j. j \<in> set (members e' c) \<longleftrightarrow> (if j = i then (\<exists>st. new = Some st \<and> is_cluster st = c) else j \<in> set (members e c))"
  shows "topo_ok e'"
  unfolding topo_ok_def using wf mem(1) mem(2) inst topo_okD(4) [OF ok] by auto

section \<open>Split brain\<close>

lemma primaries_of_total:
  assumes "\<forall>i \<in> set is. map_of insts i \<noteq> None"
  shows "primaries_of insts now fo is = Some (filter (\<lambda>i. counts_primary now fo (the (map_of insts i))) is)"
  using assms by (induction "is") auto

text \<open>The check without the index: over every tracked instance, by the cluster its state names.\<close>

definition scan_split :: "clusterID \<Rightarrow> time \<Rightarrow> topology \<Rightarrow> topology \<times> topo_event list" where
  "scan_split c now e =
     split_step c now
       (length (filter (\<lambda>(i, st). is_cluster st = c \<and> counts_primary now (get_or 0 (tp_lastFailover e) c) st) (tp_instances e))) e"

lemma count_scan:
  assumes "wf_map m" and "distinct xs" and "\<And>i. i \<in> set xs \<longleftrightarrow> (\<exists>v. map_of m i = Some v \<and> P v)"
  shows "length (filter (\<lambda>i. Q (the (map_of m i))) xs) = length (filter (\<lambda>(i, v). P v \<and> Q v) m)"
proof -
  let ?A = "filter (\<lambda>i. Q (the (map_of m i))) xs" and ?B = "map fst (filter (\<lambda>(i, v). P v \<and> Q v) m)"
  have d: "distinct ?A" "distinct ?B" using assms(1,2) by (auto simp: wf_map_def distinct_map_filter)
  have "i \<in> set ?A \<longleftrightarrow> i \<in> set ?B" for i
  proof -
    have "i \<in> set ?B \<longleftrightarrow> (\<exists>v. (i, v) \<in> set m \<and> P v \<and> Q v)" by (auto intro: rev_image_eqI)
    also have "\<dots> \<longleftrightarrow> (\<exists>v. map_of m i = Some v \<and> P v \<and> Q v)" using assms(1) by (simp add: wf_map_def)
    also have "\<dots> \<longleftrightarrow> i \<in> set ?A" using assms(3) [of i] by auto
    finally show ?thesis by simp
  qed
  then have "set ?A = set ?B" by blast
  then have "length ?A = length ?B" using d by (metis distinct_card)
  then show ?thesis by simp
qed

lemma detect_scan:
  assumes "topo_ok e"
  shows "detectSplitBrain c now e = Some (scan_split c now e)"
proof -
  note ok = topo_okD [OF assms]
  let ?f = "get_or 0 (tp_lastFailover e) c"
  have "\<forall>i \<in> set (members e c). map_of (tp_instances e) i \<noteq> None" using ok(4) by auto
  note ps = primaries_of_total [OF this]
  show ?thesis
    using count_scan [where m = "tp_instances e" and xs = "members e c" and P = "\<lambda>st. is_cluster st = c" and Q = "counts_primary now ?f"] ok
    by (simp add: detectSplitBrain_def scan_split_def ps)
qed

lemma split_step_frame:
  assumes "split_step c now n e = (e', evs)"
  shows "tp_instances e' = tp_instances e" "tp_index e' = tp_index e" "tp_lastPrimary e' = tp_lastPrimary e"
    "tp_lastFailover e' = tp_lastFailover e" "tp_alloc e' = tp_alloc e"
    "c' \<noteq> c \<Longrightarrow> map_of (tp_lastSplit e') c' = map_of (tp_lastSplit e) c'"
  using assms by (auto simp: split_step_def Let_def gomap split: if_splits)

section \<open>Observations\<close>

lemma see_edges_frame [simp]:
  "is_ptr (foldl (see_edge now) st es) = is_ptr st" "is_role (foldl (see_edge now) st es) = is_role st"
  "is_cluster (foldl (see_edge now) st es) = is_cluster st" "is_ts (foldl (see_edge now) st es) = is_ts st"
  "is_lastObs (foldl (see_edge now) st es) = is_lastObs st"
  by (induction es arbitrary: st) (simp_all add: see_edge_def end_orphan_def)

lemma orphan_step_frame:
  assumes "orphan_step now obs st = (st', evs)"
  shows "is_ptr st' = is_ptr st" "is_role st' = is_role st" "is_cluster st' = is_cluster st" "is_ts st' = is_ts st"
    "is_lastObs st' = is_lastObs st"
  using assms
  by (auto simp: orphan_step_def orphan_evidence_def quiet_cycle_def end_orphan_def Let_def split: if_splits)

text \<open>What an observation that is not a repeat leaves behind.\<close>

definition observed :: "time \<Rightarrow> topo_obs \<Rightarrow> topology \<Rightarrow> instanceState \<Rightarrow> topology \<times> topo_event list \<times> topo_event list" where
  "observed now obs e1 st =
     (let (evs, handover) = role_step e1 now obs (is_role st);
          e2 = (if handover then e1\<lparr>tp_lastFailover := AList.update (to_cluster obs) now (tp_lastFailover e1)\<rparr> else e1);
          e3 = (if is_cluster st \<noteq> to_cluster obs then unindex (is_cluster st) (to_inst obs) e2 else e2);
          e4 = note_primary now obs (enindex (to_cluster obs) (to_inst obs) e3);
          (st', oevs) = orphan_step now obs
            (st\<lparr>is_lastObs := obs, is_role := to_role obs, is_cluster := to_cluster obs, is_ts := now\<rparr>)
      in (e4\<lparr>tp_instances := AList.update (to_inst obs) st' (tp_instances e4)\<rparr>, evs, oevs))"

lemma apply_obs_eq:
  "apply_obs now obs e =
     (case get_inst (to_inst obs) e of (e1, st) \<Rightarrow>
      if is_repeat obs st then Some (e1, [])
      else case observed now obs e1 st of (e5, evs, oevs) \<Rightarrow>
        map_option (\<lambda>(e6, sevs). (e6, evs @ oevs @ sevs)) (detectSplitBrain (to_cluster obs) now e5))"
  by (simp add: apply_obs_def observed_def Let_def split_beta)

lemma get_inst_facts:
  assumes "get_inst i e = (e1, st)"
  shows "map_of (tp_instances e1) j = (if j = i then Some st else map_of (tp_instances e) j)"
    "map_of (tp_instances e) i = None \<and> st = fresh_inst (tp_alloc e) \<or> map_of (tp_instances e) i = Some st \<and> e1 = e"
    "wf_map (tp_instances e) \<Longrightarrow> wf_map (tp_instances e1)" "tp_index e1 = tp_index e" "tp_lastPrimary e1 = tp_lastPrimary e"
    "tp_lastFailover e1 = tp_lastFailover e" "tp_lastSplit e1 = tp_lastSplit e" "tp_alloc e \<le> tp_alloc e1"
  using assms by (auto simp: get_inst_def Let_def gomap split: option.splits)

lemma note_primary_frame [simp]:
  "tp_instances (note_primary now obs e) = tp_instances e" "tp_index (note_primary now obs e) = tp_index e"
  "tp_lastFailover (note_primary now obs e) = tp_lastFailover e" "tp_lastSplit (note_primary now obs e) = tp_lastSplit e"
  "members (note_primary now obs e) = members e"
  by (simp_all add: note_primary_def)

lemma observed_facts:
  assumes "observed now obs e1 st = (e5, evs, oevs)"
  obtains st' where
    "tp_instances e5 = AList.update (to_inst obs) st' (tp_instances e1)"
    "orphan_step now obs (st\<lparr>is_lastObs := obs, is_role := to_role obs, is_cluster := to_cluster obs, is_ts := now\<rparr>) = (st', oevs)"
    "is_ptr st' = is_ptr st" "is_cluster st' = to_cluster obs" "is_lastObs st' = obs"
    "\<And>c. members e5 c = (if c = to_cluster obs then List.insert (to_inst obs) (members e1 c)
       else if c = is_cluster st then removeAll (to_inst obs) (members e1 c) else members e1 c)"
    "wf_map (tp_index e1) \<Longrightarrow> wf_map (tp_index e5)"
    "tp_lastSplit e5 = tp_lastSplit e1"
    "\<And>c. c \<noteq> to_cluster obs \<Longrightarrow> map_of (tp_lastFailover e5) c = map_of (tp_lastFailover e1) c"
    "\<And>c. map_of (tp_lastPrimary e5) c =
       (if c = to_cluster obs \<and> to_role obs = rolePrimary then Some \<lparr>lp_ptr = tp_alloc e1, lp_inst = to_inst obs, lp_ts = now\<rparr>
        else map_of (tp_lastPrimary e1) c)"
    "evs = fst (role_step e1 now obs (is_role st))"
proof -
  obtain ev h where r: "role_step e1 now obs (is_role st) = (ev, h)" by fastforce
  define e2 where "e2 = (if h then e1\<lparr>tp_lastFailover := AList.update (to_cluster obs) now (tp_lastFailover e1)\<rparr> else e1)"
  define e3 where "e3 = (if is_cluster st \<noteq> to_cluster obs then unindex (is_cluster st) (to_inst obs) e2 else e2)"
  define e4 where "e4 = note_primary now obs (enindex (to_cluster obs) (to_inst obs) e3)"
  obtain st' oe where o: "orphan_step now obs (st\<lparr>is_lastObs := obs, is_role := to_role obs, is_cluster := to_cluster obs, is_ts := now\<rparr>) = (st', oe)"
    by fastforce
  have eq: "e5 = e4\<lparr>tp_instances := AList.update (to_inst obs) st' (tp_instances e4)\<rparr>" "evs = ev" "oevs = oe"
    using assms unfolding observed_def r prod.case Let_def e2_def [symmetric] e3_def [symmetric] e4_def [symmetric] o by simp_all
  have f2: "tp_instances e2 = tp_instances e1" "tp_index e2 = tp_index e1" "tp_lastSplit e2 = tp_lastSplit e1"
      "tp_lastPrimary e2 = tp_lastPrimary e1" "tp_alloc e2 = tp_alloc e1" "members e2 = members e1"
      "\<And>c. c \<noteq> to_cluster obs \<Longrightarrow> map_of (tp_lastFailover e2) c = map_of (tp_lastFailover e1) c"
    by (simp_all add: e2_def gomap)
  have f3: "tp_instances e3 = tp_instances e2" "tp_lastSplit e3 = tp_lastSplit e2" "tp_lastPrimary e3 = tp_lastPrimary e2"
      "tp_alloc e3 = tp_alloc e2" "tp_lastFailover e3 = tp_lastFailover e2" "wf_map (tp_index e2) \<Longrightarrow> wf_map (tp_index e3)"
      "\<And>c. members e3 c = (if c = is_cluster st \<and> c \<noteq> to_cluster obs then removeAll (to_inst obs) (members e2 c) else members e2 c)"
    by (auto simp: e3_def)
  note fr = orphan_step_frame [OF o]
  show thesis
  proof (rule that [of st'])
    show "map_of (tp_lastPrimary e5) c =
       (if c = to_cluster obs \<and> to_role obs = rolePrimary then Some \<lparr>lp_ptr = tp_alloc e1, lp_inst = to_inst obs, lp_ts = now\<rparr>
        else map_of (tp_lastPrimary e1) c)" for c
      by (simp add: eq e4_def note_primary_def f2 f3 gomap)
    show "members e5 c = (if c = to_cluster obs then List.insert (to_inst obs) (members e1 c)
       else if c = is_cluster st then removeAll (to_inst obs) (members e1 c) else members e1 c)" for c
      by (simp add: eq e4_def f2 f3)
  qed (use o fr f2 f3 r in \<open>simp_all add: eq e4_def\<close>)
qed

lemma apply_obs_ok:
  assumes "topo_ok e"
  shows "\<exists>e' evs. apply_obs now obs e = Some (e', evs) \<and> topo_ok e'"
proof -
  obtain e1 st where g: "get_inst (to_inst obs) e = (e1, st)" by fastforce
  note gf = get_inst_facts [OF g] and ok = topo_okD [OF assms]
  show ?thesis
  proof (cases "is_repeat obs st")
    case True
    then have "st \<noteq> fresh_inst (tp_alloc e)" by (auto simp: is_repeat_def fresh_inst_def no_obs_def is_zero_def)
    then have "e1 = e" using gf(2) by blast
    then show ?thesis using True g assms by (simp add: apply_obs_eq)
  next
    case False
    obtain e5 evs oevs where o: "observed now obs e1 st = (e5, evs, oevs)" by (metis prod.exhaust)
    from observed_facts [OF o] obtain st' where of:
      "tp_instances e5 = AList.update (to_inst obs) st' (tp_instances e1)" "is_cluster st' = to_cluster obs"
      "\<And>c. members e5 c = (if c = to_cluster obs then List.insert (to_inst obs) (members e1 c)
         else if c = is_cluster st then removeAll (to_inst obs) (members e1 c) else members e1 c)"
      "wf_map (tp_index e1) \<Longrightarrow> wf_map (tp_index e5)" by metis
    have mem: "members e1 = members e" by (simp add: members_def fun_eq_iff gf(4))
    have old: "to_inst obs \<in> set (members e c) \<Longrightarrow> c = is_cluster st" for c using ok(4) [of "to_inst obs" c] gf(2) by auto
    have ok5: "topo_ok e5"
    proof (rule topo_ok_put [OF assms, where i = "to_inst obs" and new = "Some st'"])
      show "map_of (tp_instances e5) j = (if j = to_inst obs then Some st' else map_of (tp_instances e) j)" for j
        by (simp add: of(1) gf(1) gomap)
      show "wf_map (tp_instances e5)" "wf_map (tp_index e5)" using ok(1,2) gf(3,4) of(1,4) by (simp_all add: gomap)
      show "distinct (members e5 c)" for c using ok(3) by (simp add: of(3) mem distinct_removeAll)
      show "j \<in> set (members e5 c) \<longleftrightarrow>
          (if j = to_inst obs then \<exists>st. Some st' = Some st \<and> is_cluster st = c else j \<in> set (members e c))" for c j
        using old [of c] of(2) by (auto simp: of(3) mem)
    qed
    obtain e6 sevs where sp: "split_step (to_cluster obs) now
       (length (filter (\<lambda>(i, st). is_cluster st = to_cluster obs \<and> counts_primary now (get_or 0 (tp_lastFailover e5) (to_cluster obs)) st) (tp_instances e5))) e5 = (e6, sevs)"
      by fastforce
    have "topo_ok e6" using ok5 split_step_frame [OF sp] by (simp add: topo_ok_def members_def)
    then show ?thesis using g False o detect_scan [OF ok5, of "to_cluster obs" now] sp by (simp add: apply_obs_eq scan_split_def)
  qed
qed

section \<open>Undo and eviction keep the invariant\<close>

lemma topo_ok_frame:
  assumes "topo_ok e" and "tp_instances e' = tp_instances e" and "tp_index e' = tp_index e"
  shows "topo_ok e'"
  using assms by (simp add: topo_ok_def members_def)

lemma topo_ok_fields [simp]:
  "topo_ok (e\<lparr>tp_lastPrimary := p\<rparr>) = topo_ok e" "topo_ok (e\<lparr>tp_lastFailover := f\<rparr>) = topo_ok e" "topo_ok (e\<lparr>tp_lastSplit := f\<rparr>) = topo_ok e"
  by (simp_all add: topo_ok_def)

lemma revert_inst_ok:
  assumes "topo_ok e"
  shows "topo_ok (revert_inst i before written e)"
proof -
  note ok = topo_okD [OF assms]
  show ?thesis
  proof (cases "map_of (tp_instances e) i")
    case None
    then show ?thesis using assms by (simp add: revert_inst_def)
  next
    case live: (Some live)
    show ?thesis
    proof (cases written)
      case None
      then show ?thesis using assms live by (simp add: revert_inst_def)
    next
      case w: (Some w)
      show ?thesis
      proof (cases "is_ptr live = is_ptr w \<and> sameInstanceState live w")
        case False
        then have "revert_inst i before written e = e" using live w by (auto simp: revert_inst_def)
        then show ?thesis using assms by simp
      next
        case True
        then have cl: "is_cluster w = is_cluster live" by (simp add: sameInstanceState_def)
        let ?new = "map_option (\<lambda>b. b\<lparr>is_ptr := is_ptr live\<rparr>) before"
        have only: "i \<in> set (members e c) \<longleftrightarrow> c = is_cluster live" for c using ok(4) [of i c] live by auto
        show ?thesis
        proof (rule topo_ok_put [OF assms, where i = i and new = ?new])
          show "map_of (tp_instances (revert_inst i before written e)) j = (if j = i then ?new else map_of (tp_instances e) j)" for j
            using True live w by (simp add: revert_inst_def Let_def gomap split: option.split)
          show "wf_map (tp_instances (revert_inst i before written e))" "wf_map (tp_index (revert_inst i before written e))"
            using True live w ok(1,2) by (simp_all add: revert_inst_def Let_def gomap enindex_def split: option.split)
          show "distinct (members (revert_inst i before written e) c)" for c
            using True live w ok(3) by (simp add: revert_inst_def Let_def distinct_removeAll split: option.split)
          show "j \<in> set (members (revert_inst i before written e) c) \<longleftrightarrow>
              (if j = i then \<exists>st. ?new = Some st \<and> is_cluster st = c else j \<in> set (members e c))" for c j
            using True live w only [of c] cl by (auto simp: revert_inst_def Let_def split: option.split)
        qed
      qed
    qed
  qed
qed

lemma revert_ok: "topo_ok e \<Longrightarrow> topo_ok (revert i c before written e)"
  by (simp add: revert_def Let_def revert_inst_ok)

lemma evict_one_ok:
  assumes ok: "topo_ok e" and st: "map_of (tp_instances e) i = Some st"
  shows "topo_ok (evict_one before e (i, st))"
    "map_of (tp_instances (evict_one before e (i, st))) j =
       (if j = i then (if is_ts st < before then None else Some (st\<lparr>is_edges := filter (\<lambda>(k, t). \<not> t < before) (is_edges st)\<rparr>))
        else map_of (tp_instances e) j)"
proof -
  note okD = topo_okD [OF ok]
  show inst: "map_of (tp_instances (evict_one before e (i, st))) j =
       (if j = i then (if is_ts st < before then None else Some (st\<lparr>is_edges := filter (\<lambda>(k, t). \<not> t < before) (is_edges st)\<rparr>))
        else map_of (tp_instances e) j)" for j
    by (simp add: evict_one_def gomap)
  have only: "i \<in> set (members e c) \<longleftrightarrow> c = is_cluster st" for c using okD(4) [of i c] st by auto
  show "topo_ok (evict_one before e (i, st))"
  proof (rule topo_ok_put [OF ok inst])
    show "wf_map (tp_instances (evict_one before e (i, st)))" "wf_map (tp_index (evict_one before e (i, st)))"
      using okD(1,2) by (simp_all add: evict_one_def gomap)
    show "distinct (members (evict_one before e (i, st)) c)" for c
      using okD(3) by (simp add: evict_one_def distinct_removeAll)
  qed (use only in \<open>auto simp: evict_one_def\<close>)
qed

lemma evict_loop_ok:
  assumes "topo_ok e" and "\<forall>(i, st) \<in> set xs. map_of (tp_instances e) i = Some st" and "wf_map xs"
  shows "topo_ok (foldl (evict_one before) e xs) \<and>
    (\<forall>j st'. map_of (tp_instances (foldl (evict_one before) e xs)) j = Some st' \<longrightarrow>
       (\<exists>st. map_of (tp_instances e) j = Some st \<and> is_cluster st' = is_cluster st \<and> is_orphanAt st' = is_orphanAt st \<and>
          is_orphanedAt st' = is_orphanedAt st \<and> ((j, st) \<in> set xs \<longrightarrow> \<not> is_ts st < before)))"
  using assms
proof (induction xs arbitrary: e)
  case (Cons x xs)
  obtain i st where x: "x = (i, st)" by fastforce
  have st: "map_of (tp_instances e) i = Some st" using Cons.prems(2) x by simp
  note one = evict_one_ok [OF Cons.prems(1) st, of before]
  have notin: "(i, st') \<notin> set xs" for st' using Cons.prems(3) x weak_map_of_SomeI [of i st' xs] by auto
  have rest: "\<forall>(j, st') \<in> set xs. map_of (tp_instances (evict_one before e x)) j = Some st'"
    using Cons.prems(2) notin x by (auto simp: one(2))
  have "wf_map xs" using Cons.prems(3) x by simp
  note IH = Cons.IH [OF one(1) [folded x] rest this]
  show ?case
  proof (intro conjI allI impI)
    show "topo_ok (foldl (evict_one before) e (x # xs))" using IH by simp
    fix j st' assume "map_of (tp_instances (foldl (evict_one before) e (x # xs))) j = Some st'"
    then have "map_of (tp_instances (foldl (evict_one before) (evict_one before e x) xs)) j = Some st'" by simp
    then obtain st1 where 1: "map_of (tp_instances (evict_one before e x)) j = Some st1" "is_cluster st' = is_cluster st1"
      "is_orphanAt st' = is_orphanAt st1" "is_orphanedAt st' = is_orphanedAt st1" "(j, st1) \<in> set xs \<longrightarrow> \<not> is_ts st1 < before"
      using conjunct2 [OF IH, rule_format] by blast
    show "\<exists>st. map_of (tp_instances e) j = Some st \<and> is_cluster st' = is_cluster st \<and> is_orphanAt st' = is_orphanAt st \<and>
          is_orphanedAt st' = is_orphanedAt st \<and> ((j, st) \<in> set (x # xs) \<longrightarrow> \<not> is_ts st < before)"
    proof (cases "j = i")
      case True
      then show ?thesis using 1 st notin by (intro exI [of _ st]) (auto simp: x one(2) split: if_splits)
    next
      case False
      then show ?thesis using 1 by (intro exI [of _ st1]) (auto simp: x one(2))
    qed
  qed
qed auto

lemma evict_ok:
  assumes "topo_ok e" and "evict_topology before e = (e', n)"
  shows "topo_ok e'"
    "map_of (tp_instances e') j = Some st' \<Longrightarrow>
      \<exists>st. map_of (tp_instances e) j = Some st \<and> is_orphanAt st' = is_orphanAt st \<and> is_orphanedAt st' = is_orphanedAt st"
proof -
  note ok = topo_okD [OF assms(1)]
  define live where "live = map (is_cluster \<circ> snd) (filter (\<lambda>(i, st). \<not> is_ts st < before) (tp_instances e))"
  define e1 where "e1 = foldl (evict_one before) e (tp_instances e)"
  have ent: "\<forall>(i, st) \<in> set (tp_instances e). map_of (tp_instances e) i = Some st" using ok(1) by (auto simp: wf_map_def)
  note l = evict_loop_ok [OF assms(1) ent ok(1), of before, folded e1_def]
  note ok1 = topo_okD [OF conjunct1 [OF l]]
  have e': "tp_instances e' = tp_instances e1" "tp_index e' = filter (\<lambda>(c, _). c \<in> set live) (tp_index e1)"
    using assms(2) by (auto simp: evict_topology_def Let_def live_def e1_def)
  have islive: "c \<in> set live" if mc: "i \<in> set (members e1 c)" for c i
  proof -
    obtain st' where 1: "map_of (tp_instances e1) i = Some st'" "is_cluster st' = c" using mc ok1(4) [of i c] by auto
    then obtain st where st: "map_of (tp_instances e) i = Some st" "is_cluster st' = is_cluster st" "(i, st) \<in> set (tp_instances e) \<longrightarrow> \<not> is_ts st < before"
      using conjunct2 [OF l, rule_format, OF 1(1)] by blast
    have "(i, st) \<in> set (tp_instances e)" using st(1) by (rule map_of_SomeD)
    then have "is_cluster st \<in> set live" using st(3) by (force simp: live_def)
    then show ?thesis using 1(2) st(2) by simp
  qed
  have mem: "members e' c = (if c \<in> set live then members e1 c else [])" for c
    using ok1(2) by (auto simp: members_def get_or_def e' map_of_filter_wf split: option.split)
  have m: "set (members e' c) = set (members e1 c)" "distinct (members e' c)" for c
    using islive [of _ c] ok1(3) [of c] by (auto simp: mem)
  show "topo_ok e'" unfolding topo_ok_def using m ok1 by (simp add: e' wf_map_filter)
  show "map_of (tp_instances e') j = Some st' \<Longrightarrow>
      \<exists>st. map_of (tp_instances e) j = Some st \<and> is_orphanAt st' = is_orphanAt st \<and> is_orphanedAt st' = is_orphanedAt st"
    using conjunct2 [OF l, rule_format, of j st'] unfolding e' by blast
qed

section \<open>Runs\<close>

text \<open>
  A run applies observations, evicts, and undoes observations applied before, each any number of times and
  in any order. The marks are what the undo functions handed out so far hold.
\<close>

datatype topo_call = TApply time topo_obs | TUndo nat | TEvict time

record topo_world =
  tw_topo :: topology
  tw_marks :: "(instanceID \<times> clusterID \<times> topoMark \<times> topoMark) list"

fun topo_call1 :: "topo_call \<Rightarrow> topo_world \<Rightarrow> (topo_world \<times> topo_event list) option" where
  "topo_call1 (TApply now obs) w =
     map_option
       (\<lambda>(e, evs).
          (\<lparr>tw_topo = e, tw_marks = tw_marks w @ [(to_inst obs, to_cluster obs, mark (to_inst obs) (to_cluster obs) (tw_topo w),
                                                mark (to_inst obs) (to_cluster obs) e)]\<rparr>, evs))
       (apply_obs now obs (tw_topo w))"
| "topo_call1 (TUndo k) w =
     Some (if k < length (tw_marks w) then
             (case tw_marks w ! k of (i, c, before, written) \<Rightarrow> w\<lparr>tw_topo := revert i c before written (tw_topo w)\<rparr>)
           else w, [])"
| "topo_call1 (TEvict before) w = Some (w\<lparr>tw_topo := fst (evict_topology before (tw_topo w))\<rparr>, [])"

fun topo_run :: "topo_call list \<Rightarrow> topo_world \<Rightarrow> (topo_world \<times> topo_event list) option" where
  "topo_run [] w = Some (w, [])"
| "topo_run (c # cs) w =
     (case topo_call1 c w of
        None \<Rightarrow> None
      | Some (w1, evs) \<Rightarrow> map_option (\<lambda>(w2, evs'). (w2, evs @ evs')) (topo_run cs w1))"

lemma topo_run_ConsE:
  assumes "topo_run (c # cs) w = Some (w', evs)"
  obtains w1 evs1 evs2 where "topo_call1 c w = Some (w1, evs1)" "topo_run cs w1 = Some (w', evs2)" "evs = evs1 @ evs2"
  using assms by (auto split: option.splits prod.splits)

lemma topo_call1_apply: "topo_call1 (TApply now obs) w = Some (w1, evs) \<Longrightarrow> apply_obs now obs (tw_topo w) = Some (tw_topo w1, evs)"
  by auto

definition new_world :: topo_world where
  "new_world = \<lparr>tw_topo = newTopology, tw_marks = []\<rparr>"

lemma topo_ok_new: "topo_ok newTopology"
  by (simp add: topo_ok_def newTopology_def members_def get_or_def)

lemma topo_call1_ok:
  assumes "topo_ok (tw_topo w)"
  shows "\<exists>w' evs. topo_call1 c w = Some (w', evs) \<and> topo_ok (tw_topo w')"
proof (cases c)
  case (TApply now obs)
  then show ?thesis using apply_obs_ok [OF assms, of now obs] by auto
next
  case (TUndo k)
  then show ?thesis using assms by (auto simp: revert_ok split: prod.split)
next
  case (TEvict before)
  then show ?thesis using evict_ok(1) [OF assms, of before] by (cases "evict_topology before (tw_topo w)") auto
qed

lemma topo_run_ok: "topo_ok (tw_topo w) \<Longrightarrow> \<exists>w' evs. topo_run cs w = Some (w', evs) \<and> topo_ok (tw_topo w')"
proof (induction cs arbitrary: w)
  case (Cons c cs)
  from topo_call1_ok [OF Cons.prems] obtain w1 evs where 1: "topo_call1 c w = Some (w1, evs)" "topo_ok (tw_topo w1)" by blast
  from Cons.IH [OF 1(2)] 1(1) show ?case by auto
qed simp

text \<open>
  C33. The cluster index never dangles. Whatever observations are applied, undone in any order and evicted,
  the engine never reads the state of an instance it does not track, every cluster's members are exactly
  the tracked instances that report into it, and the split-brain check over the index gives the same
  result as a scan of every tracked instance.
\<close>

theorem topology_index_sound:
  "\<exists>w evs. topo_run cs new_world = Some (w, evs) \<and>
     (i \<in> set (members (tw_topo w) c) \<longleftrightarrow> (\<exists>st. map_of (tp_instances (tw_topo w)) i = Some st \<and> is_cluster st = c)) \<and>
     detectSplitBrain c now (tw_topo w) = Some (scan_split c now (tw_topo w))"
proof -
  obtain w evs where "topo_run cs new_world = Some (w, evs)" "topo_ok (tw_topo w)"
    using topo_run_ok [of new_world cs] by (auto simp: new_world_def topo_ok_new)
  then show ?thesis using detect_scan topo_okD(4) by blast
qed

section \<open>Repeated observations\<close>

fun is_orphan_event :: "topo_payload \<Rightarrow> bool" where
  "is_orphan_event (OrphanFor d) = True"
| "is_orphan_event _ = False"

lemma role_step_orphan: "ev \<in> set (fst (role_step e now obs old)) \<Longrightarrow> \<not> is_orphan_event (te_payload ev)"
  by (auto simp: role_step_def topo_ev_def split: if_splits option.splits)

lemma split_step_orphan: "split_step c now n e = (e', evs) \<Longrightarrow> ev \<in> set evs \<Longrightarrow> \<not> is_orphan_event (te_payload ev)"
  by (auto simp: split_step_def Let_def split: if_splits)

text \<open>What an observation does: nothing when it is a repeat, and otherwise it changes its instance and its cluster only.\<close>

lemma apply_obs_cases:
  assumes ok: "topo_ok e" and a: "apply_obs now obs e = Some (e', evs)"
  obtains (repeated) st where "map_of (tp_instances e) (to_inst obs) = Some st" "is_repeat obs st" "e' = e" "evs = []"
    | (fresh) st st' revs oevs sevs where
      "map_of (tp_instances e) (to_inst obs) = Some st \<or> map_of (tp_instances e) (to_inst obs) = None \<and> st = fresh_inst (tp_alloc e)"
      "\<not> is_repeat obs st"
      "orphan_step now obs (st\<lparr>is_lastObs := obs, is_role := to_role obs, is_cluster := to_cluster obs, is_ts := now\<rparr>) = (st', oevs)"
      "is_lastObs st' = obs" "evs = revs @ oevs @ sevs" "\<forall>ev \<in> set (revs @ sevs). \<not> is_orphan_event (te_payload ev)"
      "\<And>j. map_of (tp_instances e') j = (if j = to_inst obs then Some st' else map_of (tp_instances e) j)"
      "\<And>c. c \<noteq> to_cluster obs \<Longrightarrow> map_of (tp_lastPrimary e') c = map_of (tp_lastPrimary e) c"
      "\<And>c. c \<noteq> to_cluster obs \<Longrightarrow> map_of (tp_lastFailover e') c = map_of (tp_lastFailover e) c"
      "\<And>c. c \<noteq> to_cluster obs \<Longrightarrow> map_of (tp_lastSplit e') c = map_of (tp_lastSplit e) c"
proof -
  obtain e1 st where g: "get_inst (to_inst obs) e = (e1, st)" by fastforce
  note gf = get_inst_facts [OF g]
  show thesis
  proof (cases "is_repeat obs st")
    case True
    then have "st \<noteq> fresh_inst (tp_alloc e)" by (auto simp: is_repeat_def fresh_inst_def no_obs_def is_zero_def)
    then have st: "map_of (tp_instances e) (to_inst obs) = Some st" "e1 = e" using gf(2) by blast+
    then have "apply_obs now obs e = Some (e, [])" using True g by (simp add: apply_obs_eq)
    then show thesis using a by (intro repeated [OF st(1) True]) simp_all
  next
    case False
    obtain e5 revs oevs where o: "observed now obs e1 st = (e5, revs, oevs)" by (metis prod.exhaust)
    have "map_option (\<lambda>(e6, sevs). (e6, revs @ oevs @ sevs)) (detectSplitBrain (to_cluster obs) now e5) = Some (e', evs)"
      using a g False o by (simp add: apply_obs_eq)
    then obtain sevs where det: "detectSplitBrain (to_cluster obs) now e5 = Some (e', sevs)" and e': "evs = revs @ oevs @ sevs" by auto
    from det obtain n where n: "split_step (to_cluster obs) now n e5 = (e', sevs)"
      by (auto simp: detectSplitBrain_def split: option.splits)
    note sp = split_step_frame [OF n]
    obtain st' where of:
      "tp_instances e5 = AList.update (to_inst obs) st' (tp_instances e1)"
      "orphan_step now obs (st\<lparr>is_lastObs := obs, is_role := to_role obs, is_cluster := to_cluster obs, is_ts := now\<rparr>) = (st', oevs)"
      "is_ptr st' = is_ptr st" "is_cluster st' = to_cluster obs" "is_lastObs st' = obs"
      "\<And>c. members e5 c = (if c = to_cluster obs then List.insert (to_inst obs) (members e1 c)
         else if c = is_cluster st then removeAll (to_inst obs) (members e1 c) else members e1 c)"
      "wf_map (tp_index e1) \<Longrightarrow> wf_map (tp_index e5)"
      "tp_lastSplit e5 = tp_lastSplit e1"
      "\<And>c. c \<noteq> to_cluster obs \<Longrightarrow> map_of (tp_lastFailover e5) c = map_of (tp_lastFailover e1) c"
      "\<And>c. map_of (tp_lastPrimary e5) c =
         (if c = to_cluster obs \<and> to_role obs = rolePrimary then Some \<lparr>lp_ptr = tp_alloc e1, lp_inst = to_inst obs, lp_ts = now\<rparr>
          else map_of (tp_lastPrimary e1) c)"
      "revs = fst (role_step e1 now obs (is_role st))"
      by (rule observed_facts [OF o], rule that) blast+
    show thesis
    proof (rule fresh [of st st' oevs revs sevs])
      show "map_of (tp_instances e) (to_inst obs) = Some st \<or> map_of (tp_instances e) (to_inst obs) = None \<and> st = fresh_inst (tp_alloc e)"
        using gf(2) by blast
      show "\<forall>ev \<in> set (revs @ sevs). \<not> is_orphan_event (te_payload ev)"
        using role_step_orphan split_step_orphan [OF n] by (auto simp: of(11))
      show "map_of (tp_instances e') j = (if j = to_inst obs then Some st' else map_of (tp_instances e) j)" for j
        by (simp add: sp(1) of(1) gf(1) gomap)
    qed (simp_all add: False of(2,5,8-10) e' sp(3-6) gf(5-7))
  qed
qed

lemma apply_obs_other:
  assumes "topo_ok e" and "apply_obs now obs e = Some (e', evs)" and "j \<noteq> to_inst obs"
  shows "map_of (tp_instances e') j = map_of (tp_instances e) j"
  using assms(1,2) by (cases rule: apply_obs_cases) (use assms(3) in simp_all)

definition same_cycle :: "topo_obs \<Rightarrow> topo_obs \<Rightarrow> bool" where
  "same_cycle a b \<longleftrightarrow> to_inst a = to_inst b \<and> to_ts a = to_ts b \<and> to_role a = to_role b \<and> to_cluster a = to_cluster b \<and> to_edges a = to_edges b"

fun others :: "instanceID \<Rightarrow> topo_call \<Rightarrow> bool" where
  "others i (TApply now obs) = (to_inst obs \<noteq> i)"
| "others i _ = False"

lemma others_keep:
  assumes "topo_run cs w = Some (w', evs)" and "list_all (others i) cs" and "topo_ok (tw_topo w)"
  shows "map_of (tp_instances (tw_topo w')) i = map_of (tp_instances (tw_topo w)) i \<and> topo_ok (tw_topo w')"
  using assms
proof (induction cs arbitrary: w evs)
  case (Cons c cs)
  then obtain now obs where c: "c = TApply now obs" "i \<noteq> to_inst obs" by (cases c) auto
  from topo_call1_ok [OF Cons.prems(3), of c] obtain w1 ev where
    1: "topo_call1 c w = Some (w1, ev)" "topo_ok (tw_topo w1)" by blast
  have eq: "map_of (tp_instances (tw_topo w1)) i = map_of (tp_instances (tw_topo w)) i"
    using 1(1) c apply_obs_other [OF Cons.prems(3), of now obs] by auto
  obtain evs' where "topo_run cs w1 = Some (w', evs')" using Cons.prems(1) 1(1) by (auto elim: topo_run_ConsE)
  from Cons.IH [OF this _ 1(2)] Cons.prems(2) eq show ?case by simp
qed auto

text \<open>
  C36. A repeated envelope changes nothing. Let an observation that carries a sent time be applied, and then
  any observations of other instances: if it arrives again, as a retry or a replay from the agent's disk,
  at any later time, the engine's state stays as it is and no event is emitted.
\<close>

theorem repeated_observation_ignored:
  assumes "topo_ok (tw_topo w)" and "to_ts obs \<noteq> 0" and "same_cycle obs obs'"
    and "topo_run (TApply now obs # cs) w = Some (w', evs)" and "list_all (others (to_inst obs)) cs"
  shows "apply_obs now' obs' (tw_topo w') = Some (tw_topo w', [])"
proof -
  from assms(4) obtain w1 evs1 evs2 where 1: "topo_call1 (TApply now obs) w = Some (w1, evs1)" "topo_run cs w1 = Some (w', evs2)"
    by (rule topo_run_ConsE)
  define e1 where "e1 = tw_topo w1"
  have a: "apply_obs now obs (tw_topo w) = Some (e1, evs1)" and w1: "tw_topo w1 = e1" "topo_run cs w1 = Some (w', evs2)"
    using topo_call1_apply [OF 1(1)] 1(2) by (simp_all add: e1_def)
  have ok1: "topo_ok (tw_topo w1)" using apply_obs_ok [OF assms(1), of now obs] a w1(1) by simp
  have "\<exists>st. map_of (tp_instances e1) (to_inst obs) = Some st \<and> is_repeat obs st"
    using assms(1) a by (cases rule: apply_obs_cases) (use assms(2) in \<open>auto simp: is_repeat_def is_zero_def\<close>)
  then obtain st where st: "map_of (tp_instances (tw_topo w')) (to_inst obs) = Some st" "is_repeat obs st"
    using others_keep [OF w1(2) assms(5) ok1] w1(1) by auto
  then show ?thesis
    using assms(3) by (auto simp: apply_obs_def get_inst_def same_cycle_def is_repeat_def)
qed

definition primary_obs :: "time \<Rightarrow> topo_obs" where
  "primary_obs t = \<lparr>to_inst = ''a'', to_cluster = 7, to_role = rolePrimary, to_prior = [], to_ts = t, to_edges = []\<rparr>"

definition standby_obs :: "time \<Rightarrow> topo_obs" where
  "standby_obs t = \<lparr>to_inst = ''b'', to_cluster = 7, to_role = roleStandby, to_prior = [], to_ts = t,
     to_edges = [\<lparr>ed_from = ''b'', ed_to = ''x'', ed_type = ''streaming'', ed_sync = [], ed_confidence = ''low''\<rparr>]\<rparr>"

lemma repeated_observation_ignored_witness:
  "\<exists>w evs. topo_run [TApply second (primary_obs 5), TApply second (standby_obs 5)] new_world = Some (w, evs) \<and>
     apply_obs minute (primary_obs 5) (tw_topo w) = Some (tw_topo w, [])"
proof -
  have ok: "topo_ok (tw_topo new_world)" by (simp add: new_world_def topo_ok_new)
  obtain w evs where r: "topo_run [TApply second (primary_obs 5), TApply second (standby_obs 5)] new_world = Some (w, evs)"
    using topo_run_ok [OF ok] by blast
  have "apply_obs minute (primary_obs 5) (tw_topo w) = Some (tw_topo w, [])"
    by (rule repeated_observation_ignored [OF ok _ _ r]) (simp_all add: primary_obs_def standby_obs_def same_cycle_def)
  then show ?thesis using r by blast
qed

section \<open>Undoing an observation\<close>

definition edges_ok :: "topology \<Rightarrow> bool" where
  "edges_ok e \<longleftrightarrow> (\<forall>i st. map_of (tp_instances e) i = Some st \<longrightarrow> wf_map (is_edges st))"

lemma see_edges_wf: "wf_map (is_edges st) \<Longrightarrow> wf_map (is_edges (foldl (see_edge now) st es))"
  by (induction es arbitrary: st) (simp_all add: see_edge_def end_orphan_def gomap)

lemma orphan_step_wf: "orphan_step now obs st = (st', evs) \<Longrightarrow> wf_map (is_edges st) \<Longrightarrow> wf_map (is_edges st')"
  using see_edges_wf [of st now "to_edges obs"]
  by (auto simp: orphan_step_def orphan_evidence_def quiet_cycle_def end_orphan_def Let_def split: if_splits)

lemma sameInstanceState_refl:
  assumes "wf_map (is_edges st)"
  shows "sameInstanceState st st"
proof -
  have "map_of (is_edges st) k = Some t" if "(k, t) \<in> set (is_edges st)" for k t
    using that assms by (simp add: wf_map_def)
  then show ?thesis by (auto simp: sameInstanceState_def same_times_def list_all_iff)
qed

fun apply_all :: "(time \<times> topo_obs) list \<Rightarrow> topology \<Rightarrow> topology option" where
  "apply_all [] e = Some e"
| "apply_all ((now, obs) # os) e = (case apply_obs now obs e of None \<Rightarrow> None | Some (e1, evs) \<Rightarrow> apply_all os e1)"

definition elsewhere :: "topo_obs \<Rightarrow> time \<times> topo_obs \<Rightarrow> bool" where
  "elsewhere obs x \<longleftrightarrow> to_inst (snd x) \<noteq> to_inst obs \<and> to_cluster (snd x) \<noteq> to_cluster obs"

lemma elsewhere_keeps:
  assumes "apply_all os e = Some e'" and "list_all (elsewhere obs) os" and "topo_ok e"
  shows "topo_ok e' \<and> mark (to_inst obs) (to_cluster obs) e' = mark (to_inst obs) (to_cluster obs) e"
  using assms
proof (induction os arbitrary: e)
  case (Cons x os)
  obtain now o1 where x: "x = (now, o1)" by fastforce
  obtain e1 evs where 1: "apply_obs now o1 e = Some (e1, evs)" "topo_ok e1" using apply_obs_ok [OF Cons.prems(3), of now o1] by blast
  have "to_inst obs \<noteq> to_inst o1" "to_cluster obs \<noteq> to_cluster o1" using Cons.prems(2) x by (auto simp: elsewhere_def)
  then have "mark (to_inst obs) (to_cluster obs) e1 = mark (to_inst obs) (to_cluster obs) e"
    using Cons.prems(3) 1(1) by - (cases rule: apply_obs_cases, assumption+, simp_all add: mark_def)
  moreover have "topo_ok e' \<and> mark (to_inst obs) (to_cluster obs) e' = mark (to_inst obs) (to_cluster obs) e1"
    using Cons.IH [OF _ _ 1(2)] Cons.prems(1,2) x 1(1) by simp
  ultimately show ?case by simp
qed simp

lemma revert_facts:
  assumes w: "mark i c e = written" and live: "tm_inst written = Some live" and wf: "wf_map (is_edges live)"
    and ptr: "\<And>b. tm_inst before = Some b \<Longrightarrow> is_ptr b = is_ptr live"
  shows "map_of (tp_instances (revert i c before written e)) j = (if j = i then tm_inst before else map_of (tp_instances e) j)"
    "map_of (tp_lastPrimary (revert i c before written e)) c' = (if c' = c then tm_lastPrim before else map_of (tp_lastPrimary e) c')"
    "map_of (tp_lastFailover (revert i c before written e)) c' = (if c' = c then tm_failover before else map_of (tp_lastFailover e) c')"
    "map_of (tp_lastSplit (revert i c before written e)) c' = (if c' = c then tm_split before else map_of (tp_lastSplit e) c')"
proof -
  have l: "map_of (tp_instances e) i = Some live" and wr: "tm_lastPrim written = map_of (tp_lastPrimary e) c"
    "tm_failover written = map_of (tp_lastFailover e) c" "tm_split written = map_of (tp_lastSplit e) c"
    using w live by (auto simp: mark_def)
  have same: "b\<lparr>is_ptr := is_ptr live\<rparr> = b" if "tm_inst before = Some b" for b using ptr [OF that] by (cases b) simp
  have hit: "revert_inst i (tm_inst before) (tm_inst written) e =
      (case tm_inst before of
         None \<Rightarrow> (drop_member (is_cluster live) i e)\<lparr>tp_instances := AList.delete i (tp_instances e)\<rparr>
       | Some b \<Rightarrow> enindex (is_cluster b) i ((drop_member (is_cluster live) i e)\<lparr>tp_instances := AList.update i b (tp_instances e)\<rparr>))"
    using l live same sameInstanceState_refl [OF wf] by (simp add: revert_inst_def Let_def split: option.split)
  have fr: "tp_lastPrimary (revert_inst i (tm_inst before) (tm_inst written) e) = tp_lastPrimary e"
      "tp_lastFailover (revert_inst i (tm_inst before) (tm_inst written) e) = tp_lastFailover e"
      "tp_lastSplit (revert_inst i (tm_inst before) (tm_inst written) e) = tp_lastSplit e"
    unfolding hit by (simp_all split: option.split)
  have "map_of (tp_instances (revert_inst i (tm_inst before) (tm_inst written) e)) j = (if j = i then tm_inst before else map_of (tp_instances e) j)" for j
    unfolding hit by (simp add: gomap split: option.split)
  then show "map_of (tp_instances (revert i c before written e)) j = (if j = i then tm_inst before else map_of (tp_instances e) j)"
    by (simp add: revert_def Let_def)
  show "map_of (tp_lastPrimary (revert i c before written e)) c' = (if c' = c then tm_lastPrim before else map_of (tp_lastPrimary e) c')"
    by (simp add: revert_def Let_def fr wr gomap split: option.split)
  show "map_of (tp_lastFailover (revert i c before written e)) c' = (if c' = c then tm_failover before else map_of (tp_lastFailover e) c')"
    "map_of (tp_lastSplit (revert i c before written e)) c' = (if c' = c then tm_split before else map_of (tp_lastSplit e) c')"
    by (simp_all add: revert_def Let_def fr wr revertTime_def gomap split: option.split)
qed

text \<open>
  C34. The undo of an observation takes back what it did and nothing else. Let an observation be applied and
  then any observations of other instances in other clusters. The undo puts back the state of its
  instance, and its cluster's last primary, last failover and last split-brain report, as they were
  before; everything the later observations recorded stays, and the cluster index stays sound.
\<close>

theorem undo_takes_back:
  assumes "topo_ok e" and "edges_ok e" and "applyUndoable now obs e = Some (e1, evs, undo)"
    and "apply_all os e1 = Some e2" and "list_all (elsewhere obs) os"
  shows "map_of (tp_instances (undo e2)) j = map_of (tp_instances (if j = to_inst obs then e else e2)) j \<and>
    map_of (tp_lastPrimary (undo e2)) c = map_of (tp_lastPrimary (if c = to_cluster obs then e else e2)) c \<and>
    map_of (tp_lastFailover (undo e2)) c = map_of (tp_lastFailover (if c = to_cluster obs then e else e2)) c \<and>
    map_of (tp_lastSplit (undo e2)) c = map_of (tp_lastSplit (if c = to_cluster obs then e else e2)) c \<and>
    topo_ok (undo e2)"
proof -
  let ?i = "to_inst obs" and ?c = "to_cluster obs"
  from assms(3) have a: "apply_obs now obs e = Some (e1, evs)" and undo: "undo = revert ?i ?c (mark ?i ?c e) (mark ?i ?c e1)"
    by (auto simp: applyUndoable_def Let_def)
  have ok1: "topo_ok e1" using apply_obs_ok [OF assms(1), of now obs] a by simp
  have e2: "topo_ok e2" "mark ?i ?c e2 = mark ?i ?c e1" using elsewhere_keeps [OF assms(4,5) ok1] by simp_all
  have "\<exists>live. tm_inst (mark ?i ?c e1) = Some live \<and> wf_map (is_edges live) \<and> (\<forall>b. tm_inst (mark ?i ?c e) = Some b \<longrightarrow> is_ptr b = is_ptr live)"
    using assms(1) a
  proof (cases rule: apply_obs_cases)
    case (repeated st)
    then show ?thesis using assms(2) by (auto simp: mark_def edges_ok_def)
  next
    case (fresh st st' revs oevs sevs)
    have "wf_map (is_edges st)" using fresh(1) assms(2) by (auto simp: edges_ok_def fresh_inst_def)
    then have "wf_map (is_edges st')" by (intro orphan_step_wf [OF fresh(3)]) simp
    then show ?thesis using fresh(1,7) orphan_step_frame(1) [OF fresh(3)] by (auto simp: mark_def)
  qed
  then obtain live where live: "tm_inst (mark ?i ?c e1) = Some live" "wf_map (is_edges live)"
    "\<And>b. tm_inst (mark ?i ?c e) = Some b \<Longrightarrow> is_ptr b = is_ptr live" by blast
  note rf = revert_facts [OF e2(2) live(1,2), of "mark ?i ?c e", OF live(3)]
  have "topo_ok (undo e2)" unfolding undo by (rule revert_ok [OF e2(1)])
  then show ?thesis using rf by (simp add: undo mark_def)
qed

lemma undo_takes_back_witness:
  "\<exists>e1 evs undo. applyUndoable minute (primary_obs 5) newTopology = Some (e1, evs, undo) \<and>
     map_of (tp_instances (undo e1)) ''a'' = None \<and> map_of (tp_lastPrimary (undo e1)) 7 = None"
proof -
  obtain e1 evs where a: "apply_obs minute (primary_obs 5) newTopology = Some (e1, evs)"
    using apply_obs_ok [OF topo_ok_new] by blast
  let ?u = "revert ''a'' 7 (mark ''a'' 7 newTopology) (mark ''a'' 7 e1)"
  have u: "applyUndoable minute (primary_obs 5) newTopology = Some (e1, evs, ?u)"
    using a by (simp add: applyUndoable_def Let_def primary_obs_def)
  have "edges_ok newTopology" by (simp add: edges_ok_def newTopology_def)
  from undo_takes_back [OF topo_ok_new this u, of "[]" e1 "''a''" 7]
  have "map_of (tp_instances (?u e1)) ''a'' = None" "map_of (tp_lastPrimary (?u e1)) 7 = None"
    by (simp_all add: primary_obs_def newTopology_def)
  then show ?thesis using u by blast
qed

end
