(* ===== verification/Topology_Orphans.thy ===== *)
theory Topology_Orphans
  imports Topology_Inv
begin

text \<open>
  The spacing of the events of an orphaned standby over runs of the topology engine.
\<close>

section \<open>Orphaned standbys\<close>

definition orphan_times :: "instanceID \<Rightarrow> topo_event list \<Rightarrow> time list" where
  "orphan_times i evs = map te_ts (filter (\<lambda>ev. te_inst ev = i \<and> is_orphan_event (te_payload ev)) evs)"

fun spaced :: "duration \<Rightarrow> time list \<Rightarrow> bool" where
  "spaced d (t # u # ts) = (t + d \<le> u \<and> spaced d (u # ts))"
| "spaced d _ = True"

text \<open>The server's clock does not go back, and no observation is undone.\<close>

fun timed :: "time \<Rightarrow> topo_call list \<Rightarrow> bool" where
  "timed t [] = True"
| "timed t (TApply now obs # cs) = (t \<le> now \<and> timed now cs)"
| "timed t (TEvict before # cs) = timed t cs"
| "timed t (TUndo k # cs) = False"

text \<open>The state of a standby after its last orphan event, which was at \<open>l\<close>.\<close>

definition after_orphan :: "time option \<Rightarrow> instanceState \<Rightarrow> bool" where
  "after_orphan l st \<longleftrightarrow>
     (case l of None \<Rightarrow> True
      | Some t \<Rightarrow> is_orphanedAt st = t \<or> is_orphanedAt st = 0 \<and> (is_orphanAt st = 0 \<or> t \<le> is_orphanAt st))"

lemma see_edges_orphan:
  "is_orphanAt (foldl (see_edge now) st es) = is_orphanAt st \<and> is_orphanedAt (foldl (see_edge now) st es) = is_orphanedAt st \<or>
   is_orphanAt (foldl (see_edge now) st es) = 0 \<and> is_orphanedAt (foldl (see_edge now) st es) = 0"
proof (induction es arbitrary: st)
  case (Cons ed es)
  from Cons.IH [of "see_edge now st ed"] show ?case by (auto simp: see_edge_def end_orphan_def)
qed simp

lemma after_orphan_cong:
  assumes "after_orphan l st" and "is_orphanAt st' = is_orphanAt st \<and> is_orphanedAt st' = is_orphanedAt st \<or> is_orphanAt st' = 0 \<and> is_orphanedAt st' = 0"
  shows "after_orphan l st'"
  using assms by (auto simp: after_orphan_def split: option.splits)

lemma window_sub: "orphanWindow \<le> time_sub t u \<longleftrightarrow> orphanWindow \<le> t - u"
  by (rule time_sub_ge_iff) (simp_all add: orphanWindow_def second_def min_duration_def max_duration_def)

lemma orphan_step_spaced:
  assumes st: "after_orphan l st" and l: "\<And>t. l = Some t \<Longrightarrow> t \<le> now" and o: "orphan_step now obs st = (st', evs)"
  shows "evs = [] \<and> after_orphan l st' \<or>
    (\<exists>d. evs = [topo_ev now obs (OrphanFor d)]) \<and> after_orphan (Some now) st' \<and> (\<forall>t. l = Some t \<longrightarrow> t + orphanWindow \<le> now)"
proof -
  have W: "0 < orphanWindow" by (simp add: orphanWindow_def second_def)
  have quiet: "after_orphan l (quiet_cycle now obs s)" if "after_orphan l s" for s
    using that by (rule after_orphan_cong) (simp add: quiet_cycle_def end_orphan_def Let_def)
  let ?s = "foldl (see_edge now) st (to_edges obs)"
  have s: "after_orphan l ?s" by (rule after_orphan_cong [OF st see_edges_orphan])
  show ?thesis
  proof (cases "to_role obs = roleStandby \<and> \<not> list_ex (\<lambda>ed. ed_confidence ed = ''high'') (to_edges obs) \<and> to_edges obs \<noteq> []")
    case True
    then have "orphan_evidence now obs ?s = (st', evs)" using o by (simp add: orphan_step_def Let_def)
    then show ?thesis
      using s l W by (auto simp: orphan_evidence_def Let_def window_sub after_orphan_def is_zero_def split: if_splits option.splits)
  next
    case False
    then have "evs = []" "st' \<in> {quiet_cycle now obs ?s, quiet_cycle now obs st, end_orphan st, st}"
      using o by (auto simp: orphan_step_def Let_def split: if_splits)
    moreover have "after_orphan l (end_orphan st)" by (rule after_orphan_cong [OF st]) (simp add: end_orphan_def)
    ultimately show ?thesis using quiet [OF s] quiet [OF st] st by auto
  qed
qed

lemma orphan_times_append: "orphan_times i (xs @ ys) = orphan_times i xs @ orphan_times i ys"
  by (simp add: orphan_times_def)

text \<open>One observation: no event and the same last one, or an event now, a window after the last one.\<close>

lemma orphan_apply_step:
  assumes ok: "topo_ok e" and a: "apply_obs now obs e = Some (e1, evs)"
    and st: "\<And>st. map_of (tp_instances e) i = Some st \<Longrightarrow> after_orphan l st" and l: "\<And>u. l = Some u \<Longrightarrow> u \<le> now"
  shows "orphan_times i evs = [] \<and> (\<forall>st. map_of (tp_instances e1) i = Some st \<longrightarrow> after_orphan l st) \<or>
    orphan_times i evs = [now] \<and> (\<forall>st. map_of (tp_instances e1) i = Some st \<longrightarrow> after_orphan (Some now) st) \<and>
      (\<forall>u. l = Some u \<longrightarrow> u + orphanWindow \<le> now)"
  using ok a
proof (cases rule: apply_obs_cases)
  case (repeated s)
  then show ?thesis using st by (simp add: orphan_times_def)
next
  case (fresh s s' revs oevs sevs)
  let ?s = "s\<lparr>is_lastObs := obs, is_role := to_role obs, is_cluster := to_cluster obs, is_ts := now\<rparr>"
  have none: "orphan_times i revs = []" "orphan_times i sevs = []"
    using fresh(6) by (auto simp: orphan_times_def filter_empty_conv)
  show ?thesis
  proof (cases "i = to_inst obs")
    case True
    have "after_orphan l s" using fresh(1) st True by (auto simp: after_orphan_def fresh_inst_def split: option.split)
    then have "after_orphan l ?s" by (rule after_orphan_cong) simp
    from orphan_step_spaced [OF this l fresh(3)] show ?thesis
      by (auto simp: fresh(5,7) True orphan_times_append none [unfolded True]) (simp_all add: orphan_times_def topo_ev_def)
  next
    case False
    have "orphan_times i oevs = []"
      using fresh(3) False
      by (auto simp: orphan_step_def orphan_evidence_def Let_def orphan_times_def topo_ev_def split: if_splits)
    then show ?thesis using False st by (simp add: fresh(5,7) orphan_times_append none)
  qed
qed

lemma orphan_run_spaced:
  assumes "topo_run cs w = Some (w', evs)" and "topo_ok (tw_topo w)" and "timed t cs" and "0 < t"
    and "\<And>st. map_of (tp_instances (tw_topo w)) i = Some st \<Longrightarrow> after_orphan l st" and "\<And>u. l = Some u \<Longrightarrow> u \<le> t"
  shows "spaced orphanWindow ((case l of None \<Rightarrow> [] | Some u \<Rightarrow> [u]) @ orphan_times i evs)"
  using assms
proof (induction cs arbitrary: w evs t l)
  case Nil
  then show ?case by (auto simp: orphan_times_def split: option.split)
next
  case (Cons c cs)
  from Cons.prems(1) obtain w1 evs1 evs2 where 1: "topo_call1 c w = Some (w1, evs1)" "topo_run cs w1 = Some (w', evs2)" "evs = evs1 @ evs2"
    by (rule topo_run_ConsE)
  have ok1: "topo_ok (tw_topo w1)" using topo_call1_ok [OF Cons.prems(2), of c] 1(1) by auto
  note IH = Cons.IH [OF 1(2) ok1]
  show ?case
  proof (cases c)
    case (TUndo k)
    then show ?thesis using Cons.prems(3) by simp
  next
    case (TEvict before)
    obtain e' n where e': "evict_topology before (tw_topo w) = (e', n)" by fastforce
    then have w1: "tw_topo w1 = e'" "evs1 = []" using 1(1) TEvict by auto
    have "after_orphan l st" if st: "map_of (tp_instances (tw_topo w1)) i = Some st" for st
    proof -
      obtain st0 where "map_of (tp_instances (tw_topo w)) i = Some st0" "is_orphanAt st = is_orphanAt st0" "is_orphanedAt st = is_orphanedAt st0"
        using evict_ok(2) [OF Cons.prems(2) e', of i st] st w1(1) by auto
      then show ?thesis using Cons.prems(5) by (simp add: after_orphan_def split: option.splits)
    qed
    then show ?thesis using IH [of t l] Cons.prems(3,4,6) TEvict by (simp add: 1(3) w1(2))
  next
    case (TApply now obs)
    have a: "apply_obs now obs (tw_topo w) = Some (tw_topo w1, evs1)" by (rule topo_call1_apply [OF 1(1) [unfolded TApply]])
    have t: "t \<le> now" "timed now cs" "0 < now" using Cons.prems(3,4) TApply by simp_all
    have l: "u \<le> now" if "l = Some u" for u using Cons.prems(6) [OF that] t(1) by simp
    note step = orphan_apply_step [OF Cons.prems(2) a, of i l, OF Cons.prems(5) l]
    show ?thesis
    proof (cases "orphan_times i evs1 = []")
      case True
      then have inv: "\<forall>st. map_of (tp_instances (tw_topo w1)) i = Some st \<longrightarrow> after_orphan l st" using step by simp
      have "spaced orphanWindow ((case l of None \<Rightarrow> [] | Some u \<Rightarrow> [u]) @ orphan_times i evs2)"
        by (rule IH [OF t(2,3)]) (use inv l in blast)+
      then show ?thesis using True by (simp add: 1(3) orphan_times_append)
    next
      case False
      then have ev: "orphan_times i evs1 = [now]" and gap: "\<forall>u. l = Some u \<longrightarrow> u + orphanWindow \<le> now"
        and inv: "\<forall>st. map_of (tp_instances (tw_topo w1)) i = Some st \<longrightarrow> after_orphan (Some now) st" using step by simp_all
      have "spaced orphanWindow ((case Some now of None \<Rightarrow> [] | Some u \<Rightarrow> [u]) @ orphan_times i evs2)"
        by (rule IH [OF t(2,3)]) (use inv in auto)
      then show ?thesis using gap by (simp add: 1(3) orphan_times_append ev split: option.split)
    qed
  qed
qed

text \<open>
  C35. A standby that stays orphaned is reported at most once a minute. Over any observations and evictions
  at times that do not go back, in any episodes, two orphan_standby events of one instance are at least
  the orphan window apart.
\<close>

theorem orphan_events_spaced:
  assumes "timed t cs" and "0 < t" and "topo_run cs new_world = Some (w, evs)"
  shows "spaced orphanWindow (orphan_times i evs)"
  using orphan_run_spaced [OF assms(3) _ assms(1,2), of i None] by (simp add: new_world_def topo_ok_new) (simp add: newTopology_def)

text \<open>Five observations of an orphaned standby, forty seconds apart.\<close>

definition orphan_calls :: "topo_call list" where
  "orphan_calls = map (\<lambda>t. TApply (t * second) (standby_obs (t * second))) [1, 41, 81, 121, 161]"

lemma orphan_events_spaced_witness:
  "\<exists>w evs. topo_run orphan_calls new_world = Some (w, evs) \<and> spaced orphanWindow (orphan_times ''b'' evs)"
proof -
  have "topo_ok (tw_topo new_world)" by (simp add: new_world_def topo_ok_new)
  then obtain w evs where r: "topo_run orphan_calls new_world = Some (w, evs)" using topo_run_ok by blast
  have "timed second orphan_calls" by (simp add: orphan_calls_def second_def)
  from orphan_events_spaced [OF this _ r, of "''b''"] show ?thesis using r by (simp add: second_def)
qed

end
