(* ===== verification/Redact.thy ===== *)
theory Redact
  imports Go_Text
begin

text \<open>
  What may leave a monitored database as text (\<^verbatim>\<open>internal/redact\<close>): the search for signs of a credential
  under the three ways PostgreSQL may read a string, and the form in which a free-text name is shipped.
\<close>

section \<open>Bytes\<close>

definition bv :: "char \<Rightarrow> nat" where
  "bv c = of_char c"

definition is_lower :: "char \<Rightarrow> bool" where "is_lower c \<longleftrightarrow> 97 \<le> bv c \<and> bv c \<le> 122"
definition is_upper :: "char \<Rightarrow> bool" where "is_upper c \<longleftrightarrow> 65 \<le> bv c \<and> bv c \<le> 90"
definition is_digit :: "char \<Rightarrow> bool" where "is_digit c \<longleftrightarrow> 48 \<le> bv c \<and> bv c \<le> 57"

definition lower_char :: "char \<Rightarrow> char" where
  "lower_char c = (if is_upper c then char_of (bv c + 32) else c)"

definition hexValue :: "char \<Rightarrow> int" where
  "hexValue c =
     (if is_digit c then int (bv c) - 48
      else if 97 \<le> bv c \<and> bv c \<le> 102 then int (bv c) - 97 + 10
      else if 65 \<le> bv c \<and> bv c \<le> 70 then int (bv c) - 65 + 10
      else -1)"

fun readDigits :: "string \<Rightarrow> nat \<Rightarrow> int \<Rightarrow> int \<Rightarrow> int \<times> nat" where
  "readDigits s 0 base v = (v, 0)"
| "readDigits [] (Suc limit) base v = (v, 0)"
| "readDigits (c # s) (Suc limit) base v =
     (if hexValue c < 0 \<or> base \<le> hexValue c then (v, 0)
      else case readDigits s limit base (v * base + hexValue c) of (w, n) \<Rightarrow> (w, n + 1))"

text \<open>\<^verbatim>\<open>rune(v)\<close> wraps to 32 bits; \<^verbatim>\<open>WriteRune\<close> writes U+FFFD for what is not a rune.\<close>

definition to_rune :: "int \<Rightarrow> int" where
  "to_rune v = (v + 2147483648) mod 4294967296 - 2147483648"

definition validRune :: "int \<Rightarrow> bool" where
  "validRune r \<longleftrightarrow> 0 \<le> r \<and> r < 55296 \<or> 57343 < r \<and> r \<le> 1114111"

definition utf8_encode :: "int \<Rightarrow> string" where
  "utf8_encode r0 =
     (let r = nat (if validRune r0 then r0 else 65533) in
      if r < 128 then [char_of r]
      else if r < 2048 then [char_of (192 + r div 64), char_of (128 + r mod 64)]
      else if r < 65536 then [char_of (224 + r div 4096), char_of (128 + r div 64 mod 64), char_of (128 + r mod 64)]
      else [char_of (240 + r div 262144), char_of (128 + r div 4096 mod 64), char_of (128 + r div 64 mod 64), char_of (128 + r mod 64)])"

section \<open>Signs of a credential\<close>

definition withheld :: string where "withheld = ''[redacted]''"

definition credentialWords :: "string list" where
  "credentialWords = [''password'', ''passwd'', ''secret'', ''uescape'']"

definition keepBytes :: "bool \<Rightarrow> string \<Rightarrow> string" where
  "keepBytes uri text =
     map lower_char (filter (\<lambda>c. is_lower c \<or> is_digit c \<or> is_upper c \<or> uri \<and> (bv c = 58 \<or> bv c = 47)) text)"

definition connectionURI :: "string \<Rightarrow> bool" where
  "connectionURI s \<longleftrightarrow> contains_text ''postgres:/'' s \<or> contains_text ''postgresql:/'' s"

definition backslash :: char where "backslash = CHR 0x5C"

function decode_escapes :: "string \<Rightarrow> string" where
  "decode_escapes [] = []"
| "decode_escapes [c] = [c]"
| "decode_escapes (c # d # s) =
     (if c \<noteq> backslash then c # decode_escapes (d # s)
      else if d \<in> set ''bfnrt'' then CHR '' '' # decode_escapes s
      else if 48 \<le> bv d \<and> bv d \<le> 55 then
        (case readDigits (d # s) 3 8 0 of (v, n) \<Rightarrow> char_of (nat v mod 256) # decode_escapes (drop (n - 1) s))
      else if d = CHR ''x'' \<and> s \<noteq> [] \<and> 0 \<le> hexValue (hd s) then
        (case readDigits s 2 16 0 of (v, n) \<Rightarrow> char_of (nat v mod 256) # decode_escapes (drop n s))
      else if d = CHR ''u'' \<or> d = CHR ''U'' then
        (let width = (if d = CHR ''U'' then 8 else 4) in
         case readDigits s width 16 0 of (v, n) \<Rightarrow>
           if n \<noteq> width then d # decode_escapes s else utf8_encode (to_rune v) @ decode_escapes (drop n s))
      else d # decode_escapes s)"
  by pat_completeness auto
termination
  by (relation "measure length") auto

definition decodeEscapeString :: "string \<Rightarrow> string" where
  "decodeEscapeString text = (if backslash \<notin> set text then text else decode_escapes text)"

function decode_unicode :: "string \<Rightarrow> string" where
  "decode_unicode [] = []"
| "decode_unicode [c] = [c]"
| "decode_unicode (c # d # s) =
     (if c \<noteq> backslash then c # decode_unicode (d # s)
      else
        (let (width, from) = (if d = CHR ''+'' then (6, s) else (4, d # s)) in
         case readDigits from width 16 0 of (v, n) \<Rightarrow>
           if n = width \<and> validRune (to_rune v) then utf8_encode (to_rune v) @ decode_unicode (drop n from)
           else d # decode_unicode s))"
  by pat_completeness auto
termination
  by (relation "measure length") (auto split: if_splits)

definition decodeUnicodeString :: "string \<Rightarrow> string" where
  "decodeUnicodeString text = (if backslash \<notin> set text then text else decode_unicode text)"

definition shows_sign :: "string \<Rightarrow> bool" where
  "shows_sign text \<longleftrightarrow> list_ex (\<lambda>w. contains_text w (keepBytes False text)) credentialWords \<or> connectionURI (keepBytes True text)"

definition mayHoldCredential :: "string \<Rightarrow> bool" where
  "mayHoldCredential query \<longleftrightarrow> list_ex shows_sign [query, decodeEscapeString query, decodeUnicodeString query]"

section \<open>Names\<close>

definition identityMaxBytes :: nat where "identityMaxBytes = 64"

definition runeStart :: "char \<Rightarrow> bool" where
  "runeStart c \<longleftrightarrow> \<not> (128 \<le> bv c \<and> bv c < 192)"

fun cut_back :: "string \<Rightarrow> nat \<Rightarrow> nat" where
  "cut_back s 0 = 0"
| "cut_back s (Suc k) = (if runeStart (s ! Suc k) then Suc k else cut_back s k)"

definition truncateUTF8 :: "nat \<Rightarrow> string \<Rightarrow> string" where
  "truncateUTF8 m s = (if length s \<le> m then s else take (cut_back s m) s)"

definition identity_text :: "string \<Rightarrow> string" where
  "identity_text name =
     (if mayHoldCredential name then withheld
      else if mayHoldCredential (truncateUTF8 identityMaxBytes name) then withheld
      else truncateUTF8 identityMaxBytes name)"

section \<open>Escapes do not hide a sign\<close>

lemma bv_char_of: "n < 256 \<Longrightarrow> bv (char_of n) = n"
  by (simp add: bv_def)

lemma char_of_bv [simp]: "char_of (bv c) = c"
  by (simp add: bv_def)

lemma bv_less [simp]: "bv c < 256"
  by (simp add: bv_def)

definition digit_char :: "nat \<Rightarrow> char" where
  "digit_char n = char_of (if n < 10 then 48 + n else 87 + n)"

lemma hexValue_digit: "n < 16 \<Longrightarrow> hexValue (digit_char n) = int n"
  by (auto simp: digit_char_def hexValue_def is_digit_def bv_char_of)

lemma bv_digit: "n < 10 \<Longrightarrow> bv (digit_char n) = 48 + n"
  by (simp add: digit_char_def bv_char_of)

definition hex2 :: "nat \<Rightarrow> string" where
  "hex2 n = [digit_char (n div 16), digit_char (n mod 16)]"

definition hex4 :: "nat \<Rightarrow> string" where "hex4 n = ''00'' @ hex2 n"
definition hex8 :: "nat \<Rightarrow> string" where "hex8 n = ''000000'' @ hex2 n"

definition octal3 :: "nat \<Rightarrow> string" where
  "octal3 n = [digit_char (n div 64), digit_char (n div 8 mod 8), digit_char (n mod 8)]"

text \<open>
  How a text can be written in an escape string: any byte but a backslash as itself, every byte with two
  hexadecimal or three octal digits, and an ASCII byte as a Unicode escape of four or eight digits.
\<close>

inductive spells :: "string \<Rightarrow> string \<Rightarrow> bool" where
  "spells [] []"
| "spells t w \<Longrightarrow> c \<noteq> backslash \<Longrightarrow> spells (c # t) (c # w)"
| "spells t w \<Longrightarrow> spells (c # t) (backslash # CHR ''x'' # hex2 (bv c) @ w)"
| "spells t w \<Longrightarrow> spells (c # t) (backslash # octal3 (bv c) @ w)"
| "spells t w \<Longrightarrow> bv c < 128 \<Longrightarrow> spells (c # t) (backslash # CHR ''u'' # hex4 (bv c) @ w)"
| "spells t w \<Longrightarrow> bv c < 128 \<Longrightarrow> spells (c # t) (backslash # CHR ''U'' # hex8 (bv c) @ w)"

lemma digits_value:
  fixes n :: nat
  assumes "n < 256"
  shows "n div 16 < 16" "n div 64 < 4" "n div 16 * 16 + n mod 16 = n" "(n div 64 * 8 + n div 8 mod 8) * 8 + n mod 8 = n"
proof -
  show "n div 16 < 16" "n div 64 < 4" using assms by (simp_all add: less_mult_imp_div_less)
  have "n div 64 = n div 8 div 8" by (simp add: div_mult2_eq [symmetric])
  then show "(n div 64 * 8 + n div 8 mod 8) * 8 + n mod 8 = n" by simp
qed simp

lemma digits_value_int:
  assumes "n < 256"
  shows "int (n div 16) * 16 + int (n mod 16) = int n" "(int (n div 64) * 8 + int (n div 8 mod 8)) * 8 + int (n mod 8) = int n"
proof -
  show "int (n div 16) * 16 + int (n mod 16) = int n"
    using arg_cong [OF digits_value(3) [OF assms], of int] unfolding of_nat_add of_nat_mult of_nat_numeral .
  show "(int (n div 64) * 8 + int (n div 8 mod 8)) * 8 + int (n mod 8) = int n"
    using arg_cong [OF digits_value(4) [OF assms], of int] unfolding of_nat_add of_nat_mult of_nat_numeral .
qed

lemma hexValue_zero: "hexValue (CHR ''0'') = 0"
  by (simp add: hexValue_def is_digit_def bv_def)

lemma readDigits_Cons:
  "readDigits (c # s) (numeral k) base v =
     (if hexValue c < 0 \<or> base \<le> hexValue c then (v, 0)
      else case readDigits s (pred_numeral k) base (v * base + hexValue c) of (w, n) \<Rightarrow> (w, n + 1))"
  by (simp add: numeral_eq_Suc)

lemma digit_step:
  assumes "n < 16" and "int n < base"
  shows "readDigits (digit_char n # s) (numeral k) base v =
    (case readDigits s (pred_numeral k) base (v * base + int n) of (w, m) \<Rightarrow> (w, m + 1))"
    "readDigits (digit_char n # s) (Suc 0) base v = (v * base + int n, 1)"
  using assms by (simp_all add: readDigits_Cons hexValue_digit)

lemma zero_step:
  "readDigits (CHR ''0'' # s) (numeral k) 16 0 = (case readDigits s (pred_numeral k) 16 0 of (w, m) \<Rightarrow> (w, m + 1))"
  by (simp add: readDigits_Cons hexValue_zero)

lemma read_hex2:
  assumes "n < 256"
  shows "readDigits (hex2 n @ w) 2 16 0 = (int n, 2)"
proof -
  define a b where "a = n div 16" and "b = n mod 16"
  have "a < 16" "b < 16" "int a * 16 + int b = int n"
    using digits_value(1) [OF assms] digits_value_int(1) [OF assms] by (simp_all add: a_def b_def)
  then show ?thesis by (simp add: hex2_def a_def [symmetric] b_def [symmetric] digit_step hexValue_digit)
qed

lemma read_hex4: "n < 256 \<Longrightarrow> readDigits (hex4 n @ w) 4 16 0 = (int n, 4)"
  using read_hex2 [of n w] by (simp add: hex4_def zero_step)

lemma read_hex8: "n < 256 \<Longrightarrow> readDigits (hex8 n @ w) 8 16 0 = (int n, 8)"
  using read_hex2 [of n w] by (simp add: hex8_def zero_step)

lemma read_octal3:
  assumes "n < 256"
  shows "readDigits (octal3 n @ w) 3 8 0 = (int n, 3)"
proof -
  define a b c where "a = n div 64" and "b = n div 8 mod 8" and "c = n mod 8"
  have "a < 4" "b < 8" "c < 8" "(int a * 8 + int b) * 8 + int c = int n"
    using digits_value(2) [OF assms] digits_value_int(2) [OF assms] by (simp_all add: a_def b_def c_def)
  then show ?thesis by (simp add: octal3_def a_def [symmetric] b_def [symmetric] c_def [symmetric] digit_step hexValue_digit)
qed

declare decode_escapes.simps(3) [simp del]

lemma decode_plain: "c \<noteq> backslash \<Longrightarrow> decode_escapes (c # w) = c # decode_escapes w"
  by (cases w) (simp_all add: decode_escapes.simps(3))

lemma decode_hex: "decode_escapes (backslash # CHR ''x'' # hex2 (bv c) @ w) = c # decode_escapes w"
proof -
  have "hex2 (bv c) @ w \<noteq> []" "0 \<le> hexValue (hd (hex2 (bv c) @ w))" "drop 2 (hex2 (bv c) @ w) = w"
    by (simp_all add: hex2_def hexValue_digit digits_value(1))
  then show ?thesis using read_hex2 [of "bv c" w] by (simp add: decode_escapes.simps(3) bv_def [of "CHR ''x''"])
qed

lemma decode_octal: "decode_escapes (backslash # octal3 (bv c) @ w) = c # decode_escapes w"
proof -
  let ?d = "digit_char (bv c div 64)" and ?s = "digit_char (bv c div 8 mod 8) # digit_char (bv c mod 8) # w"
  have d: "48 \<le> bv ?d" "bv ?d \<le> 55" using digits_value(2) [of "bv c"] by (simp_all add: bv_digit)
  then have "?d \<notin> set ''bfnrt''" by (auto simp: bv_def)
  then show ?thesis
    using d read_octal3 [of "bv c" w] by (simp add: octal3_def decode_escapes.simps(3))
qed

lemma utf8_ascii: "n < 128 \<Longrightarrow> utf8_encode (to_rune (int n)) = [char_of n]"
  by (simp add: utf8_encode_def to_rune_def validRune_def)

lemma decode_u:
  assumes "bv c < 128"
  shows "decode_escapes (backslash # CHR ''u'' # hex4 (bv c) @ w) = c # decode_escapes w"
    "decode_escapes (backslash # CHR ''U'' # hex8 (bv c) @ w) = c # decode_escapes w"
proof -
  have "drop 4 (hex4 (bv c) @ w) = w" "drop 8 (hex8 (bv c) @ w) = w" by (simp_all add: hex4_def hex8_def hex2_def)
  then show "decode_escapes (backslash # CHR ''u'' # hex4 (bv c) @ w) = c # decode_escapes w"
    "decode_escapes (backslash # CHR ''U'' # hex8 (bv c) @ w) = c # decode_escapes w"
    using read_hex4 [of "bv c" w] read_hex8 [of "bv c" w] utf8_ascii [OF assms]
    by (simp_all add: decode_escapes.simps(3) bv_def [of "CHR ''u''"] bv_def [of "CHR ''U''"])
qed

lemma spells_decode: "spells t w \<Longrightarrow> decode_escapes w = t"
  by (induction rule: spells.induct) (simp_all add: decode_plain decode_hex decode_octal decode_u)

lemma decode_no_escape: "backslash \<notin> set w \<Longrightarrow> decode_escapes w = w"
  by (induction w) (auto simp: decode_plain)



section \<open>Shipped names\<close>

lemma cut_back_le: "cut_back s m \<le> m"
  by (induction m) auto

lemma cut_back_boundary: "cut_back s m = 0 \<or> runeStart (s ! cut_back s m)"
  by (induction m) auto

lemma truncate_facts:
  "length (truncateUTF8 m s) \<le> m"
  "\<exists>rest. s = truncateUTF8 m s @ rest \<and> (rest = [] \<or> truncateUTF8 m s = [] \<or> runeStart (hd rest))"
proof -
  show "length (truncateUTF8 m s) \<le> m" using cut_back_le [of s m] by (simp add: truncateUTF8_def)
  show "\<exists>rest. s = truncateUTF8 m s @ rest \<and> (rest = [] \<or> truncateUTF8 m s = [] \<or> runeStart (hd rest))"
  proof (cases "length s \<le> m")
    case False
    then have "cut_back s m < length s" using cut_back_le [of s m] by simp
    then have "hd (drop (cut_back s m) s) = s ! cut_back s m" by (simp add: hd_drop_conv_nth)
    then show ?thesis using False cut_back_boundary [of s m]
      by (intro exI [of _ "drop (cut_back s m) s"]) (auto simp: truncateUTF8_def)
  qed (simp add: truncateUTF8_def)
qed

lemma withheld_safe: "\<not> mayHoldCredential withheld"
  by code_simp

text \<open>
  A shipped name is short, whole and safe: at most 64 bytes, either the mark of a withheld text or the
  start of the name up to a character boundary, and never a text that shows a sign of a credential.
\<close>

theorem identity_text_safe:
  "length (identity_text name) \<le> identityMaxBytes \<and> \<not> mayHoldCredential (identity_text name) \<and>
   (identity_text name = withheld \<or>
    (\<exists>rest. name = identity_text name @ rest \<and> (rest = [] \<or> identity_text name = [] \<or> runeStart (hd rest))))"
proof (cases "mayHoldCredential name \<or> mayHoldCredential (truncateUTF8 identityMaxBytes name)")
  case True
  then have "identity_text name = withheld" by (auto simp: identity_text_def)
  then show ?thesis using withheld_safe by (simp add: withheld_def identityMaxBytes_def)
next
  case False
  then have "identity_text name = truncateUTF8 identityMaxBytes name" by (simp add: identity_text_def)
  then show ?thesis using truncate_facts [where m = identityMaxBytes and s = name] False by simp
qed

end
