(* ===== verification/Explain_Scan.thy ===== *)
theory Explain_Scan
  imports Redact
begin

text \<open>
  The lexer of the EXPLAIN guard (\<^verbatim>\<open>scanCalls\<close> and its helpers in \<^verbatim>\<open>internal/agent/explain_guard.go\<close>), which
  finds the function calls written in a statement or in the expressions of a plan.

  The code moves an index over the text; here a position is the rest of the text from it. The bytes before
  a position, which the test for an escape string reads, are taken from the whole text. \<^verbatim>\<open>strings.ToLower\<close>
  maps the letters of every script; it is the argument \<open>lw\<close>.
\<close>

section \<open>Skipping\<close>

definition identStart :: "char \<Rightarrow> bool" where
  "identStart c \<longleftrightarrow> c = CHR ''_'' \<or> is_lower c \<or> is_upper c \<or> 128 \<le> bv c"

definition identByte :: "char \<Rightarrow> bool" where
  "identByte c \<longleftrightarrow> identStart c \<or> is_digit c \<or> c = CHR ''$''"

definition isSpace :: "char \<Rightarrow> bool" where
  "isSpace c \<longleftrightarrow> c \<in> {CHR '' '', CHR 0x09, CHR 0x0A, CHR 0x0D, CHR 0x0C}"

abbreviation quote1 :: char where "quote1 \<equiv> CHR 0x27"
abbreviation quote2 :: char where "quote2 \<equiv> CHR 0x22"

fun skipStringLiteral :: "bool \<Rightarrow> string \<Rightarrow> string" where
  "skipStringLiteral escaped [] = []"
| "skipStringLiteral escaped (c # s) =
     (if c = backslash \<and> escaped then (case s of [] \<Rightarrow> [] | _ # s' \<Rightarrow> skipStringLiteral escaped s')
      else if c = quote1 then
        (case s of
           d # s' \<Rightarrow> if d = quote1 then skipStringLiteral escaped s' else s
         | [] \<Rightarrow> s)
      else skipStringLiteral escaped s)"

definition skipLineComment :: "string \<Rightarrow> string" where
  "skipLineComment s = tl (dropWhile (\<lambda>c. c \<noteq> CHR 0x0A) s)"

fun skip_block :: "int \<Rightarrow> string \<Rightarrow> string" where
  "skip_block depth (c # d # s) =
     (if c = CHR ''/'' \<and> d = CHR ''*'' then skip_block (depth + 1) s
      else if c = CHR ''*'' \<and> d = CHR ''/'' then (if depth - 1 = 0 then s else skip_block (depth - 1) s)
      else skip_block depth (d # s))"
| "skip_block depth _ = []"

definition skipBlockComment :: "string \<Rightarrow> string" where
  "skipBlockComment s = skip_block 0 s"

fun index_after :: "string \<Rightarrow> string \<Rightarrow> string option" where
  "index_after p [] = (if p = [] then Some [] else None)"
| "index_after p (c # s) = (if has_prefix p (c # s) then Some (drop (length p) (c # s)) else index_after p s)"

text \<open>The argument is the text after the dollar sign.\<close>

definition skipDollar :: "string \<Rightarrow> string" where
  "skipDollar s =
     (if s \<noteq> [] \<and> is_digit (hd s) then dropWhile is_digit s
      else
        (let tagged = (\<lambda>c. c \<noteq> CHR ''$'' \<and> identByte c); r = dropWhile tagged s in
         if r = [] \<or> hd r \<noteq> CHR ''$'' then s
         else case index_after (CHR ''$'' # takeWhile tagged s @ ''$'') (tl r) of Some r' \<Rightarrow> r' | None \<Rightarrow> []))"

section \<open>Names\<close>

record funcRef =
  fr_schema :: string
  fr_name :: string

fun read_quoted :: "string \<Rightarrow> string \<times> string" where
  "read_quoted [] = ([], [])"
| "read_quoted (c # s) =
     (if c = quote2 then
        (case s of
           d # s' \<Rightarrow> if d = quote2 then (case read_quoted s' of (part, r) \<Rightarrow> (quote2 # part, r)) else ([], s)
         | [] \<Rightarrow> ([], s))
      else case read_quoted s of (part, r) \<Rightarrow> (c # part, r))"

definition readNamePart :: "(string \<Rightarrow> string) \<Rightarrow> bool \<Rightarrow> string \<Rightarrow> (string \<times> bool \<times> string) option" where
  "readNamePart lw deparsed s =
     (case s of
        [] \<Rightarrow> None
      | c # s' \<Rightarrow>
          if c = quote2 then (case read_quoted s' of (part, r) \<Rightarrow> Some (part, True, r))
          else if \<not> identStart c then None
          else (let part = takeWhile identByte s in Some (if deparsed then part else lw part, False, dropWhile identByte s)))"

definition dotted :: "string \<Rightarrow> bool" where
  "dotted s \<longleftrightarrow> (case s of c # d # _ \<Rightarrow> c = CHR ''.'' \<and> (d = quote2 \<or> identStart d) | _ \<Rightarrow> False)"

lemma read_quoted_le: "length (snd (read_quoted s)) \<le> length s"
proof (induction s rule: read_quoted.induct)
  case (2 c s)
  show ?case
  proof (cases "c = quote2")
    case True
    have "length (snd (read_quoted s')) \<le> length s'" if "s = quote2 # s'" for s'
      using 2(1) [OF True that refl] .
    with True show ?thesis
      by (cases s) (auto simp: case_prod_beta le_Suc_eq)
  next
    case False
    from 2(2) [OF False] False show ?thesis
      by (simp add: case_prod_beta)
  qed
qed simp

lemma readNamePart_less: "readNamePart lw dep s = Some (part, q, r) \<Longrightarrow> length r < length s"
  using read_quoted_le [of "tl s"]
  by (auto simp: readNamePart_def identByte_def Let_def length_dropWhile_le less_Suc_eq_le split: list.splits if_splits prod.splits)

text \<open>The parts of the name, whether its last part is a keyword, and the rest of the text.\<close>

function read_parts :: "(string \<Rightarrow> string) \<Rightarrow> bool \<Rightarrow> string list \<Rightarrow> bool \<Rightarrow> string \<Rightarrow> string list \<times> bool \<times> string" where
  "read_parts lw deparsed parts keyword s =
     (case readNamePart lw deparsed s of
        None \<Rightarrow> (parts, keyword, s)
      | Some (part, quoted, r) \<Rightarrow>
          (let keyword' = (deparsed \<and> \<not> quoted \<and> part \<noteq> lw part) in
           if dotted r then read_parts lw deparsed (parts @ [part]) keyword' (tl r)
           else (parts @ [part], keyword', r)))"
  by pat_completeness auto
termination
  by (relation "measure (\<lambda>(lw, d, p, k, s). length s)")
    (auto dest!: readNamePart_less intro: le_less_trans [OF diff_le_self])

definition readQualifiedName :: "(string \<Rightarrow> string) \<Rightarrow> bool \<Rightarrow> string \<Rightarrow> funcRef \<times> bool \<times> string" where
  "readQualifiedName lw deparsed s =
     (case read_parts lw deparsed [] False s of (parts, keyword, r) \<Rightarrow>
        if parts = [] then (\<lparr>fr_schema = [], fr_name = []\<rparr>, True, r)
        else if length parts = 1 then (\<lparr>fr_schema = [], fr_name = hd parts\<rparr>, keyword, r)
        else (\<lparr>fr_schema = last (butlast parts), fr_name = last parts\<rparr>, keyword, r))"

section \<open>Type names\<close>

definition typeNameWords :: "string list" where
  "typeNameWords =
     [''day'', ''hour'', ''minute'', ''month'', ''precision'', ''second'', ''time'', ''to'', ''varying'', ''with'', ''without'',
      ''year'', ''zone'']"

definition skipTypeModifier :: "string \<Rightarrow> string" where
  "skipTypeModifier s =
     (if s = [] \<or> hd s \<noteq> CHR ''('' then s
      else if CHR '')'' \<notin> set s then s
      else if \<not> list_all (\<lambda>c. is_digit c \<or> c = CHR '','' \<or> c = CHR '' '') (takeWhile (\<lambda>c. c \<noteq> CHR '')'') (tl s)) then s
      else tl (dropWhile (\<lambda>c. c \<noteq> CHR '')'') s))"

text \<open>Array bounds; \<open>True\<close> says that what follows is not one, which ends the type name.\<close>

lemma dropWhile_less: "length (dropWhile P s) \<le> n \<Longrightarrow> length (dropWhile P s) - Suc 0 \<le> n"
  by simp

function skip_bounds :: "string \<Rightarrow> string \<times> bool" where
  "skip_bounds s =
     (case s of
        c # d # s' \<Rightarrow>
          if c \<noteq> CHR ''['' then (s, False)
          else if CHR '']'' \<notin> set s \<or> \<not> list_all is_digit (takeWhile (\<lambda>c. c \<noteq> CHR '']'') (tl s)) then (s, True)
          else skip_bounds (tl (dropWhile (\<lambda>c. c \<noteq> CHR '']'') (tl s)))
      | _ \<Rightarrow> (s, False))"
  by pat_completeness auto
termination
  by (relation "measure length")
    (auto simp: less_Suc_eq_le intro!: dropWhile_less le_SucI intro: length_dropWhile_le)

lemma skipTypeModifier_le: "length (skipTypeModifier s) \<le> length s"
  using length_dropWhile_le [of "\<lambda>c. c \<noteq> CHR '')''" s] by (auto simp: skipTypeModifier_def)

declare skip_bounds.simps [simp del]

lemma skip_bounds_le: "length (fst (skip_bounds s)) \<le> length s"
proof (induction s rule: skip_bounds.induct)
  case (1 s)
  have "length (tl (dropWhile (\<lambda>c. c \<noteq> CHR '']'') (tl s))) \<le> length s"
    using length_dropWhile_le [of "\<lambda>c. c \<noteq> CHR '']''" "tl s"] by simp
  with 1 show ?case
    by (subst skip_bounds.simps) (auto split: list.splits if_splits dest: le_trans)
qed

function type_words :: "(string \<Rightarrow> string) \<Rightarrow> string \<Rightarrow> string" where
  "type_words lw s =
     (case skip_bounds (skipTypeModifier s) of (r, stop) \<Rightarrow>
        if stop \<or> r = [] \<or> hd r \<noteq> CHR '' '' then r
        else
          (let word = takeWhile identByte (tl r) in
           if word = [] \<or> lw word \<notin> set typeNameWords then r else type_words lw (dropWhile identByte (tl r))))"
  by pat_completeness auto
termination
proof (relation "measure (\<lambda>(lw, s). length s)", goal_cases)
  case (2 lw s r stop word)
  have "length r \<le> length s"
    using 2(1) skip_bounds_le [of "skipTypeModifier s"] skipTypeModifier_le [of s] by (metis fst_conv le_trans)
  moreover have "length (dropWhile identByte (tl r)) < length r"
    using 2(2) length_dropWhile_le [of identByte "tl r"] by (cases r) auto
  ultimately show ?case
    by simp
qed simp

declare type_words.simps [simp del] read_parts.simps [simp del]

lemma type_words_le: "length (type_words lw s) \<le> length s"
proof (induction lw s rule: type_words.induct)
  case (1 lw s)
  obtain r stop where b: "skip_bounds (skipTypeModifier s) = (r, stop)"
    by force
  have r: "length r \<le> length s"
    using skip_bounds_le [of "skipTypeModifier s"] skipTypeModifier_le [of s] b by simp
  show ?case
  proof (cases "stop \<or> r = [] \<or> hd r \<noteq> CHR '' '' \<or> takeWhile identByte (tl r) = [] \<or> lw (takeWhile identByte (tl r)) \<notin> set typeNameWords")
    case True
    with b r show ?thesis
      by (subst type_words.simps) (auto simp: Let_def)
  next
    case False
    then have "length (type_words lw s) \<le> length (dropWhile identByte (tl r))"
      using b 1 [OF b [symmetric] _ refl] by (subst type_words.simps) (auto simp: Let_def)
    with r length_dropWhile_le [of identByte "tl r"] show ?thesis
      by simp
  qed
qed

lemma read_parts_le: "length (snd (snd (read_parts lw dep ps k s))) \<le> length s"
proof (induction lw dep ps k s rule: read_parts.induct)
  case (1 lw dep ps k s)
  show ?case
  proof (cases "readNamePart lw dep s")
    case None
    then show ?thesis
      by (subst read_parts.simps) simp
  next
    case (Some t)
    obtain part q r where t: "t = (part, q, r)"
      by (cases t)
    note less = readNamePart_less [OF Some [unfolded t]]
    show ?thesis
      using 1 [OF Some t [symmetric] refl refl] less Some t by (subst read_parts.simps) (auto simp: Let_def)
  qed
qed

lemma read_parts_less: "readNamePart lw dep s = Some t \<Longrightarrow> length (snd (snd (read_parts lw dep ps k s))) < length s"
  using readNamePart_less [of lw dep s "fst t" "fst (snd t)" "snd (snd t)"]
    read_parts_le [of lw dep _ _ "tl (snd (snd t))"]
  by (subst read_parts.simps) (auto simp: Let_def split: prod.splits intro: le_less_trans [OF read_parts_le])

definition skipTypeName :: "(string \<Rightarrow> string) \<Rightarrow> string \<Rightarrow> string" where
  "skipTypeName lw s = type_words lw (snd (snd (readQualifiedName lw False (dropWhile isSpace s))))"

lemma readQualifiedName_rest: "snd (snd (readQualifiedName lw dep s)) = snd (snd (read_parts lw dep [] False s))"
  by (simp add: readQualifiedName_def case_prod_beta)

lemma skipTypeName_le: "length (skipTypeName lw s) \<le> length s"
proof -
  have "length (skipTypeName lw s) \<le> length (snd (snd (read_parts lw False [] False (dropWhile isSpace s))))"
    unfolding skipTypeName_def readQualifiedName_rest by (rule type_words_le)
  also have "\<dots> \<le> length (dropWhile isSpace s)"
    by (rule read_parts_le)
  also have "\<dots> \<le> length s"
    by (rule length_dropWhile_le)
  finally show ?thesis .
qed

lemma skipStringLiteral_le: "length (skipStringLiteral e s) \<le> length s"
proof (induction "length s" arbitrary: s rule: less_induct)
  case less
  note IH = less
  show ?case
  proof (cases s)
    case (Cons c r)
    have r: "length (skipStringLiteral e r) \<le> length r" "length (skipStringLiteral e r') \<le> length r'" if "r = d # r'" for d r'
      using IH [of r] IH [of r'] Cons that by simp_all
    have "length (skipStringLiteral e r) \<le> length r"
      using IH [of r] Cons by simp
    with r show ?thesis
      unfolding Cons skipStringLiteral.simps(2) by (cases r; cases e; simp del: skipStringLiteral.simps; linarith?)
  qed simp
qed

lemma skip_block_le: "length (skip_block d s) \<le> length s"
  by (induction d s rule: skip_block.induct) auto

lemma skipBlockComment_less:
  assumes "s = CHR ''/'' # CHR ''*'' # r"
  shows "length (skipBlockComment s) < length s"
  using skip_block_le [of 1 r] assms by (simp add: skipBlockComment_def)

lemma skipLineComment_less: "s \<noteq> [] \<Longrightarrow> length (skipLineComment s) < length s"
  using length_dropWhile_le [of "\<lambda>c. c \<noteq> CHR 0x0A" s] by (cases s) (auto simp: skipLineComment_def)

lemma index_after_le: "index_after p s = Some r \<Longrightarrow> length r \<le> length s"
  by (induction p s rule: index_after.induct) (auto split: if_splits)

lemma skipDollar_le: "length (skipDollar s) \<le> length s"
proof -
  have "length (tl (dropWhile P s)) \<le> length s" for P
    using length_dropWhile_le [of P s] by simp
  then show ?thesis
    using index_after_le [of _ "tl (dropWhile (\<lambda>c. c \<noteq> CHR ''$'' \<and> identByte c) s)"]
    by (auto simp: skipDollar_def Let_def length_dropWhile_le split: option.splits dest: le_trans)
qed

section \<open>The scan\<close>

definition add_ref :: "funcRef \<Rightarrow> funcRef list \<Rightarrow> funcRef list" where
  "add_ref ref refs = (if ref \<in> set refs then refs else refs @ [ref])"

text \<open>Whether the quote at \<open>rest\<close> opens an escape string.\<close>

definition escape_quote :: "string \<Rightarrow> string \<Rightarrow> bool" where
  "escape_quote text rest =
     (let i = length text - length rest in
      0 < i \<and> (text ! (i - 1) = CHR ''E'' \<or> text ! (i - 1) = CHR ''e'') \<and> (i < 2 \<or> \<not> identByte (text ! (i - 2))))"

definition second_is :: "char \<Rightarrow> string \<Rightarrow> bool" where
  "second_is c s \<longleftrightarrow> (case s of _ # d # _ \<Rightarrow> d = c | _ \<Rightarrow> False)"

text \<open>One turn of the loop: the position after it and the calls found.\<close>

definition scan_turn :: "(string \<Rightarrow> string) \<Rightarrow> bool \<Rightarrow> string \<Rightarrow> string \<Rightarrow> funcRef list \<Rightarrow> string \<times> funcRef list" where
  "scan_turn lw deparsed text s refs =
     (let c = hd s in
      if c = quote1 then (skipStringLiteral (escape_quote text s) (tl s), refs)
      else if c = CHR ''-'' \<and> second_is (CHR ''-'') s then (skipLineComment s, refs)
      else if c = CHR ''/'' \<and> second_is (CHR ''*'') s then (skipBlockComment s, refs)
      else if c = CHR ''$'' then (skipDollar (tl s), refs)
      else if c = CHR '':'' \<and> second_is (CHR '':'') s then (skipTypeName lw (tl (tl s)), refs)
      else if is_digit c then (dropWhile (\<lambda>c. identByte c \<or> c = CHR ''.'') s, refs)
      else if c = quote2 \<or> identStart c then
        (case readQualifiedName lw deparsed s of (ref, keyword, r) \<Rightarrow>
           let j = dropWhile isSpace r in
           (r, if keyword \<or> j = [] \<or> hd j \<noteq> CHR ''('' then refs else add_ref ref refs))
      else (tl s, refs))"

lemma readNamePart_some: "s \<noteq> [] \<Longrightarrow> hd s = quote2 \<or> identStart (hd s) \<Longrightarrow> readNamePart lw dep s \<noteq> None"
  by (cases s) (auto simp: readNamePart_def Let_def split: prod.splits)

lemma readQualifiedName_less:
  assumes "s \<noteq> []" "hd s = quote2 \<or> identStart (hd s)"
  shows "length (snd (snd (readQualifiedName lw dep s))) < length s"
proof -
  obtain t where "readNamePart lw dep s = Some t"
    using readNamePart_some [OF assms, of lw dep] by blast
  then show ?thesis
    unfolding readQualifiedName_rest by (rule read_parts_less)
qed

lemma scan_turn_less: "s \<noteq> [] \<Longrightarrow> length (fst (scan_turn lw dep text s refs)) < length s"
proof -
  assume s: "s \<noteq> []"
  obtain c r where cr: "s = c # r"
    using s by (cases s) auto
  have ss: "length (skipStringLiteral e (tl s)) < length s" "length (skipDollar (tl s)) < length s"
      "length (skipTypeName lw (tl (tl s))) < length s" for e
    using skipStringLiteral_le [of e "tl s"] skipDollar_le [of "tl s"] skipTypeName_le [of lw "tl (tl s)"] cr by auto
  have bc: "length (skipBlockComment s) < length s" if "hd s = CHR ''/''" "second_is (CHR ''*'') s"
    using that skipBlockComment_less [of s "tl (tl s)"] by (auto simp: second_is_def split: list.splits)
  have num: "length (dropWhile (\<lambda>c. identByte c \<or> c = CHR ''.'') s) < length s" if "is_digit (hd s)"
    using that length_dropWhile_le [of "\<lambda>c. identByte c \<or> c = CHR ''.''" r] cr by (simp add: identByte_def)
  show ?thesis
    using ss bc num skipLineComment_less [OF s] readQualifiedName_less [OF s, of lw dep] cr
    by (auto simp: scan_turn_def Let_def split: prod.splits)
qed

function scan_loop :: "(string \<Rightarrow> string) \<Rightarrow> bool \<Rightarrow> string \<Rightarrow> string \<Rightarrow> funcRef list \<Rightarrow> funcRef list" where
  "scan_loop lw deparsed text s refs =
     (if s = [] then refs
      else case scan_turn lw deparsed text s refs of (r, refs') \<Rightarrow> scan_loop lw deparsed text r refs')"
  by pat_completeness auto
termination
proof (relation "measure (\<lambda>(lw, d, t, s, rs). length s)", goal_cases)
  case (2 lw dep tx s refs x r)
  then have "x = fst (scan_turn lw dep tx s refs)"
    by (metis fst_conv)
  then show ?case
    using scan_turn_less [OF 2(1), of lw dep tx refs] by simp
qed simp

declare scan_loop.simps [simp del]

definition scanCalls :: "(string \<Rightarrow> string) \<Rightarrow> string \<Rightarrow> bool \<Rightarrow> funcRef list" where
  "scanCalls lw text deparsed = scan_loop lw deparsed text text []"

end
