(* ===== verification/Explain_Calls.thy ===== *)
theory Explain_Calls
  imports Explain_Scan
begin

text \<open>
  What the lexer of the EXPLAIN guard finds. An expression is a sequence of pieces: calls, with plain or
  quoted names, string literals, comments, keywords, column names, numbers and punctuation, each with
  its PostgreSQL spelling. The scan of the spelling finds exactly the calls, whatever stands inside the
  literals, the comments and the quoted names.
\<close>

section \<open>Pieces of an expression\<close>

datatype sql_name = Plain string | Quoted string

datatype piece =
  Call "sql_name option" sql_name
| Literal string
| EscapeLiteral string
| LineComment string
| BlockComment string
| Keyword string
| Column sql_name char
| Number string
| Symbol char

fun double :: "char \<Rightarrow> string \<Rightarrow> string" where
  "double q [] = []"
| "double q (c # s) = (if c = q then q # q # double q s else c # double q s)"

text \<open>The body of an escape string: the quote and the backslash are written with a backslash.\<close>

fun escape :: "string \<Rightarrow> string" where
  "escape [] = []"
| "escape (c # s) = (if c = quote1 \<or> c = backslash then backslash # c # escape s else c # escape s)"

fun print_name :: "sql_name \<Rightarrow> string" where
  "print_name (Plain s) = s"
| "print_name (Quoted s) = quote2 # double quote2 s @ [quote2]"

fun name_of :: "sql_name \<Rightarrow> string" where
  "name_of (Plain s) = s"
| "name_of (Quoted s) = s"

fun print_piece :: "piece \<Rightarrow> string" where
  "print_piece (Call None n) = print_name n @ ''(''"
| "print_piece (Call (Some q) n) = print_name q @ ''.'' @ print_name n @ ''(''"
| "print_piece (Literal s) = quote1 # double quote1 s @ [quote1] @ '' ''"
| "print_piece (EscapeLiteral s) = CHR ''E'' # quote1 # escape s @ [quote1] @ '' ''"
| "print_piece (LineComment s) = ''--'' @ s @ [CHR 0x0A]"
| "print_piece (BlockComment s) = ''/*'' @ s @ ''*/ ''"
| "print_piece (Keyword w) = w @ '' ''"
| "print_piece (Column n c) = print_name n @ '' '' @ [c] @ '' ''"
| "print_piece (Number s) = s @ '' ''"
| "print_piece (Symbol c) = [c] @ '' ''"

definition print_pieces :: "piece list \<Rightarrow> string" where
  "print_pieces ps = concat (map print_piece ps)"

fun piece_calls :: "piece \<Rightarrow> funcRef list" where
  "piece_calls (Call None n) = [\<lparr>fr_schema = [], fr_name = name_of n\<rparr>]"
| "piece_calls (Call (Some q) n) = [\<lparr>fr_schema = name_of q, fr_name = name_of n\<rparr>]"
| "piece_calls _ = []"

section \<open>Spellings the grammar allows\<close>

text \<open>A plain name is a word that folding leaves as it is; everything else is quoted.\<close>

definition word :: "string \<Rightarrow> bool" where
  "word s \<longleftrightarrow> s \<noteq> [] \<and> identStart (hd s) \<and> list_all identByte s"

fun wf_name :: "(string \<Rightarrow> string) \<Rightarrow> sql_name \<Rightarrow> bool" where
  "wf_name lw (Plain s) \<longleftrightarrow> word s \<and> lw s = s"
| "wf_name lw (Quoted s) \<longleftrightarrow> True"

definition plain_symbol :: "char \<Rightarrow> bool" where
  "plain_symbol c \<longleftrightarrow> \<not> identByte c \<and> c \<noteq> quote1 \<and> c \<noteq> quote2"

text \<open>Keywords are told from functions by their upper case, in deparsed text only.\<close>

fun wf_piece :: "(string \<Rightarrow> string) \<Rightarrow> bool \<Rightarrow> piece \<Rightarrow> bool" where
  "wf_piece lw deparsed (Call q n) \<longleftrightarrow> wf_name lw n \<and> (case q of Some q' \<Rightarrow> wf_name lw q' | None \<Rightarrow> True)"
| "wf_piece lw deparsed (Literal s) \<longleftrightarrow> True"
| "wf_piece lw deparsed (EscapeLiteral s) \<longleftrightarrow> True"
| "wf_piece lw deparsed (LineComment s) \<longleftrightarrow> CHR 0x0A \<notin> set s"
| "wf_piece lw deparsed (BlockComment s) \<longleftrightarrow> CHR ''*'' \<notin> set s \<and> CHR ''/'' \<notin> set s"
| "wf_piece lw deparsed (Keyword w) \<longleftrightarrow> deparsed \<and> word w \<and> lw w \<noteq> w"
| "wf_piece lw deparsed (Column n c) \<longleftrightarrow> wf_name lw n \<and> plain_symbol c \<and> \<not> isSpace c \<and> c \<noteq> CHR ''(''"
| "wf_piece lw deparsed (Number s) \<longleftrightarrow> s \<noteq> [] \<and> is_digit (hd s) \<and> list_all (\<lambda>c. identByte c \<or> c = CHR ''.'') s"
| "wf_piece lw deparsed (Symbol c) \<longleftrightarrow> plain_symbol c"

section \<open>Reading a name back\<close>

lemma identStart_facts [simp]:
  "\<not> identStart quote1" "\<not> identStart quote2" "\<not> identStart (CHR '' '')" "\<not> identStart (CHR ''('')" "\<not> identStart (CHR ''.'')"
  "\<not> identByte quote1" "\<not> identByte quote2" "\<not> identByte (CHR '' '')" "\<not> identByte (CHR ''('')" "\<not> identByte (CHR ''.'')"
  "\<not> identByte (CHR ''-'')" "\<not> identByte (CHR ''/'')" "\<not> identByte (CHR '':'')" "\<not> identStart (CHR ''$'')"
  "\<not> identStart (CHR ''-'')" "\<not> identStart (CHR ''/'')" "\<not> identStart (CHR '':'')" "\<not> is_digit (CHR ''('')"
  "\<not> is_digit (CHR '' '')" "identStart (CHR ''E'')" "identByte (CHR ''E'')" "\<not> isSpace (CHR ''('')" "isSpace (CHR '' '')"
  by (simp_all add: identStart_def identByte_def isSpace_def is_lower_def is_upper_def is_digit_def bv_def)

lemma identStart_not:
  "identStart c \<Longrightarrow> c \<noteq> quote1 \<and> c \<noteq> quote2 \<and> c \<noteq> CHR ''-'' \<and> c \<noteq> CHR ''/'' \<and> c \<noteq> CHR ''$'' \<and> c \<noteq> CHR '':'' \<and> \<not> is_digit c"
  by (auto simp: identStart_def is_lower_def is_upper_def is_digit_def bv_def)

lemma read_quoted_double: "hd (r @ '' '') \<noteq> quote2 \<Longrightarrow> read_quoted (double quote2 s @ quote2 # r) = (s, r)"
  by (induction s) (auto split: list.splits)

lemma takeWhile_word:
  assumes "list_all P s" "r = [] \<or> \<not> P (hd r)"
  shows "takeWhile P (s @ r) = s \<and> dropWhile P (s @ r) = r"
  using assms by (induction s) (auto; cases r; simp)+

lemma readNamePart_name:
  assumes "wf_name lw n" "r = [] \<or> \<not> identByte (hd r) \<and> hd r \<noteq> quote2"
  shows "readNamePart lw dep (print_name n @ r) = Some (name_of n, \<not> (\<exists>s. n = Plain s), r)"
proof (cases n)
  case (Plain s)
  then have s: "s \<noteq> []" "identStart (hd s)" "list_all identByte s" "lw s = s"
    using assms(1) by (auto simp: word_def)
  then show ?thesis
    using Plain identStart_not [of "hd s"] takeWhile_word [of identByte "tl s" r] takeWhile_word [of identByte "tl s" "[]"] assms(2)
    by (cases s) (auto simp: readNamePart_def Let_def)
next
  case (Quoted s)
  then show ?thesis
    using read_quoted_double [of r s] assms(2) by (cases r) (auto simp: readNamePart_def)
qed

lemma dotted_iff: "dotted r \<longleftrightarrow> (\<exists>d s. r = CHR ''.'' # d # s \<and> (d = quote2 \<or> identStart d))"
  by (auto simp: dotted_def split: list.splits)

lemma print_name_start: "wf_name lw n \<Longrightarrow> \<exists>c s. print_name n = c # s \<and> (c = quote2 \<or> identStart c)"
  by (cases n) (auto simp: word_def neq_Nil_conv)

lemma readQualifiedName_one:
  assumes "wf_name lw n" "r = [] \<or> \<not> identByte (hd r) \<and> hd r \<noteq> quote2 \<and> hd r \<noteq> CHR ''.''"
  shows "readQualifiedName lw dep (print_name n @ r) = (\<lparr>fr_schema = [], fr_name = name_of n\<rparr>, False, r)"
proof -
  have "\<not> dotted r"
    using assms(2) by (auto simp: dotted_iff)
  moreover have "lw s = s" if "n = Plain s" for s
    using assms(1) that by simp
  ultimately have "read_parts lw dep [] False (print_name n @ r) = ([name_of n], False, r)"
    using readNamePart_name [of lw n r dep] assms by (subst read_parts.simps) (cases n, auto simp: Let_def)
  then show ?thesis
    by (simp add: readQualifiedName_def)
qed

lemma readQualifiedName_two:
  assumes "wf_name lw q" "wf_name lw n" "r = [] \<or> \<not> identByte (hd r) \<and> hd r \<noteq> quote2 \<and> hd r \<noteq> CHR ''.''"
  shows "readQualifiedName lw dep (print_name q @ CHR ''.'' # print_name n @ r)
    = (\<lparr>fr_schema = name_of q, fr_name = name_of n\<rparr>, False, r)"
proof -
  obtain c s where c: "print_name n = c # s" "c = quote2 \<or> identStart c"
    using print_name_start [OF assms(2)] by blast
  have d: "dotted (CHR ''.'' # print_name n @ r)" "\<not> dotted r"
    using c assms(3) by (auto simp: dotted_iff)
  have p: "readNamePart lw dep (print_name q @ CHR ''.'' # print_name n @ r) = Some (name_of q, \<not> (\<exists>s. q = Plain s), CHR ''.'' # print_name n @ r)"
    using readNamePart_name [OF assms(1), of "CHR ''.'' # print_name n @ r" dep] by simp
  have p': "readNamePart lw dep (print_name n @ r) = Some (name_of n, \<not> (\<exists>s. n = Plain s), r)"
    using readNamePart_name [OF assms(2), of r dep] assms(3) by blast
  have k: "\<not> (\<not> \<not> (\<exists>s. n = Plain s) \<and> name_of n \<noteq> lw (name_of n))"
    using assms(2) by (cases n) auto
  have "read_parts lw dep [] False (print_name q @ CHR ''.'' # print_name n @ r)
      = read_parts lw dep [name_of q] (dep \<and> \<not> \<not> (\<exists>s. q = Plain s) \<and> name_of q \<noteq> lw (name_of q)) (print_name n @ r)"
    using d p by (subst read_parts.simps) (simp add: Let_def)
  also have "\<dots> = ([name_of q, name_of n], False, r)"
    using d p' k by (subst read_parts.simps) (simp add: Let_def)
  finally show ?thesis
    by (simp add: readQualifiedName_def)
qed

section \<open>One piece\<close>

lemma scan_step: "s \<noteq> [] \<Longrightarrow> scan_loop lw dep tx s refs = (case scan_turn lw dep tx s refs of (r, refs') \<Rightarrow> scan_loop lw dep tx r refs')"
  by (subst scan_loop.simps) simp

lemma scan_skip: "\<not> identByte c \<Longrightarrow> c \<noteq> quote1 \<Longrightarrow> c \<noteq> quote2 \<Longrightarrow> hd (s @ '' '') \<notin> {CHR ''-'', CHR ''*'', CHR '':''} \<Longrightarrow>
    scan_loop lw dep tx (c # s) refs = scan_loop lw dep tx s refs"
  by (cases s) (simp_all add: scan_step scan_turn_def Let_def second_is_def identByte_def)

lemma scan_open: "scan_loop lw dep tx (CHR ''('' # s) refs = scan_loop lw dep tx s refs"
  "scan_loop lw dep tx (CHR '' '' # s) refs = scan_loop lw dep tx s refs"
  by (simp_all add: scan_step scan_turn_def Let_def)

lemma scan_name:
  assumes "s \<noteq> []" "hd s = quote2 \<or> identStart (hd s)" "readQualifiedName lw dep s = (ref, keyword, r)"
  shows "scan_loop lw dep tx s refs
    = scan_loop lw dep tx r (if keyword \<or> dropWhile isSpace r = [] \<or> hd (dropWhile isSpace r) \<noteq> CHR ''('' then refs else add_ref ref refs)"
proof -
  have "hd s \<noteq> quote1 \<and> hd s \<noteq> CHR ''-'' \<and> hd s \<noteq> CHR ''/'' \<and> hd s \<noteq> CHR ''$'' \<and> hd s \<noteq> CHR '':'' \<and> \<not> is_digit (hd s)"
    using assms(2) identStart_not [of "hd s"] by (auto simp: is_digit_def bv_def)
  with assms have "scan_turn lw dep tx s refs
      = (r, if keyword \<or> dropWhile isSpace r = [] \<or> hd (dropWhile isSpace r) \<noteq> CHR ''('' then refs else add_ref ref refs)"
    unfolding scan_turn_def Let_def by simp
  with assms(1) show ?thesis
    by (subst scan_step) simp_all
qed

lemma skip_literal: "hd (r @ '' '') \<noteq> quote1 \<Longrightarrow> skipStringLiteral False (double quote1 s @ quote1 # r) = r"
proof (induction s)
  case Nil
  then show ?case
    by (cases r) (auto simp: backslash_def)
qed (simp add: backslash_def)

lemma skip_escaped: "hd (r @ '' '') \<noteq> quote1 \<Longrightarrow> skipStringLiteral True (escape s @ quote1 # r) = r"
proof (induction s)
  case Nil
  then show ?case
    by (cases r) (auto simp: backslash_def)
qed (auto simp: backslash_def)

lemma skip_line: "CHR 0x0A \<notin> set s \<Longrightarrow> skipLineComment (s @ CHR 0x0A # r) = r"
  by (induction s) (auto simp: skipLineComment_def)

lemma skip_block_body:
  "CHR ''*'' \<notin> set s \<Longrightarrow> CHR ''/'' \<notin> set s \<Longrightarrow> skip_block 1 (s @ CHR ''*'' # CHR ''/'' # r) = r"
proof (induction s)
  case (Cons c s)
  then show ?case
    by (cases s) auto
qed simp

lemma escape_quote_literal:
  assumes "tx = pre @ quote1 # r" "pre = [] \<or> \<not> identByte (last pre)"
  shows "\<not> escape_quote tx (quote1 # r)"
proof -
  have "tx ! (length pre - 1) = last pre" if "pre \<noteq> []"
    using that assms(1) by (simp add: nth_append last_conv_nth)
  moreover have "c \<noteq> CHR ''E'' \<and> c \<noteq> CHR ''e''" if "\<not> identByte c" for c
    using that by (auto simp: identByte_def identStart_def is_lower_def is_upper_def bv_def)
  ultimately show ?thesis
    using assms by (auto simp: escape_quote_def Let_def) blast+
qed

lemma escape_quote_escape:
  assumes "tx = pre @ CHR ''E'' # quote1 # r" "pre = [] \<or> \<not> identByte (last pre)"
  shows "escape_quote tx (quote1 # r)"
proof -
  have "tx ! (length pre - 1) = last pre" if "pre \<noteq> []"
    using that assms(1) by (simp add: nth_append last_conv_nth)
  then show ?thesis
    using assms by (auto simp: escape_quote_def Let_def numeral_2_eq_2)
qed

lemma scan_string:
  "scan_loop lw dep tx (quote1 # s) refs = scan_loop lw dep tx (skipStringLiteral (escape_quote tx (quote1 # s)) s) refs"
  by (simp add: scan_step scan_turn_def Let_def)

lemma read_word:
  assumes "word w" "r = [] \<or> \<not> identByte (hd r) \<and> hd r \<noteq> CHR ''.''"
  shows "readQualifiedName lw dep (w @ r)
    = (\<lparr>fr_schema = [], fr_name = if dep then w else lw w\<rparr>, dep \<and> lw w \<noteq> w, r)"
proof -
  have "\<not> dotted r"
    using assms(2) by (auto simp: dotted_iff)
  moreover have "readNamePart lw dep (w @ r) = Some (if dep then w else lw w, False, r)"
    using assms identStart_not [of "hd w"] takeWhile_word [of identByte "tl w" r] takeWhile_word [of identByte "tl w" "[]"]
    by (cases w) (auto simp: readNamePart_def Let_def word_def)
  ultimately have "read_parts lw dep [] False (w @ r) = ([if dep then w else lw w], dep \<and> lw w \<noteq> w, r)"
    by (subst read_parts.simps) (auto simp: Let_def)
  then show ?thesis
    by (simp add: readQualifiedName_def)
qed

lemma scan_call:
  assumes "wf_piece lw dep (Call q n)"
  shows "scan_loop lw dep tx (print_piece (Call q n) @ r) refs = scan_loop lw dep tx r (fold add_ref (piece_calls (Call q n)) refs)"
proof (cases q)
  case None
  obtain c s where c: "print_name n = c # s" "c = quote2 \<or> identStart c"
    using print_name_start [of lw n] assms by auto
  show ?thesis
    using None assms c readQualifiedName_one [of lw n "CHR ''('' # r" dep]
      scan_name [of "print_name n @ CHR ''('' # r" lw dep _ False "CHR ''('' # r" tx refs]
    by (simp add: scan_open)
next
  case (Some q')
  obtain c s where c: "print_name q' = c # s" "c = quote2 \<or> identStart c"
    using print_name_start [of lw q'] assms Some by auto
  show ?thesis
    using Some assms c readQualifiedName_two [of lw q' n "CHR ''('' # r" dep]
      scan_name [of "print_name q' @ CHR ''.'' # print_name n @ CHR ''('' # r" lw dep _ False "CHR ''('' # r" tx refs]
    by (simp add: scan_open)
qed

lemma scan_number:
  assumes "wf_piece lw dep (Number s)"
  shows "scan_loop lw dep tx (s @ CHR '' '' # r) refs = scan_loop lw dep tx r refs"
proof -
  obtain c l where s: "s = c # l" "is_digit c" "list_all (\<lambda>c. identByte c \<or> c = CHR ''.'') s"
    using assms by (cases s) auto
  have "c \<noteq> quote1" "c \<noteq> CHR ''-''" "c \<noteq> CHR ''/''" "c \<noteq> CHR ''$''" "c \<noteq> CHR '':''"
    using s(2) by (auto simp: is_digit_def bv_def)
  then have "scan_turn lw dep tx (s @ CHR '' '' # r) refs = (CHR '' '' # r, refs)"
    using takeWhile_word [OF s(3), of "CHR '' '' # r"] s(1,2) by (simp add: scan_turn_def Let_def)
  then show ?thesis
    by (subst scan_step) (simp_all add: scan_open)
qed

lemma scan_column:
  assumes "wf_piece lw dep (Column n d)"
  shows "scan_loop lw dep tx (print_name n @ CHR '' '' # d # CHR '' '' # r) refs = scan_loop lw dep tx r refs"
proof -
  obtain c s where c: "print_name n = c # s" "c = quote2 \<or> identStart c"
    using print_name_start [of lw n] assms by auto
  show ?thesis
    using assms c readQualifiedName_one [of lw n "CHR '' '' # d # CHR '' '' # r" dep]
      scan_name [of "print_name n @ CHR '' '' # d # CHR '' '' # r" lw dep _ False "CHR '' '' # d # CHR '' '' # r" tx refs]
    by (simp add: scan_open scan_skip plain_symbol_def)
qed

lemma scan_keyword:
  assumes "wf_piece lw dep (Keyword w)"
  shows "scan_loop lw dep tx (w @ CHR '' '' # r) refs = scan_loop lw dep tx r refs"
  using assms read_word [of w "CHR '' '' # r" lw dep] scan_name [of "w @ CHR '' '' # r" lw dep _ True "CHR '' '' # r" tx refs]
  by (cases w) (auto simp: scan_open word_def)

lemma scan_escape:
  assumes "tx = pre @ CHR ''E'' # quote1 # escape s @ quote1 # CHR '' '' # r" "pre = [] \<or> \<not> identByte (last pre)"
  shows "scan_loop lw dep tx (CHR ''E'' # quote1 # escape s @ quote1 # CHR '' '' # r) refs = scan_loop lw dep tx r refs"
proof -
  have "scan_loop lw dep tx (CHR ''E'' # quote1 # escape s @ quote1 # CHR '' '' # r) refs
      = scan_loop lw dep tx (quote1 # escape s @ quote1 # CHR '' '' # r) refs"
    using read_word [of "''E''" "quote1 # escape s @ quote1 # CHR '' '' # r" lw dep]
      scan_name [of "CHR ''E'' # quote1 # escape s @ quote1 # CHR '' '' # r" lw dep]
    by (simp add: word_def isSpace_def)
  then show ?thesis
    using escape_quote_escape [OF assms] by (simp add: scan_string skip_escaped scan_open)
qed

lemma scan_piece:
  assumes "wf_piece lw dep p" "tx = pre @ print_piece p @ r" "pre = [] \<or> \<not> identByte (last pre)"
  shows "scan_loop lw dep tx (print_piece p @ r) refs = scan_loop lw dep tx r (fold add_ref (piece_calls p) refs)"
proof (cases p)
  case (Call q n)
  then show ?thesis
    using scan_call [of lw dep q n tx r refs] assms(1) by simp
next
  case (Literal s)
  then show ?thesis
    using assms escape_quote_literal [of tx pre "double quote1 s @ quote1 # CHR '' '' # r"]
    by (simp add: scan_string skip_literal scan_open)
next
  case (EscapeLiteral s)
  then show ?thesis
    using assms scan_escape [of tx pre s r lw dep refs] by simp
next
  case (LineComment s)
  then show ?thesis
    using assms(1) skip_line [of "''--'' @ s" r] by (simp add: scan_step [of "CHR ''-'' # CHR ''-'' # s @ CHR 0x0A # r"] scan_turn_def second_is_def)
next
  case (BlockComment s)
  then show ?thesis
    using assms(1) skip_block_body [of s "CHR '' '' # r"]
    by (simp add: scan_step [of "CHR ''/'' # CHR ''*'' # s @ CHR ''*'' # CHR ''/'' # CHR '' '' # r"] scan_turn_def second_is_def
        skipBlockComment_def scan_open)
next
  case (Keyword w)
  then show ?thesis
    using assms(1) scan_keyword [of lw dep w tx r refs] by simp
next
  case (Column n c)
  then show ?thesis
    using assms(1) scan_column [of lw dep n c tx r refs] by simp
next
  case (Number s)
  then show ?thesis
    using assms(1) scan_number [of lw dep s tx r refs] by simp
next
  case (Symbol c)
  then show ?thesis
    using assms(1) by (simp add: scan_skip plain_symbol_def scan_open)
qed

lemma print_piece_end: "print_piece p \<noteq> [] \<and> \<not> identByte (last (print_piece p))"
  by (cases p rule: print_piece.cases) (simp_all add: identByte_def identStart_def is_lower_def is_upper_def is_digit_def bv_def)

section \<open>The whole expression\<close>

lemma scan_pieces:
  assumes "list_all (wf_piece lw dep) ps" "tx = pre @ print_pieces ps" "pre = [] \<or> \<not> identByte (last pre)"
  shows "scan_loop lw dep tx (print_pieces ps) refs = fold add_ref (concat (map piece_calls ps)) refs"
  using assms
proof (induction ps arbitrary: pre refs)
  case Nil
  then show ?case
    by (simp add: print_pieces_def scan_loop.simps)
next
  case (Cons p ps)
  have pp: "print_pieces (p # ps) = print_piece p @ print_pieces ps"
    by (simp add: print_pieces_def)
  have "scan_loop lw dep tx (print_pieces (p # ps)) refs
      = scan_loop lw dep tx (print_pieces ps) (fold add_ref (piece_calls p) refs)"
    using Cons.prems scan_piece [of lw dep p tx pre "print_pieces ps" refs] unfolding pp by simp
  also have "\<dots> = fold add_ref (concat (map piece_calls ps)) (fold add_ref (piece_calls p) refs)"
    using Cons.prems print_piece_end [of p] by (intro Cons.IH [of "pre @ print_piece p"]) (auto simp: pp)
  finally show ?case
    by simp
qed

lemma fold_add_ref: "fold add_ref xs [] = rev (remdups (rev xs))"
  by (induction xs rule: rev_induct) (auto simp: add_ref_def)



section \<open>Calls the scan of a statement does not see\<close>

text \<open>
  A comment between a name and its parenthesis, and a carriage return at the end of a line comment, which
  ends the comment for PostgreSQL: the call is not reported, and is left to the inspection of the plan.
\<close>

lemma comment_hides_call: "scanCalls lw ''f/**/(1)'' False = []"
proof -
  have "scan_loop lw False tx ''f/**/(1)'' [] = scan_loop lw False tx ''/**/(1)'' []" for tx
    using read_word [of "''f''" "''/**/(1)''" lw False] scan_name [of "''f/**/(1)''" lw False _ False "''/**/(1)''" tx "[]"]
    by (simp add: word_def isSpace_def identStart_def identByte_def is_lower_def is_upper_def is_digit_def bv_def)
  moreover have "scan_loop lw False tx ''/**/(1)'' [] = scan_loop lw False tx ''(1)'' []" for tx
    by (simp add: scan_step [of "''/**/(1)''"] scan_turn_def second_is_def skipBlockComment_def)
  moreover have "scan_loop lw False tx ''(1)'' [] = []" for tx
    by (simp add: scan_loop.simps scan_turn_def Let_def second_is_def identStart_def identByte_def is_lower_def is_upper_def
        is_digit_def bv_def)
  ultimately show ?thesis
    by (simp add: scanCalls_def)
qed

lemma carriage_return_hides_call: "scanCalls lw (''--'' @ [CHR 0x0D] @ ''f(1)'') False = []"
  by (simp add: scanCalls_def scan_loop.simps scan_turn_def Let_def second_is_def skipLineComment_def)

end
