(* ===== verification/Explain_Guard.thy ===== *)
theory Explain_Guard
  imports Explain_Calls
begin

text \<open>
  The EXPLAIN guard (\<^verbatim>\<open>internal/agent/explain_guard.go\<close>): which functions are hazards, and the three checks a
  statement passes before it is planned or executed. The guard talks to the database; the requests it sent
  are a list, and the database is a record of functions from what it was sent so far to its answer. A
  catalog query is named after the constant that holds its text. The parser of \<^verbatim>\<open>encoding/json\<close> and
  \<^verbatim>\<open>strings.ToLower\<close> are arguments, \<open>parse\<close> and \<open>lw\<close>.
\<close>

section \<open>Functions that could act outside the transaction\<close>

definition sideEffectFreeExtensions :: "string list" where
  "sideEffectFreeExtensions =
     [''btree_gin'', ''btree_gist'', ''citext'', ''cube'', ''earthdistance'', ''fuzzystrmatch'', ''hstore'',
      ''intarray'', ''isn'', ''ltree'', ''pg_trgm'', ''pgcrypto'', ''postgis'', ''postgis_sfcgal'', ''seg'',
      ''unaccent'', ''uuid-ossp'']"

definition extensionFunctionsDenied :: "string \<Rightarrow> string list" where
  "extensionFunctionsDenied ext =
     (if ext = ''pg_trgm'' then [''set_limit'']
      else if ext = ''postgis'' then
        [''addgeometrycolumn'', ''dropgeometrycolumn'', ''dropgeometrytable'', ''populate_geometry_columns'',
         ''postgis_extensions_upgrade'', ''updategeometrysrid'']
      else [])"

definition builtinVolatileAllowed :: "string list" where
  "builtinVolatileAllowed =
     [''array_sample'', ''array_shuffle'', ''bernoulli'', ''clock_timestamp'', ''current_query'', ''currval'',
      ''gen_random_uuid'', ''lastval'', ''pg_blocking_pids'', ''pg_collation_actual_version'',
      ''pg_control_checkpoint'', ''pg_control_init'', ''pg_control_recovery'', ''pg_control_system'',
      ''pg_current_logfile'', ''pg_current_wal_flush_lsn'', ''pg_current_wal_insert_lsn'', ''pg_current_wal_lsn'',
      ''pg_database_collation_actual_version'', ''pg_database_size'', ''pg_get_wait_events'',
      ''pg_get_wal_replay_pause_state'', ''pg_indexes_size'', ''pg_is_in_recovery'', ''pg_is_wal_replay_paused'',
      ''pg_jit_available'', ''pg_last_committed_xact'', ''pg_last_wal_receive_lsn'', ''pg_last_wal_replay_lsn'',
      ''pg_last_xact_replay_timestamp'', ''pg_lock_status'', ''pg_notification_queue_usage'',
      ''pg_partition_ancestors'', ''pg_partition_tree'', ''pg_relation_size'', ''pg_safe_snapshot_blocking_pids'',
      ''pg_sequence_last_value'', ''pg_stat_have_stats'', ''pg_table_size'', ''pg_tablespace_size'',
      ''pg_total_relation_size'', ''pg_xact_commit_timestamp'', ''pg_xact_commit_timestamp_origin'',
      ''pg_xact_status'', ''random'', ''random_normal'', ''system'', ''timeofday'', ''txid_status'', ''uuidv4'',
      ''uuidv7'']"

definition builtinVolatileAllowedPrefixes :: "string list" where
  "builtinVolatileAllowedPrefixes = [''pg_stat_get_'']"

definition builtinDenied :: "string list" where
  "builtinDenied =
     [''pg_current_xact_id'', ''txid_current'']"

definition refusedPlanNodes :: "string list" where
  "refusedPlanNodes =
     [''Custom Scan'', ''Foreign Scan'']"

record catalogFunction =
  cf_schema :: string
  cf_name :: string
  cf_volatility :: string
  cf_extension :: string
  cf_visible :: bool

text \<open>The sentences of \<^verbatim>\<open>functionHazard\<close>.\<close>

datatype hazard =
  ForeignExtension string
| ChangesSession string
| UserDefined
| AssignsTransactionID
| UnknownVolatile

definition builtinVolatileAllowedName :: "string \<Rightarrow> bool" where
  "builtinVolatileAllowedName name \<longleftrightarrow>
     name \<in> set builtinVolatileAllowed \<or> list_ex (\<lambda>p. has_prefix p name) builtinVolatileAllowedPrefixes"

definition functionHazard :: "catalogFunction \<Rightarrow> hazard option" where
  "functionHazard f =
     (if cf_extension f \<noteq> [] then
        (if cf_extension f \<notin> set sideEffectFreeExtensions then Some (ForeignExtension (cf_extension f))
         else if cf_name f \<in> set (extensionFunctionsDenied (cf_extension f)) then Some (ChangesSession (cf_extension f))
         else None)
      else if cf_schema f \<noteq> ''pg_catalog'' \<and> cf_schema f \<noteq> ''information_schema'' then Some UserDefined
      else if cf_name f \<in> set builtinDenied then Some AssignsTransactionID
      else if cf_volatility f = ''v'' \<and> \<not> builtinVolatileAllowedName (cf_name f) then Some UnknownVolatile
      else None)"

fun first_hazard :: "catalogFunction list \<Rightarrow> (catalogFunction \<times> hazard) option" where
  "first_hazard [] = None"
| "first_hazard (f # fs) = (case functionHazard f of Some z \<Rightarrow> Some (f, z) | None \<Rightarrow> first_hazard fs)"

text \<open>What \<^verbatim>\<open>refHazard\<close> says of a name: a function of that name is a hazard, or there is none of that name.\<close>

datatype ref_hazard = UnsafeFunction catalogFunction hazard | NotFound funcRef

definition resolves :: "funcRef \<Rightarrow> catalogFunction \<Rightarrow> bool" where
  "resolves ref f \<longleftrightarrow>
     cf_name f = fr_name ref \<and> (fr_schema ref \<noteq> [] \<longrightarrow> cf_schema f = fr_schema ref) \<and> (fr_schema ref = [] \<longrightarrow> cf_visible f)"

fun ref_hazard_loop :: "funcRef \<Rightarrow> bool \<Rightarrow> catalogFunction list \<Rightarrow> bool \<Rightarrow> ref_hazard option" where
  "ref_hazard_loop ref matched [] strict = (if \<not> matched \<and> strict then Some (NotFound ref) else None)"
| "ref_hazard_loop ref matched (f # fs) strict =
     (if \<not> resolves ref f then ref_hazard_loop ref matched fs strict
      else case functionHazard f of
             Some z \<Rightarrow> Some (UnsafeFunction f z)
           | None \<Rightarrow> ref_hazard_loop ref True fs strict)"

definition refHazard :: "funcRef \<Rightarrow> catalogFunction list \<Rightarrow> bool \<Rightarrow> ref_hazard option" where
  "refHazard ref functions strict = ref_hazard_loop ref False functions strict"

fun first_ref_hazard :: "funcRef list \<Rightarrow> catalogFunction list \<Rightarrow> bool \<Rightarrow> ref_hazard option" where
  "first_ref_hazard [] functions strict = None"
| "first_ref_hazard (r # rs) functions strict =
     (case refHazard r functions strict of Some z \<Rightarrow> Some z | None \<Rightarrow> first_ref_hazard rs functions strict)"

section \<open>The facts of a plan\<close>

text \<open>A decoded document; the entries of an object have distinct keys.\<close>

datatype json =
  JNull
| JBool bool
| JNumber string
| JString string
| JArray "json list"
| JObject "(string \<times> json) list"

datatype plan_fact = NodeType string | PlanCall funcRef

definition string_member :: "(string \<times> json) list \<Rightarrow> string \<Rightarrow> string option" where
  "string_member kvs k = (case map_of kvs k of Some (JString s) \<Rightarrow> Some s | _ \<Rightarrow> None)"

definition object_facts :: "(string \<times> json) list \<Rightarrow> plan_fact list" where
  "object_facts kvs =
     (case string_member kvs ''Node Type'' of Some n \<Rightarrow> [NodeType n] | None \<Rightarrow> []) @
     (case string_member kvs ''Function Name'' of
        Some n \<Rightarrow>
          (case string_member kvs ''Schema'' of
             Some s \<Rightarrow> [PlanCall \<lparr>fr_schema = s, fr_name = n\<rparr>]
           | None \<Rightarrow> [])
      | None \<Rightarrow> [])"

text \<open>The facts in the order the walk meets them: the members of an object by key.\<close>

fun walk :: "(string \<Rightarrow> string) \<Rightarrow> json \<Rightarrow> plan_fact list" where
  "walk lw (JArray vs) = concat (map (walk lw) vs)"
| "walk lw (JObject kvs) =
     object_facts kvs @ concat (map snd (sort_key fst (map (\<lambda>(k, v). (k, walk lw v)) kvs)))"
| "walk lw (JString s) = map PlanCall (scanCalls lw s True)"
| "walk lw _ = []"

record planFacts =
  pf_nodes :: "string list"
  pf_calls :: "funcRef list"

fun node_types :: "plan_fact list \<Rightarrow> string list" where
  "node_types [] = []"
| "node_types (NodeType n # fs) = n # node_types fs"
| "node_types (PlanCall r # fs) = node_types fs"

fun plan_calls :: "plan_fact list \<Rightarrow> funcRef list \<Rightarrow> funcRef list" where
  "plan_calls [] calls = calls"
| "plan_calls (NodeType n # fs) calls = plan_calls fs calls"
| "plan_calls (PlanCall r # fs) calls = plan_calls fs (add_ref r calls)"

definition inspectPlan :: "(string \<Rightarrow> json option) \<Rightarrow> (string \<Rightarrow> string) \<Rightarrow> string \<Rightarrow> planFacts option" where
  "inspectPlan parse lw plan =
     (case parse plan of
        None \<Rightarrow> None
      | Some doc \<Rightarrow> Some \<lparr>pf_nodes = node_types (walk lw doc), pf_calls = plan_calls (walk lw doc) []\<rparr>)"

section \<open>Talking to the database\<close>

datatype db_error = PgError string string | NoRows | OtherError string

datatype catalog_query =
  PlannableFunctionLookup
| RemoteEstimateLookup
| SessionPrivileges string
| FunctionLookup "string list"
| HiddenCallLookup

text \<open>The connection the text of a statement is read on: the command's own, or the target's source.\<close>

datatype text_source = OwnConnection | StatementsSource

datatype request =
  ReadStatementText text_source
| Exec string
| QueryRow string
| SimpleQuery string
| Catalog catalog_query
| HijackClose
| ReleaseConn

type_synonym history = "request list"

text \<open>An answer that is read as JSON: the query fails, the text does not decode, or a value.\<close>

datatype 'a answer = QueryFailed db_error | DecodeFailed string | Answer 'a

record explainSession =
  es_superuser :: bool
  es_signal :: bool
  es_read_all_data :: bool

record hiddenCall =
  hc_object :: string
  hc_function :: catalogFunction

record database =
  db_exec :: "history \<Rightarrow> string \<Rightarrow> db_error option"
  db_row :: "history \<Rightarrow> string \<Rightarrow> db_error + string"
  db_simple :: "history \<Rightarrow> string \<Rightarrow> (db_error + string list list list) option"
  db_text :: "history \<Rightarrow> text_source \<Rightarrow> db_error + string"
  db_functions :: "history \<Rightarrow> catalog_query \<Rightarrow> catalogFunction list answer"
  db_remote :: "history \<Rightarrow> string list answer"
  db_session :: "history \<Rightarrow> string \<Rightarrow> explainSession answer"
  db_hidden :: "history \<Rightarrow> hiddenCall list answer"
  db_hijackable :: bool

datatype rejection =
  QueryIDRequired
| QueryIDUnknown int
| StatementsNotInstalled string
| NotSingleStatement int
| StatementMayHoldCredential int
| KeywordNotSafe string
| AnalyzeWouldExecute string
| AnalyzeNeedsValues
| NeedsGenericPlan
| PlannerMayRun catalogFunction hazard
| EstimatesRemotely string
| SuperuserSession
| CannotDropSignal
| StatementCalls ref_hazard
| ObjectCalls string catalogFunction hazard
| CannotBePlanned db_error
| RefusedNode string
| ShowsCall ref_hazard
| NeedsPrivilege string db_error
| CannotBeExplained explain_failure
| PlanMayHoldCredential int
and explain_failure = FromDatabase db_error | CannotSendVerbatim | UnexpectedShape

datatype explain_error =
  Rejected rejection
| Wrapped string db_error
| Undecodable string string
| PlanUnreadable string
| Unwrapped explain_failure

section \<open>The three checks\<close>

definition guardPlanning :: "database \<Rightarrow> history \<Rightarrow> history \<times> explain_error option" where
  "guardPlanning db h =
     (let h1 = h @ [Catalog PlannableFunctionLookup] in
      case db_functions db h PlannableFunctionLookup of
        QueryFailed e \<Rightarrow> (h1, Some (Wrapped ''look up the functions the planner may run'' e))
      | DecodeFailed e \<Rightarrow> (h1, Some (Undecodable ''decode the functions the planner may run'' e))
      | Answer functions \<Rightarrow>
          (case first_hazard functions of
             Some (f, z) \<Rightarrow> (h1, Some (Rejected (PlannerMayRun f z)))
           | None \<Rightarrow>
               let h2 = h1 @ [Catalog RemoteEstimateLookup] in
               case db_remote db h1 of
                 QueryFailed e \<Rightarrow> (h2, Some (Wrapped ''look up the foreign tables that estimate remotely'' e))
               | DecodeFailed e \<Rightarrow> (h2, Some (Undecodable ''decode the foreign tables that estimate remotely'' e))
               | Answer remote \<Rightarrow>
                   (case remote of
                      [] \<Rightarrow> (h2, None)
                    | r # _ \<Rightarrow> (h2, Some (Rejected (EstimatesRemotely r))))))"

definition dropExplainPrivileges :: "database \<Rightarrow> history \<Rightarrow> int \<Rightarrow> bool \<Rightarrow> history \<times> explain_error option" where
  "dropExplainPrivileges db h major analyze =
     (let mode = (if major < 16 then ''MEMBER'' else ''SET''); h1 = h @ [Catalog (SessionPrivileges mode)] in
      case db_session db h mode of
        QueryFailed e \<Rightarrow> (h1, Some (Wrapped ''read explain session privileges'' e))
      | DecodeFailed e \<Rightarrow> (h1, Some (Undecodable ''decode explain session privileges'' e))
      | Answer session \<Rightarrow>
          if analyze \<and> es_superuser session then (h1, Some (Rejected SuperuserSession))
          else if \<not> es_signal session \<and> \<not> es_superuser session then (h1, None)
          else if \<not> es_read_all_data session then (h1, Some (Rejected CannotDropSignal))
          else
            let h2 = h1 @ [Exec ''SET LOCAL ROLE pg_read_all_data''] in
            case db_exec db h1 ''SET LOCAL ROLE pg_read_all_data'' of
              Some e \<Rightarrow> (h2, Some (Wrapped ''drop explain privileges'' e))
            | None \<Rightarrow> (h2, None))"

definition lookupFunctions :: "database \<Rightarrow> history \<Rightarrow> funcRef list \<Rightarrow> history \<times> (explain_error + catalogFunction list)" where
  "lookupFunctions db h refs =
     (let q = FunctionLookup (sort (remdups (map fr_name refs))); h1 = h @ [Catalog q] in
      case db_functions db h q of
        QueryFailed e \<Rightarrow> (h1, Inl (Wrapped ''look up functions for the explain guard'' e))
      | DecodeFailed e \<Rightarrow> (h1, Inl (Undecodable ''decode functions for the explain guard'' e))
      | Answer functions \<Rightarrow> (h1, Inr functions))"

definition lookupHiddenCalls :: "database \<Rightarrow> history \<Rightarrow> history \<times> (explain_error + hiddenCall list)" where
  "lookupHiddenCalls db h =
     (let h1 = h @ [Catalog HiddenCallLookup] in
      case db_hidden db h of
        QueryFailed e \<Rightarrow> (h1, Inl (Wrapped ''look up operators, casts, domains and aggregates for the explain guard'' e))
      | DecodeFailed e \<Rightarrow> (h1, Inl (Undecodable ''decode operators, casts, domains and aggregates for the explain guard'' e))
      | Answer calls \<Rightarrow> (h1, Inr calls))"

text \<open>The calls of \<open>refs\<close>, looked up and judged, unless there are none.\<close>

definition check_refs ::
    "database \<Rightarrow> history \<Rightarrow> funcRef list \<Rightarrow> bool \<Rightarrow> (ref_hazard \<Rightarrow> rejection) \<Rightarrow> history \<times> explain_error option" where
  "check_refs db h refs strict refuse =
     (if refs = [] then (h, None)
      else case lookupFunctions db h refs of
             (h1, Inl e) \<Rightarrow> (h1, Some e)
           | (h1, Inr functions) \<Rightarrow> (h1, map_option (\<lambda>z. Rejected (refuse z)) (first_ref_hazard refs functions strict)))"

fun first_hidden :: "hiddenCall list \<Rightarrow> rejection option" where
  "first_hidden [] = None"
| "first_hidden (c # cs) =
     (case functionHazard (hc_function c) of
        Some z \<Rightarrow> Some (ObjectCalls (hc_object c) (hc_function c) z)
      | None \<Rightarrow> first_hidden cs)"

definition inspection :: "string \<Rightarrow> string" where
  "inspection statement = ''EXPLAIN (VERBOSE, FORMAT JSON, COSTS OFF) '' @ statement"

text \<open>The last part of \<^verbatim>\<open>guardAnalyze\<close>: the plan of the statement.\<close>

definition guard_plan ::
    "(string \<Rightarrow> json option) \<Rightarrow> (string \<Rightarrow> string) \<Rightarrow> database \<Rightarrow> history \<Rightarrow> string \<Rightarrow> history \<times> explain_error option" where
  "guard_plan parse lw db h statement =
     (let h1 = h @ [QueryRow (inspection statement)] in
      case db_row db h (inspection statement) of
        Inl e \<Rightarrow> (h1, Some (Rejected (CannotBePlanned e)))
      | Inr plan \<Rightarrow>
          (case inspectPlan parse lw plan of
             None \<Rightarrow> (h1, Some (PlanUnreadable ''inspect plan''))
           | Some facts \<Rightarrow>
               (case find (\<lambda>n. n \<in> set refusedPlanNodes) (pf_nodes facts) of
                  Some n \<Rightarrow> (h1, Some (Rejected (RefusedNode n)))
                | None \<Rightarrow> check_refs db h1 (pf_calls facts) True ShowsCall)))"

definition guardAnalyze ::
    "(string \<Rightarrow> json option) \<Rightarrow> (string \<Rightarrow> string) \<Rightarrow> database \<Rightarrow> history \<Rightarrow> string \<Rightarrow> history \<times> explain_error option" where
  "guardAnalyze parse lw db h statement =
     (case check_refs db h (scanCalls lw statement False) False StatementCalls of
        (h1, Some e) \<Rightarrow> (h1, Some e)
      | (h1, None) \<Rightarrow>
          (case lookupHiddenCalls db h1 of
             (h2, Inl e) \<Rightarrow> (h2, Some e)
           | (h2, Inr hidden) \<Rightarrow>
               (case first_hidden hidden of
                  Some r \<Rightarrow> (h2, Some (Rejected r))
                | None \<Rightarrow> guard_plan parse lw db h2 statement)))"

definition discardConn :: "database \<Rightarrow> history \<Rightarrow> history" where
  "discardConn db h = h @ [if db_hijackable db then HijackClose else ReleaseConn]"

end
