(* ===== verification/Explain_Exec.thy ===== *)
theory Explain_Exec
  imports Explain_Guard
begin

text \<open>
  The executor of the explain command (\<^verbatim>\<open>internal/agent/exec_explain.go\<close>). The text of a statement comes from
  pg_stat_statements and is written by database users; the executor accepts it, opens a read-only
  transaction, runs the guard, explains it and discards the session. The target's answers that are not
  requests on the connection are in the record \<open>target\<close>; \<^verbatim>\<open>json.Marshal\<close> and the SHA-256 digest are the
  arguments \<open>marshal\<close> and \<open>digest\<close>.
\<close>

section \<open>The statement\<close>

definition singleStatement :: "string \<Rightarrow> string option" where
  "singleStatement statement =
     (let trimmed = rev (dropWhile (\<lambda>c. c \<in> {CHR '' '', CHR 0x09, CHR 0x0D, CHR 0x0A, CHR '';''}) (rev statement)) in
      if trimmed = [] \<or> CHR '';'' \<in> set trimmed then None else Some trimmed)"

fun hasParameterPlaceholders :: "string \<Rightarrow> bool" where
  "hasParameterPlaceholders (c # d # s) \<longleftrightarrow> c = CHR ''$'' \<and> is_digit d \<or> hasParameterPlaceholders (d # s)"
| "hasParameterPlaceholders _ \<longleftrightarrow> False"

definition readOnlyExplainKeyword :: "string \<Rightarrow> bool" where
  "readOnlyExplainKeyword keyword \<longleftrightarrow> keyword \<in> {''SELECT'', ''VALUES'', ''WITH'', ''TABLE''}"

definition allowedExplainKeyword :: "string \<Rightarrow> bool" where
  "allowedExplainKeyword keyword \<longleftrightarrow>
     keyword \<in> {''SELECT'', ''INSERT'', ''UPDATE'', ''DELETE'', ''MERGE'', ''VALUES'', ''WITH'', ''TABLE''}"

text \<open>The rest of the statement after the comment that opens it; \<^term>\<open>None\<close> is the offset -1.\<close>

fun block_end :: "int \<Rightarrow> string \<Rightarrow> string option" where
  "block_end depth (c # d # s) =
     (if c = CHR ''/'' \<and> d = CHR ''*'' then block_end (depth + 1) s
      else if c = CHR ''*'' \<and> d = CHR ''/'' then (if depth - 1 = 0 then Some s else block_end (depth - 1) s)
      else block_end depth (d # s))"
| "block_end depth _ = None"

definition blockCommentEnd :: "string \<Rightarrow> string option" where
  "blockCommentEnd statement = block_end 0 statement"

definition upper_char :: "char \<Rightarrow> char" where
  "upper_char c = (if is_lower c then char_of (bv c - 32) else c)"

lemma block_end_less: "block_end d s = Some r \<Longrightarrow> length r < length s"
  by (induction d s rule: block_end.induct) (auto split: if_splits)

lemma dropWhile_tl_less: "s \<noteq> [] \<Longrightarrow> length (tl (dropWhile P s)) < length s"
proof -
  assume "s \<noteq> []"
  then have "0 < length s"
    by simp
  with length_dropWhile_le [of P s] show ?thesis
    unfolding length_tl by linarith
qed

text \<open>The loop over leading white space and comments; \<^term>\<open>None\<close> is the early return of the empty keyword.\<close>

definition trim_left :: "string \<Rightarrow> string" where
  "trim_left s = dropWhile (\<lambda>c. c \<in> {CHR '' '', CHR 0x09, CHR 0x0D, CHR 0x0A}) s"

function skip_leading :: "string \<Rightarrow> string option" where
  "skip_leading statement =
     (let s = trim_left statement in
      if has_prefix ''--'' s then
        (let r = dropWhile (\<lambda>c. c \<noteq> CHR 0x0D \<and> c \<noteq> CHR 0x0A) s in
         if r = [] then None else skip_leading (tl r))
      else if has_prefix ''/*'' s then
        (case blockCommentEnd s of None \<Rightarrow> None | Some r \<Rightarrow> skip_leading r)
      else Some s)"
  by pat_completeness auto
termination
proof (relation "measure length", goal_cases)
  case (2 st s r)
  have le: "length s \<le> length st"
    unfolding 2(1) trim_left_def by (rule length_dropWhile_le)
  have "s \<noteq> []"
    using 2(2) by (auto simp: has_prefix_def)
  then have "length (tl r) < length s"
    unfolding 2(3) by (rule dropWhile_tl_less)
  with le show ?case
    by simp
next
  case (3 st s r)
  have le: "length s \<le> length st"
    unfolding 3(1) trim_left_def by (rule length_dropWhile_le)
  have "length r < length s"
    using 3(4) block_end_less unfolding blockCommentEnd_def by blast
  with le show ?case
    by simp
qed simp

declare skip_leading.simps [simp del]

definition firstSQLKeyword :: "string \<Rightarrow> string" where
  "firstSQLKeyword statement =
     (case skip_leading statement of
        None \<Rightarrow> []
      | Some s \<Rightarrow> map upper_char (takeWhile (\<lambda>c. is_upper c \<or> is_lower c) s))"

section \<open>The hash of a plan\<close>

definition structuralPlanKeys :: "string list" where
  "structuralPlanKeys =
     [''Plan'', ''Plans'', ''Node Type'', ''Parent Relationship'', ''Parallel Aware'', ''Async Capable'',
      ''Join Type'', ''Partial Mode'', ''Strategy'', ''Scan Direction'', ''Command'', ''Operation'',
      ''Relation Name'', ''Schema'', ''Alias'', ''Index Name'', ''Function Name'', ''CTE Name'', ''Subplan Name'',
      ''Filter'', ''Index Cond'', ''Recheck Cond'', ''Hash Cond'', ''Merge Cond'', ''Join Filter'',
      ''One-Time Filter'', ''Sort Key'', ''Group Key'', ''Output'', ''Workers Planned'', ''Inner Unique'']"

fun structuralPlanFields :: "json \<Rightarrow> json" where
  "structuralPlanFields (JArray vs) = JArray (map structuralPlanFields vs)"
| "structuralPlanFields (JObject kvs) =
     JObject (filter (\<lambda>(k, v). k \<in> set structuralPlanKeys) (map (\<lambda>(k, v). (k, structuralPlanFields v)) kvs))"
| "structuralPlanFields v = v"

definition planHash :: "(string \<Rightarrow> json option) \<Rightarrow> (json \<Rightarrow> string) \<Rightarrow> (string \<Rightarrow> string) \<Rightarrow> string \<Rightarrow> string option" where
  "planHash parse marshal digest plan = map_option (\<lambda>v. digest (marshal (structuralPlanFields v))) (parse plan)"

section \<open>Executing the command\<close>

record explain_args =
  ea_queryid :: "int option"
  ea_datname :: string
  ea_analyze :: bool

record target =
  tg_connect :: "db_error option"
  tg_statements_conn :: "db_error option"
  tg_major :: int

record explain_result =
  er_plan :: string
  er_hash :: string
  er_datname :: string

definition isUndefinedTable :: "db_error + string \<Rightarrow> bool" where
  "isUndefinedTable r \<longleftrightarrow> (case r of Inl (PgError code m) \<Rightarrow> code = ''42P01'' | _ \<Rightarrow> False)"

definition isInsufficientPrivilege :: "explain_failure \<Rightarrow> bool" where
  "isInsufficientPrivilege e \<longleftrightarrow> (case e of FromDatabase (PgError code m) \<Rightarrow> code = ''42501'' | _ \<Rightarrow> False)"

definition lookupStatement :: "database \<Rightarrow> target \<Rightarrow> history \<Rightarrow> string \<Rightarrow> history \<times> (db_error + string)" where
  "lookupStatement db tg h datname =
     (let r = db_text db h OwnConnection; h1 = h @ [ReadStatementText OwnConnection] in
      if datname = [] \<or> \<not> isUndefinedTable r then (h1, r)
      else case tg_statements_conn tg of
             Some e \<Rightarrow> (h1, Inl e)
           | None \<Rightarrow> (h1 @ [ReadStatementText StatementsSource], db_text db h1 StatementsSource))"

definition explainVerbatim :: "database \<Rightarrow> history \<Rightarrow> string \<Rightarrow> history \<times> (explain_failure + string)" where
  "explainVerbatim db h sql =
     (case db_simple db h sql of
        None \<Rightarrow> (h, Inl CannotSendVerbatim)
      | Some (Inl e) \<Rightarrow> (h @ [SimpleQuery sql], Inl (FromDatabase e))
      | Some (Inr results) \<Rightarrow>
          (h @ [SimpleQuery sql], case results of [[[plan]]] \<Rightarrow> Inr plan | _ \<Rightarrow> Inl UnexpectedShape))"

text \<open>The text before the statement, with the options of the two modes.\<close>

definition explain_options :: "bool \<Rightarrow> bool \<Rightarrow> string" where
  "explain_options analyze hasParams =
     (if analyze then ''ANALYZE, FORMAT JSON, VERBOSE, COSTS, BUFFERS''
      else ''FORMAT JSON, VERBOSE, COSTS'' @ (if hasParams then '', GENERIC_PLAN'' else []))"

definition explain_sql :: "bool \<Rightarrow> string \<Rightarrow> string" where
  "explain_sql analyze statement =
     ''EXPLAIN ('' @ explain_options analyze (hasParameterPlaceholders statement) @ '') '' @ statement"

text \<open>The part before the transaction: the statement to explain, or why there is none.\<close>

definition accept :: "target \<Rightarrow> explain_args \<Rightarrow> int \<Rightarrow> string \<Rightarrow> rejection + string" where
  "accept tg args qid text =
     (case singleStatement text of
        None \<Rightarrow> Inl (NotSingleStatement qid)
      | Some statement \<Rightarrow>
          (let keyword = firstSQLKeyword statement; hasParams = hasParameterPlaceholders statement in
           if mayHoldCredential statement then Inl (StatementMayHoldCredential qid)
           else if \<not> allowedExplainKeyword keyword then Inl (KeywordNotSafe keyword)
           else if ea_analyze args \<and> \<not> readOnlyExplainKeyword keyword then Inl (AnalyzeWouldExecute keyword)
           else if ea_analyze args \<and> hasParams then Inl AnalyzeNeedsValues
           else if hasParams \<and> tg_major tg < 16 then Inl NeedsGenericPlan
           else Inr statement))"

text \<open>The statements that set the transaction up, up to the first that fails.\<close>

fun exec_all :: "database \<Rightarrow> history \<Rightarrow> string list \<Rightarrow> history \<times> explain_error option" where
  "exec_all db h [] = (h, None)"
| "exec_all db h (q # qs) =
     (case db_exec db h q of
        Some e \<Rightarrow> (h @ [Exec q], Some (Unwrapped (FromDatabase e)))
      | None \<Rightarrow> exec_all db (h @ [Exec q]) qs)"

definition tx_settings :: "bool \<Rightarrow> string list" where
  "tx_settings analyze =
     [if analyze then ''SET LOCAL statement_timeout = '' @ [quote1] @ ''30s'' @ [quote1]
      else ''SET LOCAL statement_timeout = '' @ [quote1] @ ''15s'' @ [quote1],
      ''SET LOCAL search_path TO DEFAULT'']"

definition guards ::
    "(string \<Rightarrow> json option) \<Rightarrow> (string \<Rightarrow> string) \<Rightarrow> database \<Rightarrow> target \<Rightarrow> history \<Rightarrow> bool \<Rightarrow> string \<Rightarrow> history \<times> explain_error option" where
  "guards parse lw db tg h analyze statement =
     (case exec_all db h (tx_settings analyze) of
        (h1, Some e) \<Rightarrow> (h1, Some e)
      | (h1, None) \<Rightarrow>
          (case guardPlanning db h1 of
             (h2, Some e) \<Rightarrow> (h2, Some e)
           | (h2, None) \<Rightarrow>
               (case dropExplainPrivileges db h2 (tg_major tg) analyze of
                  (h3, Some e) \<Rightarrow> (h3, Some e)
                | (h3, None) \<Rightarrow> if analyze then guardAnalyze parse lw db h3 statement else (h3, None))))"

definition run_explain :: "database \<Rightarrow> history \<Rightarrow> bool \<Rightarrow> string \<Rightarrow> history \<times> (explain_failure + string)" where
  "run_explain db h analyze statement =
     (let sql = explain_sql analyze statement in
      if hasParameterPlaceholders statement then explainVerbatim db h sql
      else (h @ [QueryRow sql], case db_row db h sql of Inl e \<Rightarrow> Inl (FromDatabase e) | Inr plan \<Rightarrow> Inr plan))"

definition explain_failed :: "bool \<Rightarrow> string \<Rightarrow> explain_failure \<Rightarrow> explain_error" where
  "explain_failed analyze keyword e =
     (if \<not> readOnlyExplainKeyword keyword \<and> isInsufficientPrivilege e then
        Rejected (NeedsPrivilege keyword (case e of FromDatabase d \<Rightarrow> d | _ \<Rightarrow> NoRows))
      else if \<not> analyze then Rejected (CannotBeExplained e)
      else Unwrapped e)"

text \<open>The body of the transaction.\<close>

definition in_transaction ::
    "(string \<Rightarrow> json option) \<Rightarrow> (json \<Rightarrow> string) \<Rightarrow> (string \<Rightarrow> string) \<Rightarrow> (string \<Rightarrow> string) \<Rightarrow> database \<Rightarrow> target \<Rightarrow> history \<Rightarrow>
      explain_args \<Rightarrow> int \<Rightarrow> string \<Rightarrow> history \<times> (explain_error + explain_result)" where
  "in_transaction parse marshal digest lw db tg h args qid statement =
     (case guards parse lw db tg h (ea_analyze args) statement of
        (h1, Some e) \<Rightarrow> (h1, Inl e)
      | (h1, None) \<Rightarrow>
          (case run_explain db h1 (ea_analyze args) statement of
             (h2, Inl e) \<Rightarrow> (h2, Inl (explain_failed (ea_analyze args) (firstSQLKeyword statement) e))
           | (h2, Inr plan) \<Rightarrow>
               if mayHoldCredential plan then (h2, Inl (Rejected (PlanMayHoldCredential qid)))
               else case planHash parse marshal digest plan of
                      None \<Rightarrow> (h2, Inl (PlanUnreadable ''hash explain plan''))
                    | Some hash \<Rightarrow>
                        let h3 = h2 @ [QueryRow ''SELECT current_database()''] in
                        case db_row db h2 ''SELECT current_database()'' of
                          Inl e \<Rightarrow> (h3, Inl (Unwrapped (FromDatabase e)))
                        | Inr datname \<Rightarrow> (h3, Inr \<lparr>er_plan = plan, er_hash = hash, er_datname = datname\<rparr>)))"

text \<open>The deferred \<^verbatim>\<open>ROLLBACK\<close> and \<^verbatim>\<open>discardConn\<close> run on every way out after they are set.\<close>

definition Execute ::
    "(string \<Rightarrow> json option) \<Rightarrow> (json \<Rightarrow> string) \<Rightarrow> (string \<Rightarrow> string) \<Rightarrow> (string \<Rightarrow> string) \<Rightarrow> database \<Rightarrow> target \<Rightarrow>
      explain_args \<Rightarrow> history \<times> (explain_error + explain_result)" where
  "Execute parse marshal digest lw db tg args =
     (case ea_queryid args of
        None \<Rightarrow> ([], Inl (Rejected QueryIDRequired))
      | Some qid \<Rightarrow>
          (case tg_connect tg of
             Some e \<Rightarrow> ([], Inl (Unwrapped (FromDatabase e)))
           | None \<Rightarrow>
               (case lookupStatement db tg [] (ea_datname args) of
                  (h, Inl e) \<Rightarrow>
                    (discardConn db h,
                     Inl (if e = NoRows then Rejected (QueryIDUnknown qid)
                          else if isUndefinedTable (Inl e) then Rejected (StatementsNotInstalled (ea_datname args))
                          else Unwrapped (FromDatabase e)))
                | (h, Inr text) \<Rightarrow>
                    (case accept tg args qid text of
                       Inl r \<Rightarrow> (discardConn db h, Inl (Rejected r))
                     | Inr statement \<Rightarrow>
                         let h1 = h @ [Exec ''BEGIN READ ONLY''] in
                         case db_exec db h ''BEGIN READ ONLY'' of
                           Some e \<Rightarrow> (discardConn db h1, Inl (Unwrapped (FromDatabase e)))
                         | None \<Rightarrow>
                             (case in_transaction parse marshal digest lw db tg h1 args qid statement of
                                (h2, out) \<Rightarrow> (discardConn db (h2 @ [Exec ''ROLLBACK'']), out))))))"

end
