(* ===== verification/Explain_Trace.thy ===== *)
theory Explain_Trace
  imports Explain_Exec "HOL-Library.Sublist"
begin

text \<open>
  The conversation of the explain command with the database as a trace of requests: which requests plan a
  statement, what must have been asked and answered before one is sent, and what each check of the guard
  adds to the trace when it passes.
\<close>

section \<open>The facts of a plan\<close>

inductive occurs :: "json \<Rightarrow> json \<Rightarrow> bool" where
  occurs_self: "occurs v v"
| occurs_array: "occurs u v \<Longrightarrow> v \<in> set vs \<Longrightarrow> occurs u (JArray vs)"
| occurs_object: "occurs u v \<Longrightarrow> (k, v) \<in> set kvs \<Longrightarrow> occurs u (JObject kvs)"

lemma walk_occurs: "occurs u doc \<Longrightarrow> set (walk lw u) \<subseteq> set (walk lw doc)"
  by (induction rule: occurs.induct) force+

lemma plan_calls_set: "set (plan_calls fs calls) = set calls \<union> {r. PlanCall r \<in> set fs}"
  by (induction fs calls rule: plan_calls.induct) (auto simp: add_ref_def)

lemma node_types_set: "set (node_types fs) = {n. NodeType n \<in> set fs}"
  by (induction fs rule: node_types.induct) auto

lemma inspect_finds_call:
  assumes "parse plan = Some doc" "inspectPlan parse lw plan = Some facts" "occurs (JString s) doc" "ref \<in> set (scanCalls lw s True)"
  shows "ref \<in> set (pf_calls facts)"
  using assms walk_occurs [OF assms(3), of lw] by (auto simp: inspectPlan_def plan_calls_set)

lemma inspect_finds_node:
  assumes "parse plan = Some doc" "inspectPlan parse lw plan = Some facts" "occurs (JObject kvs) doc"
    and "string_member kvs ''Node Type'' = Some n"
  shows "n \<in> set (pf_nodes facts)"
  using assms walk_occurs [OF assms(3), of lw] by (auto simp: inspectPlan_def node_types_set object_facts_def)

lemma inspect_finds_function:
  assumes "parse plan = Some doc" "inspectPlan parse lw plan = Some facts" "occurs (JObject kvs) doc"
    and "string_member kvs ''Function Name'' = Some n" "string_member kvs ''Schema'' = Some s"
  shows "\<lparr>fr_schema = s, fr_name = n\<rparr> \<in> set (pf_calls facts)"
  using assms walk_occurs [OF assms(3), of lw] by (auto simp: inspectPlan_def plan_calls_set object_facts_def)

section \<open>What a check that passes has seen\<close>

text \<open>A name is safe for a list of functions when some function has it and none that does is a hazard.\<close>

definition name_safe :: "catalogFunction list \<Rightarrow> funcRef \<Rightarrow> bool" where
  "name_safe functions ref \<longleftrightarrow>
     (\<exists>f \<in> set functions. resolves ref f) \<and> (\<forall>f \<in> set functions. resolves ref f \<longrightarrow> functionHazard f = None)"

text \<open>
  The database answered, before the request at hand, that it defines no function the planner may run and no
  foreign table that estimates remotely, and the session can neither signal nor act as a superuser, or
  switched to the reading role.
\<close>

definition planning_cleared :: "database \<Rightarrow> history \<Rightarrow> bool" where
  "planning_cleared db pre \<longleftrightarrow>
     (\<exists>h functions. prefix (h @ [Catalog PlannableFunctionLookup]) pre \<and> db_functions db h PlannableFunctionLookup = Answer functions
        \<and> (\<forall>f \<in> set functions. functionHazard f = None)) \<and>
     (\<exists>h. prefix (h @ [Catalog RemoteEstimateLookup]) pre \<and> db_remote db h = Answer [])"

definition privileges_dropped :: "database \<Rightarrow> bool \<Rightarrow> history \<Rightarrow> bool" where
  "privileges_dropped db analyze pre \<longleftrightarrow>
     (\<exists>h mode session. prefix (h @ [Catalog (SessionPrivileges mode)]) pre \<and> db_session db h mode = Answer session
        \<and> (analyze \<longrightarrow> \<not> es_superuser session)
        \<and> (es_signal session \<or> es_superuser session \<longrightarrow>
             (\<exists>h'. prefix (h' @ [Exec ''SET LOCAL ROLE pg_read_all_data'']) pre
                \<and> db_exec db h' ''SET LOCAL ROLE pg_read_all_data'' = None)))"

text \<open>
  The plan of the statement was inspected: no node of it is refused, and every call in any of its
  expressions, and every function scan, is a safe name for the functions the catalog listed.
\<close>

definition plan_cleared :: "(string \<Rightarrow> json option) \<Rightarrow> (string \<Rightarrow> string) \<Rightarrow> database \<Rightarrow> history \<Rightarrow> string \<Rightarrow> bool" where
  "plan_cleared parse lw db pre statement \<longleftrightarrow>
     (\<exists>h plan doc functions.
        prefix (h @ [QueryRow (inspection statement)]) pre \<and> db_row db h (inspection statement) = Inr plan \<and> parse plan = Some doc
        \<and> (\<forall>kvs n. occurs (JObject kvs) doc \<and> string_member kvs ''Node Type'' = Some n \<longrightarrow> n \<notin> set refusedPlanNodes)
        \<and> (\<forall>kvs n s. occurs (JObject kvs) doc \<and> string_member kvs ''Function Name'' = Some n \<and> string_member kvs ''Schema'' = Some s
             \<longrightarrow> name_safe functions \<lparr>fr_schema = s, fr_name = n\<rparr>)
        \<and> (\<forall>ps ref. occurs (JString (print_pieces ps)) doc \<and> list_all (wf_piece lw True) ps \<and> ref \<in> set (concat (map piece_calls ps))
             \<longrightarrow> name_safe functions ref
               \<and> (\<exists>h' names. prefix (h' @ [Catalog (FunctionLookup names)]) pre \<and> fr_name ref \<in> set names
                    \<and> db_functions db h' (FunctionLookup names) = Answer functions)))"

definition hidden_cleared :: "database \<Rightarrow> history \<Rightarrow> bool" where
  "hidden_cleared db pre \<longleftrightarrow>
     (\<exists>h calls. prefix (h @ [Catalog HiddenCallLookup]) pre \<and> db_hidden db h = Answer calls
        \<and> (\<forall>c \<in> set calls. functionHazard (hc_function c) = None))"

lemma first_hazard_None: "first_hazard fs = None \<longleftrightarrow> (\<forall>f \<in> set fs. functionHazard f = None)"
  by (induction fs) (auto split: option.splits)

lemma first_hidden_None: "first_hidden cs = None \<longleftrightarrow> (\<forall>c \<in> set cs. functionHazard (hc_function c) = None)"
  by (induction cs) (auto split: option.splits)

lemma ref_hazard_loop_None:
  "ref_hazard_loop ref m fs strict = None \<longleftrightarrow>
     (\<forall>f \<in> set fs. resolves ref f \<longrightarrow> functionHazard f = None) \<and> (strict \<longrightarrow> m \<or> (\<exists>f \<in> set fs. resolves ref f))"
  by (induction ref m fs strict rule: ref_hazard_loop.induct) (auto split: option.splits)

lemma refHazard_strict: "refHazard ref fs True = None \<longleftrightarrow> name_safe fs ref"
  by (auto simp: refHazard_def ref_hazard_loop_None name_safe_def)

lemma first_ref_hazard_None: "first_ref_hazard refs fs True = None \<longleftrightarrow> (\<forall>r \<in> set refs. name_safe fs r)"
  by (induction refs) (simp_all split: option.splits flip: refHazard_strict)

section \<open>Histories that keep the rules\<close>

text \<open>The requests that make PostgreSQL plan a statement.\<close>

definition plans :: "request \<Rightarrow> bool" where
  "plans r \<longleftrightarrow> (\<exists>st. r = QueryRow (inspection st)) \<or> (\<exists>b st. r = QueryRow (explain_sql b st) \<or> r = SimpleQuery (explain_sql b st))"

definition in_read_only :: "database \<Rightarrow> history \<Rightarrow> bool" where
  "in_read_only db pre \<longleftrightarrow>
     (\<exists>h. prefix (h @ [Exec ''BEGIN READ ONLY'']) pre \<and> db_exec db h ''BEGIN READ ONLY'' = None) \<and> Exec ''ROLLBACK'' \<notin> set pre"

definition cleared :: "database \<Rightarrow> bool \<Rightarrow> history \<Rightarrow> bool" where
  "cleared db analyze pre \<longleftrightarrow> in_read_only db pre \<and> planning_cleared db pre \<and> privileges_dropped db analyze pre"

definition permitted :: "(string \<Rightarrow> json option) \<Rightarrow> (string \<Rightarrow> string) \<Rightarrow> database \<Rightarrow> bool \<Rightarrow> history \<Rightarrow> request \<Rightarrow> bool" where
  "permitted parse lw db analyze pre r \<longleftrightarrow>
     (plans r \<longrightarrow> cleared db analyze pre) \<and>
     (\<forall>st. r = QueryRow (explain_sql True st) \<longrightarrow> analyze \<and> hidden_cleared db pre \<and> plan_cleared parse lw db pre st)"

definition disciplined :: "(string \<Rightarrow> json option) \<Rightarrow> (string \<Rightarrow> string) \<Rightarrow> database \<Rightarrow> bool \<Rightarrow> history \<Rightarrow> bool" where
  "disciplined parse lw db analyze h \<longleftrightarrow> (\<forall>pre r post. h = pre @ r # post \<longrightarrow> permitted parse lw db analyze pre r)"

lemma disciplined_Nil [simp]: "disciplined parse lw db analyze []"
  by (simp add: disciplined_def)

lemma disciplined_snoc:
  "disciplined parse lw db analyze (h @ [r]) \<longleftrightarrow> disciplined parse lw db analyze h \<and> permitted parse lw db analyze h r"
proof
  assume d: "disciplined parse lw db analyze (h @ [r])"
  have "permitted parse lw db analyze pre x" if "h = pre @ x # post" for pre x post
    using d that unfolding disciplined_def by (metis append.assoc append_Cons)
  moreover have "permitted parse lw db analyze h r"
    using d unfolding disciplined_def by blast
  ultimately show "disciplined parse lw db analyze h \<and> permitted parse lw db analyze h r"
    unfolding disciplined_def by blast
next
  assume d: "disciplined parse lw db analyze h \<and> permitted parse lw db analyze h r"
  show "disciplined parse lw db analyze (h @ [r])"
    unfolding disciplined_def
  proof (intro allI impI)
    fix pre x post
    assume "h @ [r] = pre @ x # post"
    with d show "permitted parse lw db analyze pre x"
      unfolding disciplined_def by (cases post rule: rev_cases) auto
  qed
qed

text \<open>
  The requests the body of the transaction sends for a statement, and those of them that do not plan it.
\<close>

definition harmless :: "request \<Rightarrow> bool" where
  "harmless r \<longleftrightarrow> (\<exists>q. r = Catalog q) \<or> (\<exists>q. r = Exec q \<and> has_prefix ''SET LOCAL '' q) \<or> r = QueryRow ''SELECT current_database()''"

definition inside :: "bool \<Rightarrow> string \<Rightarrow> request \<Rightarrow> bool" where
  "inside analyze st r \<longleftrightarrow>
     r \<in> {QueryRow (inspection st), QueryRow (explain_sql analyze st), SimpleQuery (explain_sql analyze st)} \<or> harmless r"

lemma not_plans [simp]:
  "\<not> plans (Exec q)" "\<not> plans (Catalog q')" "\<not> plans (ReadStatementText t)" "\<not> plans HijackClose" "\<not> plans ReleaseConn"
  "\<not> plans (QueryRow ''SELECT current_database()'')"
  by (auto simp: plans_def inspection_def explain_sql_def)

lemma harmless_simps [simp]:
  "harmless (Catalog q)" "harmless (Exec q') \<longleftrightarrow> has_prefix ''SET LOCAL '' q'" "harmless (QueryRow ''SELECT current_database()'')"
  by (auto simp: harmless_def)

lemma harmless_not_plans: "harmless r \<Longrightarrow> \<not> plans r"
  by (auto simp: harmless_def)

lemma inside_not_rollback [simp]: "\<not> inside a st (Exec ''ROLLBACK'')"
  by (simp add: inside_def has_prefix_def)

lemma explain_plans [simp]: "plans (QueryRow (explain_sql b st))" "plans (SimpleQuery (explain_sql b st))" "plans (QueryRow (inspection st))"
  by (auto simp: plans_def)

lemma permitted_other: "\<not> plans r \<Longrightarrow> permitted parse lw db analyze pre r"
  by (auto simp: permitted_def)

lemma disciplined_append:
  "\<forall>r \<in> set mid. \<not> plans r \<Longrightarrow> disciplined parse lw db analyze (h @ mid) \<longleftrightarrow> disciplined parse lw db analyze h"
  by (induction mid rule: rev_induct) (simp_all add: disciplined_snoc permitted_other flip: append_assoc)

definition extends :: "history \<Rightarrow> history \<Rightarrow> bool" where
  "extends h h' \<longleftrightarrow> (\<exists>mid. h' = h @ mid \<and> (\<forall>r \<in> set mid. harmless r))"

lemma extends_refl [simp]: "extends h h"
  by (simp add: extends_def)

lemma extends_snoc: "extends h h' \<Longrightarrow> harmless r \<Longrightarrow> extends h (h' @ [r])"
  by (auto simp: extends_def)

lemma extends_one [simp]: "extends h (h @ [r]) \<longleftrightarrow> harmless r"
  by (auto simp: extends_def)

lemma extends_trans: "extends h h' \<Longrightarrow> extends h' h'' \<Longrightarrow> extends h h''"
  unfolding extends_def by (metis Un_iff append.assoc set_append)

lemma extends_prefix: "extends h h' \<Longrightarrow> prefix h h'"
  by (auto simp: extends_def)

lemma disciplined_extends: "extends h h' \<Longrightarrow> disciplined parse lw db analyze h' \<longleftrightarrow> disciplined parse lw db analyze h"
  by (auto simp: extends_def harmless_not_plans disciplined_append)

text \<open>Any request of the body, planning or not.\<close>

definition grows :: "bool \<Rightarrow> string \<Rightarrow> history \<Rightarrow> history \<Rightarrow> bool" where
  "grows a st h h' \<longleftrightarrow> (\<exists>mid. h' = h @ mid \<and> (\<forall>r \<in> set mid. inside a st r))"

lemma extends_grows: "extends h h' \<Longrightarrow> grows a st h h'"
  by (auto simp: extends_def grows_def inside_def)

lemma grows_refl [simp]: "grows a st h h"
  by (simp add: grows_def)

lemma grows_one [simp]: "grows a st h (h @ [r]) \<longleftrightarrow> inside a st r"
  by (auto simp: grows_def)

lemma grows_trans: "grows a st h h' \<Longrightarrow> grows a st h' h'' \<Longrightarrow> grows a st h h''"
  unfolding grows_def by (metis Un_iff append.assoc set_append)

lemma grows_prefix: "grows a st h h' \<Longrightarrow> prefix h h'"
  by (auto simp: grows_def)

lemma in_read_only_grows: "grows a st h h' \<Longrightarrow> in_read_only db h \<Longrightarrow> in_read_only db h'"
  using inside_not_rollback [of a st] by (auto simp: grows_def in_read_only_def intro: prefix_prefix simp del: inside_not_rollback)

lemma planning_cleared_prefix: "prefix h h' \<Longrightarrow> planning_cleared db h \<Longrightarrow> planning_cleared db h'"
  unfolding planning_cleared_def by (meson prefix_order.trans)

lemma privileges_dropped_prefix: "prefix h h' \<Longrightarrow> privileges_dropped db a h \<Longrightarrow> privileges_dropped db a h'"
  unfolding privileges_dropped_def by (meson prefix_order.trans)

lemma cleared_grows: "grows a st h h' \<Longrightarrow> cleared db a' h \<Longrightarrow> cleared db a' h'"
  unfolding cleared_def
  by (auto intro: in_read_only_grows planning_cleared_prefix privileges_dropped_prefix dest: grows_prefix)

lemma hidden_cleared_prefix: "prefix h h' \<Longrightarrow> hidden_cleared db h \<Longrightarrow> hidden_cleared db h'"
  unfolding hidden_cleared_def by (meson prefix_order.trans)

section \<open>The checks\<close>

lemma guardPlanning_extends: "extends h (fst (guardPlanning db h))"
  by (auto simp: guardPlanning_def Let_def extends_def split: answer.splits option.splits list.splits)

lemma guardPlanning_cleared: "guardPlanning db h = (h', None) \<Longrightarrow> planning_cleared db h'"
  unfolding planning_cleared_def
  by (rule conjI; rule exI [of _ "h"] exI [of _ "h @ [Catalog PlannableFunctionLookup]"])
    (auto simp: guardPlanning_def Let_def first_hazard_None split: answer.splits option.splits list.splits)

lemma dropExplainPrivileges_extends: "extends h (fst (dropExplainPrivileges db h major analyze))"
  by (auto simp: dropExplainPrivileges_def Let_def extends_def has_prefix_def split: answer.splits option.splits)

lemma dropExplainPrivileges_dropped:
  assumes "dropExplainPrivileges db h major analyze = (h', None)"
  shows "privileges_dropped db analyze h'"
proof -
  define mode where "mode = (if major < 16 then ''MEMBER'' else ''SET'')"
  obtain session where s: "db_session db h mode = Answer session"
    using assms by (auto simp: dropExplainPrivileges_def Let_def mode_def [symmetric] split: answer.splits)
  have "prefix (h @ [Catalog (SessionPrivileges mode)]) h' \<and> (analyze \<longrightarrow> \<not> es_superuser session)
      \<and> (es_signal session \<or> es_superuser session \<longrightarrow>
          h' = (h @ [Catalog (SessionPrivileges mode)]) @ [Exec ''SET LOCAL ROLE pg_read_all_data'']
          \<and> db_exec db (h @ [Catalog (SessionPrivileges mode)]) ''SET LOCAL ROLE pg_read_all_data'' = None)"
    using assms s
    by (auto simp: dropExplainPrivileges_def Let_def mode_def [symmetric] split: answer.splits option.splits if_splits)
  with s show ?thesis
    unfolding privileges_dropped_def by (metis prefix_order.refl)
qed

lemma check_refs_extends: "extends h (fst (check_refs db h refs strict refuse))"
  by (auto simp: check_refs_def lookupFunctions_def Let_def split: answer.splits)

lemma check_refs_cleared:
  assumes "check_refs db h refs True refuse = (h', None)"
  shows "\<exists>functions. \<forall>ref \<in> set refs. name_safe functions ref
    \<and> (\<exists>h0 names. prefix (h0 @ [Catalog (FunctionLookup names)]) h' \<and> fr_name ref \<in> set names
        \<and> db_functions db h0 (FunctionLookup names) = Answer functions)"
proof (cases "refs = []")
  case False
  define names where "names = sort (remdups (map fr_name refs))"
  have *: "(case db_functions db h (FunctionLookup names) of
       Answer fs \<Rightarrow> h' = h @ [Catalog (FunctionLookup names)] \<and> first_ref_hazard refs fs True = None | _ \<Rightarrow> False)"
    using assms False
    by (auto simp: check_refs_def lookupFunctions_def Let_def names_def [symmetric] split: answer.splits)
  then obtain fs where fs: "db_functions db h (FunctionLookup names) = Answer fs" "h' = h @ [Catalog (FunctionLookup names)]"
      "first_ref_hazard refs fs True = None"
    by (auto split: answer.splits)
  have "fr_name ref \<in> set names" if "ref \<in> set refs" for ref
    using that by (simp add: names_def)
  with fs show ?thesis
    by (intro exI [of _ fs]) (auto simp: first_ref_hazard_None)
qed simp

end
