(* ===== verification/Explain_Safety.thy ===== *)
theory Explain_Safety
  imports Explain_Trace Explain_Keyword
begin

text \<open>
  What the explain command can do to a database: nothing is planned before the planning guard and the
  privilege drop, nothing is executed before the statement, the catalog and the plan were inspected, and
  the session always ends with the command.
\<close>

section \<open>The guard of ANALYZE\<close>

lemma inspection_not_explain [simp]: "inspection st \<noteq> explain_sql b st'"
  by (cases b) (simp_all add: inspection_def explain_sql_def explain_options_def)

lemma explain_sql_eq [simp]:
  "explain_sql True st = explain_sql b st' \<longleftrightarrow> b \<and> st = st'" "explain_sql b st' = explain_sql True st \<longleftrightarrow> b \<and> st' = st"
  by (cases b; auto simp: explain_sql_def explain_options_def)+

lemma inside_simps [simp]:
  "inside a st (QueryRow (inspection st))" "inside a st (QueryRow (explain_sql a st))" "inside a st (SimpleQuery (explain_sql a st))"
  "harmless r \<Longrightarrow> inside a st r"
  by (auto simp: inside_def)

lemma permitted_inspection: "cleared db a h \<Longrightarrow> permitted parse lw db a h (QueryRow (inspection st))"
  by (simp add: permitted_def)

lemma guard_plan_extends: "guard_plan parse lw db h st = (h', e) \<Longrightarrow> extends (h @ [QueryRow (inspection st)]) h'"
  using check_refs_extends [of "h @ [QueryRow (inspection st)]" db _ True ShowsCall]
  by (auto simp: guard_plan_def Let_def split: sum.splits option.splits) (metis fst_conv)

lemma guard_plan_trace:
  assumes "cleared db a h" "disciplined parse lw db a h" "guard_plan parse lw db h st = (h', e)"
  shows "grows a st h h' \<and> disciplined parse lw db a h'"
proof -
  have "extends (h @ [QueryRow (inspection st)]) h'"
    by (rule guard_plan_extends [OF assms(3)])
  moreover have "disciplined parse lw db a (h @ [QueryRow (inspection st)])"
    using assms(1,2) by (simp add: disciplined_snoc permitted_inspection)
  ultimately show ?thesis
    using disciplined_extends extends_grows grows_trans [of a st h "h @ [QueryRow (inspection st)]" h'] by auto
qed

lemma find_None: "find P xs = None \<longleftrightarrow> (\<forall>x \<in> set xs. \<not> P x)"
  by (induction xs) auto

lemma guard_plan_cleared:
  assumes "guard_plan parse lw db h st = (h', None)"
  shows "plan_cleared parse lw db h' st"
proof -
  let ?h1 = "h @ [QueryRow (inspection st)]"
  obtain plan facts where p: "db_row db h (inspection st) = Inr plan" "inspectPlan parse lw plan = Some facts"
      "\<forall>n \<in> set (pf_nodes facts). n \<notin> set refusedPlanNodes" "check_refs db ?h1 (pf_calls facts) True ShowsCall = (h', None)"
    using assms by (auto simp: guard_plan_def Let_def find_None split: sum.splits option.splits)
  obtain doc where doc: "parse plan = Some doc"
    using p(2) by (auto simp: inspectPlan_def split: option.splits)
  obtain fs where fs: "\<forall>ref \<in> set (pf_calls facts). name_safe fs ref
      \<and> (\<exists>h0 names. prefix (h0 @ [Catalog (FunctionLookup names)]) h' \<and> fr_name ref \<in> set names
          \<and> db_functions db h0 (FunctionLookup names) = Answer fs)"
    using check_refs_cleared [OF p(4)] by blast
  have "prefix ?h1 h'"
    using check_refs_extends [of ?h1 db "pf_calls facts" True ShowsCall] p(4) extends_prefix by simp
  moreover have "ref \<in> set (pf_calls facts)"
    if "occurs (JString (print_pieces ps)) doc" "list_all (wf_piece lw True) ps" "ref \<in> set (concat (map piece_calls ps))" for ps ref
    using inspect_finds_call [OF doc p(2) that(1)] that(3) scan_pieces [OF that(2), of "print_pieces ps" "[]" "[]"]
    by (simp add: scanCalls_def fold_add_ref)
  moreover note inspect_finds_node [OF doc p(2)] inspect_finds_function [OF doc p(2)]
  ultimately show ?thesis
    unfolding plan_cleared_def using p(1,3) doc fs by (intro exI [of _ h] exI [of _ plan] exI [of _ doc] exI [of _ fs]) blast
qed

lemma guardAnalyze_trace:
  assumes "cleared db a h" "disciplined parse lw db a h" "guardAnalyze parse lw db h st = (h', e)"
  shows "grows a st h h' \<and> disciplined parse lw db a h'"
proof -
  obtain h1 e1 where c: "check_refs db h (scanCalls lw st False) False StatementCalls = (h1, e1)"
    by force
  have x1: "extends h h1"
    using check_refs_extends [of h db "scanCalls lw st False" False StatementCalls] c by simp
  have x2: "extends h (h1 @ [Catalog HiddenCallLookup])"
    using x1 by (simp add: extends_snoc)
  have two: "grows a st h h2 \<and> disciplined parse lw db a h2 \<and> cleared db a h2" if "extends h h2" for h2
    using that assms(1,2) disciplined_extends extends_grows cleared_grows by blast
  show ?thesis
    using assms(3) c two [OF x1] two [OF x2] guard_plan_trace [of db a "h1 @ [Catalog HiddenCallLookup]" parse lw st h' e]
    by (auto simp: guardAnalyze_def lookupHiddenCalls_def Let_def split: option.splits answer.splits intro: grows_trans)
qed

lemma guardAnalyze_cleared:
  assumes "guardAnalyze parse lw db h st = (h', None)"
  shows "hidden_cleared db h' \<and> plan_cleared parse lw db h' st"
proof -
  obtain h1 calls where c: "db_hidden db h1 = Answer calls" "first_hidden calls = None"
      "guard_plan parse lw db (h1 @ [Catalog HiddenCallLookup]) st = (h', None)"
    using assms by (auto simp: guardAnalyze_def lookupHiddenCalls_def Let_def split: option.splits answer.splits prod.splits)
  have "prefix (h1 @ [Catalog HiddenCallLookup]) h'"
    using extends_prefix [OF guard_plan_extends [OF c(3)]] by (rule append_prefixD)
  with c guard_plan_cleared [OF c(3)] show ?thesis
    by (auto simp: hidden_cleared_def first_hidden_None)
qed

section \<open>The body of the transaction\<close>

lemma tx_settings_extends: "extends h (fst (exec_all db h (tx_settings a)))"
  by (auto simp: tx_settings_def extends_def has_prefix_def split: option.splits)

lemma guards_trace:
  assumes "in_read_only db h" "disciplined parse lw db a h" "guards parse lw db tg h a st = (h', e)"
  shows "grows a st h h' \<and> disciplined parse lw db a h'
    \<and> (e = None \<longrightarrow> cleared db a h' \<and> (a \<longrightarrow> hidden_cleared db h' \<and> plan_cleared parse lw db h' st))"
proof -
  obtain h1 e1 where s1: "exec_all db h (tx_settings a) = (h1, e1)"
    by force
  obtain h2 e2 where s2: "guardPlanning db h1 = (h2, e2)"
    by force
  obtain h3 e3 where s3: "dropExplainPrivileges db h2 (tg_major tg) a = (h3, e3)"
    by force
  have x: "extends h h1" "extends h1 h2" "extends h2 h3"
    using tx_settings_extends [of h db a] guardPlanning_extends [of h1 db] dropExplainPrivileges_extends [of h2 db "tg_major tg" a] s1 s2 s3
    by simp_all
  then have x': "extends h h1" "extends h h2" "extends h h3"
    by (blast intro: extends_trans)+
  have d: "grows a st h g \<and> disciplined parse lw db a g \<and> in_read_only db g" if "extends h g" for g
    using that assms(1,2) disciplined_extends extends_grows in_read_only_grows by blast
  have c: "cleared db a h3" if "e2 = None" "e3 = None"
  proof -
    have "planning_cleared db h3"
      using guardPlanning_cleared s2 that(1) extends_prefix [OF x(3)] by (blast intro: planning_cleared_prefix)
    then show ?thesis
      using dropExplainPrivileges_dropped s3 that(2) d [OF x'(3)] by (auto simp: cleared_def)
  qed
  show ?thesis
  proof (cases "e1 = None \<and> e2 = None \<and> e3 = None \<and> a")
    case True
    then have g: "guardAnalyze parse lw db h3 st = (h', e)" and c3: "cleared db a h3"
      using assms(3) s1 s2 s3 c by (auto simp: guards_def)
    have t: "grows a st h3 h' \<and> disciplined parse lw db a h'"
      using guardAnalyze_trace [OF c3 _ g] d [OF x'(3)] by blast
    then have "cleared db a h'"
      using c3 cleared_grows by blast
    with t g guardAnalyze_cleared show ?thesis
      using d [OF x'(3)] by (blast intro: grows_trans)
  next
    case False
    then show ?thesis
      using assms(3) s1 s2 s3 c d [OF x'(1)] d [OF x'(2)] d [OF x'(3)] by (auto simp: guards_def split: option.splits)
  qed
qed

lemma explain_permitted:
  assumes "cleared db a h" "a \<longrightarrow> hidden_cleared db h \<and> plan_cleared parse lw db h st"
  shows "permitted parse lw db a h (QueryRow (explain_sql a st))" "permitted parse lw db a h (SimpleQuery (explain_sql a st))"
  using assms by (auto simp: permitted_def)

lemma run_explain_trace:
  assumes "cleared db a h" "a \<longrightarrow> hidden_cleared db h \<and> plan_cleared parse lw db h st" "disciplined parse lw db a h"
    and "run_explain db h a st = (h', r)"
  shows "grows a st h h' \<and> disciplined parse lw db a h'"
  using assms explain_permitted [OF assms(1,2)]
  by (auto simp: run_explain_def explainVerbatim_def Let_def disciplined_snoc split: if_splits option.splits sum.splits)

lemma in_transaction_trace:
  assumes "in_read_only db h" "disciplined parse lw db (ea_analyze args) h"
    and "in_transaction parse marshal digest lw db tg h args qid st = (h', out)"
  shows "grows (ea_analyze args) st h h' \<and> disciplined parse lw db (ea_analyze args) h'"
proof -
  let ?a = "ea_analyze args"
  obtain h1 e1 where g: "guards parse lw db tg h ?a st = (h1, e1)"
    by force
  note gt = guards_trace [OF assms(1,2) g]
  obtain h2 r where q: "run_explain db h1 ?a st = (h2, r)"
    by force
  have rt: "grows ?a st h h2 \<and> disciplined parse lw db ?a h2" if "e1 = None"
    using run_explain_trace [of db ?a h1 parse lw st h2 r] gt q that grows_trans by blast
  have "grows ?a st h (h2 @ [QueryRow ''SELECT current_database()'']) \<and> disciplined parse lw db ?a (h2 @ [QueryRow ''SELECT current_database()''])"
    if "e1 = None"
    using rt [OF that] grows_trans [of ?a st h h2] by (simp add: disciplined_snoc permitted_other)
  with rt gt show ?thesis
    using assms(3) g q
    by (auto simp: in_transaction_def Let_def split: option.splits sum.splits if_splits)
qed

section \<open>The whole command\<close>

lemma lookupStatement_texts:
  assumes "lookupStatement db tg [] datname = (h, r)"
  shows "\<forall>x \<in> set h. \<exists>t. x = ReadStatementText t"
  using assms by (auto simp: lookupStatement_def Let_def split: if_splits option.splits)

text \<open>The shape of every run: texts read, a transaction that is rolled back or was refused, and the end of the session.\<close>

lemma Execute_shape:
  assumes "Execute parse marshal digest lw db tg args = (sent, out)" "sent \<noteq> []"
  obtains (no_transaction) texts where "\<forall>x \<in> set texts. \<exists>t. x = ReadStatementText t" "sent = discardConn db texts"
  | (begin_failed) texts e where "\<forall>x \<in> set texts. \<exists>t. x = ReadStatementText t" "db_exec db texts ''BEGIN READ ONLY'' = Some e"
      "sent = discardConn db (texts @ [Exec ''BEGIN READ ONLY''])"
  | (transaction) texts h qid st query where "\<forall>x \<in> set texts. \<exists>t. x = ReadStatementText t" "db_exec db texts ''BEGIN READ ONLY'' = None"
      "accept tg args qid query = Inr st"
      "in_transaction parse marshal digest lw db tg (texts @ [Exec ''BEGIN READ ONLY'']) args qid st = (h, out)"
      "sent = discardConn db (h @ [Exec ''ROLLBACK''])"
proof -
  obtain h r where l: "lookupStatement db tg [] (ea_datname args) = (h, r)"
    by force
  note t = lookupStatement_texts [OF l]
  show thesis
    using assms l t
    by (auto simp: Execute_def Let_def split: option.splits sum.splits prod.splits intro: that)
qed

definition close_request :: "database \<Rightarrow> request" where
  "close_request db = (if db_hijackable db then HijackClose else ReleaseConn)"

lemma discardConn_eq: "discardConn db h = h @ [close_request db]"
  by (simp add: discardConn_def close_request_def)

lemma close_request_other [simp]: "\<not> plans (close_request db)" "\<not> inside a st (close_request db)" "close_request db \<noteq> Exec q"
  by (auto simp: close_request_def inside_def harmless_def)

lemma texts_disciplined:
  assumes "\<forall>x \<in> set texts. \<exists>t. x = ReadStatementText t"
  shows "disciplined parse lw db a texts" "Exec q \<notin> set texts" "plans r \<Longrightarrow> r \<notin> set texts" "close_request db \<notin> set texts"
proof -
  have "\<forall>r \<in> set texts. \<not> plans r"
    using assms by auto
  then show "disciplined parse lw db a texts"
    using disciplined_append [of texts parse lw db a "[]"] by simp
  show "Exec q \<notin> set texts" "plans r \<Longrightarrow> r \<notin> set texts" "close_request db \<notin> set texts"
    using assms by (auto simp: close_request_def)
qed

lemma transaction_trace:
  assumes "\<forall>x \<in> set texts. \<exists>t. x = ReadStatementText t" "db_exec db texts ''BEGIN READ ONLY'' = None"
    and "in_transaction parse marshal digest lw db tg (texts @ [Exec ''BEGIN READ ONLY'']) args qid st = (h, out)"
  shows "grows (ea_analyze args) st (texts @ [Exec ''BEGIN READ ONLY'']) h \<and> disciplined parse lw db (ea_analyze args) h"
proof (rule in_transaction_trace [OF _ _ assms(3)])
  show "in_read_only db (texts @ [Exec ''BEGIN READ ONLY''])"
    using assms texts_disciplined(2) [OF assms(1)] by (auto simp: in_read_only_def)
  show "disciplined parse lw db (ea_analyze args) (texts @ [Exec ''BEGIN READ ONLY''])"
    using texts_disciplined(1) [OF assms(1)] by (simp add: disciplined_snoc permitted_other)
qed

lemma Execute_disciplined:
  assumes "Execute parse marshal digest lw db tg args = (sent, out)"
  shows "disciplined parse lw db (ea_analyze args) sent"
proof (cases "sent = []")
  case False
  show ?thesis
  proof (cases rule: Execute_shape [OF assms False, case_names no_transaction begin_failed transaction])
    case (no_transaction texts)
    then show ?thesis
      by (simp add: discardConn_eq disciplined_snoc texts_disciplined(1) permitted_other)
  next
    case (begin_failed texts e)
    then show ?thesis
      by (simp add: discardConn_eq disciplined_snoc texts_disciplined(1) permitted_other del: append_assoc)
  next
    case (transaction texts h qid st query)
    then show ?thesis
      using transaction_trace [OF transaction(1,2,4)] by (simp add: discardConn_eq disciplined_snoc permitted_other del: append_assoc)
  qed
qed simp

lemma skip_front: "pre @ r # post = xs @ ys \<Longrightarrow> r \<notin> set xs \<Longrightarrow> \<exists>us. pre = xs @ us \<and> us @ r # post = ys"
proof (induction xs arbitrary: pre)
  case (Cons x xs)
  then show ?case
    by (cases pre) auto
qed simp

lemma skip_back: "us @ r # post = xs @ ys \<Longrightarrow> r \<notin> set ys \<Longrightarrow> \<exists>body. xs = us @ r # body \<and> post = body @ ys"
proof (induction us arbitrary: xs)
  case Nil
  then show ?case
    by (cases xs) auto
next
  case (Cons u us)
  then show ?case
    by (cases xs) auto
qed

text \<open>A request that plans is inside the transaction, of the accepted statement.\<close>

lemma plans_in_transaction:
  assumes "Execute parse marshal digest lw db tg args = (sent, out)" "sent = pre @ r # post" "plans r"
  shows "\<exists>qid query st body. accept tg args qid query = Inr st \<and> inside (ea_analyze args) st r
    \<and> post = body @ [Exec ''ROLLBACK'', close_request db] \<and> (\<forall>x \<in> set body. inside (ea_analyze args) st x)"
proof -
  have "r \<in> set sent" and ne: "sent \<noteq> []"
    using assms(2) by auto
  show ?thesis
  proof (cases rule: Execute_shape [OF assms(1) ne, case_names no_transaction begin_failed transaction])
    case (no_transaction texts)
    then show ?thesis
      using \<open>r \<in> set sent\<close> texts_disciplined(3) [OF no_transaction(1) assms(3)] assms(3) by (auto simp: discardConn_eq)
  next
    case (begin_failed texts e)
    then show ?thesis
      using \<open>r \<in> set sent\<close> texts_disciplined(3) [OF begin_failed(1) assms(3)] assms(3) by (auto simp: discardConn_eq)
  next
    case (transaction texts h qid st query)
    obtain mid where mid: "h = (texts @ [Exec ''BEGIN READ ONLY'']) @ mid" "\<forall>x \<in> set mid. inside (ea_analyze args) st x"
      using transaction_trace [OF transaction(1,2,4)] unfolding grows_def by blast
    let ?first = "texts @ [Exec ''BEGIN READ ONLY'']" and ?fin = "[Exec ''ROLLBACK'', close_request db]"
    have e: "pre @ r # post = ?first @ mid @ ?fin"
      using assms(2) transaction(5) mid(1) by (simp add: discardConn_eq)
    have nf: "r \<notin> set ?first" "r \<notin> set ?fin"
      using texts_disciplined(3) [OF transaction(1) assms(3)] assms(3) by auto
    obtain us where us: "pre = ?first @ us" "us @ r # post = mid @ ?fin"
      using skip_front [OF e nf(1)] by blast
    obtain body where "mid = us @ r # body" "post = body @ ?fin"
      using skip_back [OF us(2) nf(2)] by blast
    with mid(2) transaction(3) show ?thesis
      by auto
  qed
qed

lemma accept_cases:
  assumes "accept tg args qid query = Inr st"
  shows "singleStatement query = Some st" "\<not> mayHoldCredential st" "allowedExplainKeyword (firstSQLKeyword st)"
    "ea_analyze args \<Longrightarrow> readOnlyExplainKeyword (firstSQLKeyword st) \<and> \<not> hasParameterPlaceholders st"
  using assms by (auto simp: accept_def Let_def split: option.splits if_splits)

lemma singleStatement_no_semicolon: "singleStatement query = Some st \<Longrightarrow> CHR '';'' \<notin> set st"
  by (auto simp: singleStatement_def Let_def split: if_splits)

text \<open>A database with one harmless function, whose session can signal, and a command that analyzes a statement on it.\<close>

definition demo_plan :: json where
  "demo_plan = JArray [JObject [(''Plan'', JObject [(''Node Type'', JString ''Result''), (''Output'', JArray [JString ''now() ''])])]]"

definition demo_parse :: "string \<Rightarrow> json option" where
  "demo_parse s = (if s = ''P'' then Some demo_plan else None)"

definition demo_db :: database where
  "demo_db =
     \<lparr>db_exec = (\<lambda>h q. None),
      db_row = (\<lambda>h q. if q = ''SELECT current_database()'' then Inr ''app'' else Inr ''P''),
      db_simple = (\<lambda>h q. None),
      db_text = (\<lambda>h t. Inr ''SELECT now();''),
      db_functions = (\<lambda>h q.
        case q of
          FunctionLookup names \<Rightarrow>
            Answer [\<lparr>cf_schema = ''pg_catalog'', cf_name = ''now'', cf_volatility = ''s'', cf_extension = [], cf_visible = True\<rparr>]
        | _ \<Rightarrow> Answer []),
      db_remote = (\<lambda>h. Answer []),
      db_session = (\<lambda>h m. Answer \<lparr>es_superuser = False, es_signal = True, es_read_all_data = True\<rparr>),
      db_hidden = (\<lambda>h. Answer []),
      db_hijackable = True\<rparr>"

definition demo_run :: "history \<times> (explain_error + explain_result)" where
  "demo_run =
     Execute demo_parse (\<lambda>v. []) (\<lambda>s. s) (map lower_char) demo_db
       \<lparr>tg_connect = None, tg_statements_conn = None, tg_major = 16\<rparr> \<lparr>ea_queryid = Some 7, ea_datname = [], ea_analyze = True\<rparr>"

lemma demo_run_sends: "QueryRow (explain_sql True ''SELECT now()'') \<in> set (fst demo_run)"
  by code_simp

text \<open>
  C9. Whatever the statement is and whatever the database answers, nothing is planned, by the guard or by the
  command itself, unless a read-only transaction is open and not yet rolled back, the database was seen to
  define no function the planner may run and no remote estimate, and the session cannot signal or has
  switched to the reading role. Every plan is followed by \<^verbatim>\<open>ROLLBACK\<close> and the end of the session.\<close>

theorem plans_only_when_cleared:
  assumes "Execute parse marshal digest lw db tg args = (sent, out)" "sent = pre @ r # post" "plans r"
  shows "cleared db (ea_analyze args) pre
    \<and> (\<exists>body. post = body @ [Exec ''ROLLBACK'', close_request db] \<and> Exec ''ROLLBACK'' \<notin> set body)"
proof -
  have "permitted parse lw db (ea_analyze args) pre r"
    using Execute_disciplined [OF assms(1)] assms(2) unfolding disciplined_def by blast
  moreover obtain st body where "post = body @ [Exec ''ROLLBACK'', close_request db]" "\<forall>x \<in> set body. inside (ea_analyze args) st x"
    using plans_in_transaction [OF assms] by blast
  ultimately show ?thesis
    using assms(3) inside_not_rollback [of "ea_analyze args" st] unfolding permitted_def by blast
qed

theorem plans_only_when_cleared_witness:
  "\<exists>pre body.
     fst demo_run = pre @ QueryRow (explain_sql True ''SELECT now()'') # body @ [Exec ''ROLLBACK'', HijackClose] \<and> cleared demo_db True pre"
proof -
  obtain pre post where "fst demo_run = pre @ QueryRow (explain_sql True ''SELECT now()'') # post"
    using split_list [OF demo_run_sends] by blast
  with plans_only_when_cleared [of demo_parse "\<lambda>v. []" "\<lambda>s. s" "map lower_char" demo_db
      "\<lparr>tg_connect = None, tg_statements_conn = None, tg_major = 16\<rparr>" "\<lparr>ea_queryid = Some 7, ea_datname = [], ea_analyze = True\<rparr>"
      "fst demo_run" "snd demo_run" pre "QueryRow (explain_sql True ''SELECT now()'')" post]
  show ?thesis
    by (auto simp: demo_run_def close_request_def demo_db_def)
qed



lemma in_transaction_result:
  "in_transaction parse marshal digest lw db tg h args qid st = (h', Inr result) \<Longrightarrow> \<not> mayHoldCredential (er_plan result)"
  by (auto simp: in_transaction_def Let_def split: option.splits sum.splits if_splits prod.splits)

lemma Execute_result:
  "Execute parse marshal digest lw db tg args = (sent, Inr result) \<Longrightarrow> \<not> mayHoldCredential (er_plan result)"
  by (auto simp: Execute_def Let_def split: option.splits sum.splits prod.splits dest: in_transaction_result)

lemma Execute_sends:
  "Execute parse marshal digest lw db tg args = (sent, out) \<Longrightarrow> ea_queryid args \<noteq> None \<Longrightarrow> tg_connect tg = None \<Longrightarrow> sent \<noteq> []"
  by (auto simp: Execute_def Let_def discardConn_eq split: option.splits sum.splits prod.splits)

text \<open>
  C39. Whenever the command got a connection, the session ends with it: the last request closes it and nothing
  is sent after that. A transaction that was opened is rolled back right before. A plan that shows the
  sign of a credential is never returned.\<close>

theorem session_always_ends:
  assumes "Execute parse marshal digest lw db tg args = (sent, out)" "ea_queryid args \<noteq> None" "tg_connect tg = None"
  shows "(\<exists>body. sent = body @ [close_request db] \<and> close_request db \<notin> set body
      \<and> (\<forall>h. prefix (h @ [Exec ''BEGIN READ ONLY'']) body \<and> db_exec db h ''BEGIN READ ONLY'' = None \<longrightarrow> last body = Exec ''ROLLBACK''))
    \<and> (\<forall>result. out = Inr result \<longrightarrow> \<not> mayHoldCredential (er_plan result))"
proof
  show "\<forall>result. out = Inr result \<longrightarrow> \<not> mayHoldCredential (er_plan result)"
    using assms(1) Execute_result by blast
  show "\<exists>body. sent = body @ [close_request db] \<and> close_request db \<notin> set body
      \<and> (\<forall>h. prefix (h @ [Exec ''BEGIN READ ONLY'']) body \<and> db_exec db h ''BEGIN READ ONLY'' = None \<longrightarrow> last body = Exec ''ROLLBACK'')"
  proof (cases rule: Execute_shape [OF assms(1) Execute_sends [OF assms], case_names no_transaction begin_failed transaction])
    case (no_transaction texts)
    have "\<not> prefix (h @ [Exec ''BEGIN READ ONLY'']) texts" for h
      using texts_disciplined(2) [OF no_transaction(1), of "''BEGIN READ ONLY''"] by (auto simp: prefix_def)
    then show ?thesis
      using no_transaction texts_disciplined(4) by (auto simp: discardConn_eq)
  next
    case (begin_failed texts e)
    have "h = texts" if pf: "prefix (h @ [Exec ''BEGIN READ ONLY'']) (texts @ [Exec ''BEGIN READ ONLY''])" for h
    proof -
      obtain zs where zs: "h @ Exec ''BEGIN READ ONLY'' # zs = texts @ [Exec ''BEGIN READ ONLY'']"
        using pf by (auto simp: prefix_def dest: sym)
      show ?thesis
        using skip_front [OF zs texts_disciplined(2) [OF begin_failed(1)]] by (auto simp: append_eq_Cons_conv)
    qed
    then show ?thesis
      using begin_failed texts_disciplined(4) by (auto simp: discardConn_eq)
  next
    case (transaction texts h qid st query)
    obtain mid where mid: "h = (texts @ [Exec ''BEGIN READ ONLY'']) @ mid" "\<forall>x \<in> set mid. inside (ea_analyze args) st x"
      using transaction_trace [OF transaction(1,2,4)] unfolding grows_def by blast
    have "close_request db \<notin> set (h @ [Exec ''ROLLBACK''])"
      using mid texts_disciplined(4) [OF transaction(1)] close_request_other by auto
    then show ?thesis
      using transaction(5) by (auto simp: discardConn_eq)
  qed
qed

theorem session_always_ends_witness:
  "(\<exists>body. fst demo_run = body @ [HijackClose] \<and> HijackClose \<notin> set body)
   \<and> (\<exists>result. snd demo_run = Inr result \<and> \<not> mayHoldCredential (er_plan result))"
proof -
  have r: "case snd demo_run of Inr result \<Rightarrow> True | Inl e \<Rightarrow> False"
    by code_simp
  then show ?thesis
    using session_always_ends [of demo_parse "\<lambda>v. []" "\<lambda>s. s" "map lower_char" demo_db
      "\<lparr>tg_connect = None, tg_statements_conn = None, tg_major = 16\<rparr>" "\<lparr>ea_queryid = Some 7, ea_datname = [], ea_analyze = True\<rparr>"
      "fst demo_run" "snd demo_run"]
    by (auto simp: demo_run_def close_request_def demo_db_def split: sum.splits)
qed

end
