(* ===== verification/Spec2Isabelle.thy ===== *)
theory Spec2Isabelle
  imports Prelude Pgtype Breaker Delta Card_Limits Ash Buffer_Open Push_Runs Alert_Notify Topology_Orphans Explain_Safety
begin

text \<open>
  A verification development for pglens.
\<close>

end
